(* ===== verification/VSS_Prelude.thy ===== *)
theory VSS_Prelude
  imports Main "HOL-Library.AList" "HOL-Library.Sublist" "HOL-Library.Multiset"
begin

text \<open>
  Shared foundations of the VSS development: the collections of rewrite rules the component
  proofs use, generic facts on association lists (Go maps), paths and lists, and the Go
  machine integer \<open>int\<close> (64 bits wide on the platforms VSS builds for).
  A Go \<open>map[K]V\<close> is an association list with distinct keys; its order stands for one order
  in which the runtime may iterate the map, so results of iterations are stated as sets or
  multisets wherever the order is visible.
\<close>

named_theorems go_simps \<open>evaluation rules of the Go library functions\<close>
named_theorems path_simps \<open>how textual keys turn into paths\<close>
named_theorems db_simps \<open>what a storage holds after an operation\<close>

section \<open>Association lists as Go maps\<close>

lemma alist_update_idem [simp]: "map_of al k = Some v \<Longrightarrow> AList.update k v al = al"
  by (induction al) (auto split: if_splits)

lemma alist_update_neq_Nil [simp]: "AList.update k v al \<noteq> []"
  by (induction al) auto

lemma map_of_alist_update [simp]: "map_of (AList.update k v al) k' = (if k' = k then Some v else map_of al k')"
  by (simp add: update_conv')

lemma map_of_alist_delete [simp]: "map_of (AList.delete k al) k' = (if k' = k then None else map_of al k')"
  by (simp add: delete_conv')

lemma set_alist_update_subset: "set (AList.update k v al) \<subseteq> insert (k, v) (set al)"
  by (induction al) auto

lemma set_alist_delete_subset: "set (AList.delete k al) \<subseteq> set al"
  by (auto simp: AList.delete_eq)

lemma distinct_keys_map_of_iff:
  "distinct (map fst al) \<Longrightarrow> map_of al k = Some v \<longleftrightarrow> (k, v) \<in> set al"
  by (rule map_of_eq_Some_iff)

lemma in_keys_map_of: "k \<in> set (map fst al) \<longleftrightarrow> map_of al k \<noteq> None"
  by (simp add: map_of_eq_None_iff)

section \<open>Lists\<close>

definition remove_last :: "'a \<Rightarrow> 'a list \<Rightarrow> 'a list" where
  "remove_last x xs = rev (remove1 x (rev xs))"

lemma remove_last_notin [simp]: "x \<notin> set xs \<Longrightarrow> remove_last x xs = xs"
  by (simp add: remove_last_def remove1_idem)

lemma remove_last_split: "x \<notin> set zs \<Longrightarrow> remove_last x (ys @ x # zs) = ys @ zs"
  by (simp add: remove_last_def remove1_append)

lemma mset_remove_last: "mset (remove_last x xs) = mset xs - {#x#}"
  by (simp add: remove_last_def)

lemma foldl_prepend: "foldl (\<lambda>res x. f x @ res) acc xs = concat (map f (rev xs)) @ acc"
  by (induction xs arbitrary: acc) auto

lemma nth_map_upt_take: "map (\<lambda>i. xs ! i) [0..<n] = take n xs" if "n \<le> length xs"
  using that by (auto intro: nth_equalityI)

lemma concat_map_concat_map: "concat (map f (concat (map g xs))) = concat (map (\<lambda>x. concat (map f (g x))) xs)"
  by (induction xs) auto

lemma mset_map_filter_cong: "mset xs = mset ys \<Longrightarrow> mset (List.map_filter f xs) = mset (List.map_filter f ys)"
  by (simp add: List.map_filter_def)

lemma map_of_mset_cong:
  assumes "mset xs = mset ys" and "distinct (map fst ys)"
  shows "map_of xs = map_of ys"
proof -
  from assms(1) have "mset (map fst xs) = mset (map fst ys)" by simp
  with assms(2) have "distinct (map fst xs)" by (metis mset_eq_imp_distinct_iff)
  moreover from assms(1) have "set xs = set ys" by (rule mset_eq_setD)
  ultimately show ?thesis using assms(2) by (simp add: map_of_inject_set)
qed

lemma distinct_concat_map:
  assumes "distinct xs" and "\<And>x. x \<in> set xs \<Longrightarrow> distinct (f x)"
    and "\<And>x y. x \<in> set xs \<Longrightarrow> y \<in> set xs \<Longrightarrow> x \<noteq> y \<Longrightarrow> set (f x) \<inter> set (f y) = {}"
  shows "distinct (concat (map f xs))"
  using assms
proof (induction xs)
  case (Cons x xs)
  have "set (f x) \<inter> set (f y) = {}" if "y \<in> set xs" for y
    using Cons.prems(1) that by (intro Cons.prems(3)) auto
  then have "set (f x) \<inter> set (concat (map f xs)) = {}" by auto
  moreover have "distinct (concat (map f xs))" using Cons by simp
  ultimately show ?case using Cons.prems(2) [of x] by simp
qed simp

lemma upto_int: "[0..n - 1] = map int [0..<nat n]"
  by (rule nth_equalityI) (auto simp: nth_upto)

section \<open>Paths\<close>

type_synonym path = "string list"

lemma prefix_not_longer_eq: "prefix p q \<Longrightarrow> prefix q p \<Longrightarrow> p = q"
  by (rule prefix_order.antisym)

lemma prefix_same_length: "prefix (p @ [a]) (p @ b # q) \<longleftrightarrow> a = b"
  by auto

section \<open>Machine integers\<close>

text \<open>Go's \<open>int\<close> and \<open>int64\<close> arithmetic wraps around at 64 bits; \<open>wrap64\<close> is the reduction of a
  mathematical result to the signed 64-bit range.\<close>

definition wrap64 :: "int \<Rightarrow> int" where
  "wrap64 x = (x + 2 ^ 63) mod 2 ^ 64 - 2 ^ 63"

definition int64_range :: "int \<Rightarrow> bool" where
  "int64_range x \<longleftrightarrow> - (2 ^ 63) \<le> x \<and> x < 2 ^ 63"

lemma wrap64_range [simp]: "int64_range (wrap64 x)"
  by (simp add: wrap64_def int64_range_def)

lemma wrap64_id [simp]: "int64_range x \<Longrightarrow> wrap64 x = x"
  by (simp add: wrap64_def int64_range_def)

lemma wrap64_idem [simp]: "wrap64 (wrap64 x) = wrap64 x"
  by simp

end
