(* ===== verification/GoStrings.thy ===== *)
theory GoStrings
  imports VSS_Prelude
begin

text \<open>
  The part of Go's \<open>strings\<close> and \<open>strconv\<close> packages the sources call. A Go string is a
  sequence of bytes and so is an Isabelle \<open>string\<close> (\<open>char\<close> is an 8-bit value), hence \<open>len\<close>,
  slicing and byte indices agree with \<open>length\<close>, \<open>take\<close> and \<open>drop\<close>.
\<close>

section \<open>Searching and slicing\<close>

fun strings_IndexByte :: "string \<Rightarrow> char \<Rightarrow> nat option" where
  "strings_IndexByte [] c = None"
| "strings_IndexByte (x # xs) c = (if x = c then Some 0 else map_option Suc (strings_IndexByte xs c))"

fun strings_Contains :: "string \<Rightarrow> string \<Rightarrow> bool" where
  "strings_Contains [] sub = (sub = [])"
| "strings_Contains (x # xs) sub = (prefix sub (x # xs) \<or> strings_Contains xs sub)"

definition strings_HasPrefix :: "string \<Rightarrow> string \<Rightarrow> bool" where
  "strings_HasPrefix s p = prefix p s"

definition strings_HasSuffix :: "string \<Rightarrow> string \<Rightarrow> bool" where
  "strings_HasSuffix s p = suffix p s"

definition strings_TrimPrefix :: "string \<Rightarrow> string \<Rightarrow> string" where
  "strings_TrimPrefix s p = (if prefix p s then drop (length p) s else s)"

definition strings_TrimSuffix :: "string \<Rightarrow> string \<Rightarrow> string" where
  "strings_TrimSuffix s p = (if suffix p s then take (length s - length p) s else s)"

definition strings_LastIndexByte :: "string \<Rightarrow> char \<Rightarrow> nat option" where
  "strings_LastIndexByte s c =
     map_option (\<lambda>i. length s - 1 - i) (strings_IndexByte (rev s) c)"

text \<open>\<open>strings.TrimRight\<close> with a one-byte cutset.\<close>

definition strings_TrimRightByte :: "string \<Rightarrow> char \<Rightarrow> string" where
  "strings_TrimRightByte s c = rev (dropWhile (\<lambda>x. x = c) (rev s))"

text \<open>\<open>strings.ReplaceAll\<close> with a one-byte pattern.\<close>

definition strings_ReplaceByte :: "string \<Rightarrow> char \<Rightarrow> string \<Rightarrow> string" where
  "strings_ReplaceByte s c r = concat (map (\<lambda>x. if x = c then r else [x]) s)"

text \<open>\<open>strings.ReplaceAll\<close>, from left to right.\<close>

function strings_ReplaceAll :: "string \<Rightarrow> string \<Rightarrow> string \<Rightarrow> string" where
  "strings_ReplaceAll [] old new = (if old = [] then new else [])"
| "strings_ReplaceAll (x # xs) old new =
     (if old = [] then new @ x # strings_ReplaceAll xs old new
      else if prefix old (x # xs) then new @ strings_ReplaceAll (drop (length old) (x # xs)) old new
      else x # strings_ReplaceAll xs old new)"
  by pat_completeness auto

termination
  by (relation "measure (\<lambda>(s, _, _). length s)") auto

lemma strings_ReplaceAll_absent:
  "c \<in> set old \<Longrightarrow> c \<notin> set s \<Longrightarrow> strings_ReplaceAll s old new = s"
proof (induction s)
  case (Cons a s)
  then have "\<not> prefix old (a # s)" using set_mono_prefix [of old "a # s"] by auto
  with Cons show ?case by auto
qed auto

lemma strings_IndexByte_None [simp]: "strings_IndexByte s c = None \<longleftrightarrow> c \<notin> set s"
  by (induction s) auto

lemma strings_IndexByte_absent [simp]: "c \<notin> set s \<Longrightarrow> strings_IndexByte s c = None"
  by simp

lemma strings_IndexByte_Some:
  "strings_IndexByte s c = Some i \<Longrightarrow> c \<notin> set (take i s) \<and> i < length s \<and> s = take i s @ c # drop (Suc i) s"
proof (induction s arbitrary: i)
  case (Cons x xs)
  show ?case
  proof (cases "x = c")
    case False
    with Cons.prems obtain j where "strings_IndexByte xs c = Some j" "i = Suc j" by auto
    with Cons.IH [of j] False show ?thesis by auto
  qed (use Cons.prems in auto)
qed simp

lemma strings_IndexByte_append: "c \<notin> set a \<Longrightarrow> strings_IndexByte (a @ c # b) c = Some (length a)"
  by (induction a) auto

lemma strings_Contains_byte [simp]: "strings_Contains s [c] \<longleftrightarrow> c \<in> set s"
  by (induction s) auto

lemma strings_Contains_sublist: "strings_Contains s sub \<longleftrightarrow> (\<exists>a b. s = a @ sub @ b)"
proof (induction s)
  case (Cons x xs)
  show ?case
  proof
    assume "strings_Contains (x # xs) sub"
    then consider "prefix sub (x # xs)" | "strings_Contains xs sub" by auto
    then show "\<exists>a b. x # xs = a @ sub @ b"
    proof cases
      case 1
      then obtain b where "x # xs = [] @ sub @ b" by (auto simp: prefix_def)
      then show ?thesis by blast
    next
      case 2
      with Cons obtain a b where "x # xs = (x # a) @ sub @ b" by auto
      then show ?thesis by blast
    qed
  next
    assume "\<exists>a b. x # xs = a @ sub @ b"
    then obtain a b where ab: "x # xs = a @ sub @ b" by blast
    show "strings_Contains (x # xs) sub"
    proof (cases a)
      case Nil
      with ab have "prefix sub (x # xs)" by (simp add: prefix_def)
      then show ?thesis by simp
    next
      case (Cons y a')
      with ab have "xs = a' @ sub @ b" by simp
      with Cons.IH show ?thesis by auto
    qed
  qed
qed auto

section \<open>Splitting and joining\<close>

fun strings_Split :: "char \<Rightarrow> string \<Rightarrow> string list" where
  "strings_Split c [] = [[]]"
| "strings_Split c (x # xs) =
     (if x = c then [] # strings_Split c xs
      else (case strings_Split c xs of [] \<Rightarrow> [[x]] | w # ws \<Rightarrow> (x # w) # ws))"

fun strings_Join :: "string list \<Rightarrow> string \<Rightarrow> string" where
  "strings_Join [] sep = []"
| "strings_Join [w] sep = w"
| "strings_Join (w # v # ws) sep = w @ sep @ strings_Join (v # ws) sep"

lemma strings_Split_neq_Nil [simp]: "strings_Split c s \<noteq> []"
  by (induction s) (auto split: list.splits)

lemma strings_Split_no_sep [simp]: "c \<notin> set s \<Longrightarrow> strings_Split c s = [s]"
  by (induction s) auto

lemma strings_Split_append [simp]: "strings_Split c (a @ c # b) = strings_Split c a @ strings_Split c b"
proof (induction a)
  case (Cons x a)
  show ?case
    by (cases "strings_Split c a") (use Cons in \<open>auto split: list.splits\<close>)
qed simp

lemma strings_Split_elem: "w \<in> set (strings_Split c s) \<Longrightarrow> c \<notin> set w"
  by (induction s arbitrary: w) (auto split: list.splits if_splits)

lemma strings_Join_Split [simp]: "strings_Join (strings_Split c s) [c] = s"
proof (induction s)
  case (Cons x s)
  then show ?case
    by (cases "strings_Split c s"; cases "tl (strings_Split c s)") auto
qed simp

lemma strings_Split_Join:
  "ws \<noteq> [] \<Longrightarrow> \<forall>w \<in> set ws. c \<notin> set w \<Longrightarrow> strings_Split c (strings_Join ws [c]) = ws"
  by (induction ws "[c]" rule: strings_Join.induct) auto

lemma strings_Split_inj: "strings_Split c a = strings_Split c b \<longleftrightarrow> a = b"
  by (metis strings_Join_Split)

lemma strings_Join_snoc:
  "ws \<noteq> [] \<Longrightarrow> strings_Join (ws @ [w]) sep = strings_Join ws sep @ sep @ w"
  by (induction ws sep rule: strings_Join.induct) auto

text \<open>Splitting a text whose lines are all terminated.\<close>

lemma strings_Split_lines:
  "\<forall>l \<in> set ls. c \<notin> set l \<Longrightarrow> strings_Split c (concat (map (\<lambda>l. l @ [c]) ls)) = ls @ [[]]"
  by (induction ls) auto

section \<open>Trimming white space\<close>

text \<open>\<open>strings.TrimSpace\<close> removes the runes for which \<open>unicode.IsSpace\<close> holds; these are their UTF-8
  encodings.\<close>

definition space_runes :: "string list" where
  "space_runes =
     [[CHR 0x09], [CHR 0x0A], [CHR 0x0B], [CHR 0x0C], [CHR 0x0D], [CHR 0x20],
      [CHR 0xC2, CHR 0x85], [CHR 0xC2, CHR 0xA0], [CHR 0xE1, CHR 0x9A, CHR 0x80],
      [CHR 0xE2, CHR 0x80, CHR 0x80], [CHR 0xE2, CHR 0x80, CHR 0x81], [CHR 0xE2, CHR 0x80, CHR 0x82],
      [CHR 0xE2, CHR 0x80, CHR 0x83], [CHR 0xE2, CHR 0x80, CHR 0x84], [CHR 0xE2, CHR 0x80, CHR 0x85],
      [CHR 0xE2, CHR 0x80, CHR 0x86], [CHR 0xE2, CHR 0x80, CHR 0x87], [CHR 0xE2, CHR 0x80, CHR 0x88],
      [CHR 0xE2, CHR 0x80, CHR 0x89], [CHR 0xE2, CHR 0x80, CHR 0x8A], [CHR 0xE2, CHR 0x80, CHR 0xA8],
      [CHR 0xE2, CHR 0x80, CHR 0xA9], [CHR 0xE2, CHR 0x80, CHR 0xAF], [CHR 0xE2, CHR 0x81, CHR 0x9F],
      [CHR 0xE3, CHR 0x80, CHR 0x80]]"

fun trim_runes :: "string list \<Rightarrow> string \<Rightarrow> string" where
  "trim_runes rs [] = []"
| "trim_runes rs (x # xs) =
     (case find (\<lambda>r. r \<noteq> [] \<and> prefix r (x # xs)) rs of
        None \<Rightarrow> x # xs
      | Some r \<Rightarrow> trim_runes rs (drop (length r - 1) xs))"

definition strings_TrimSpace :: "string \<Rightarrow> string" where
  "strings_TrimSpace s = rev (trim_runes (map rev space_runes) (rev (trim_runes space_runes s)))"

lemma trim_runes_keeps:
  "c \<in> set s \<Longrightarrow> \<forall>r \<in> set rs. c \<notin> set r \<Longrightarrow> c \<in> set (trim_runes rs s)"
proof (induction rs s rule: trim_runes.induct)
  case (2 rs x xs)
  show ?case
  proof (cases "find (\<lambda>r. r \<noteq> [] \<and> prefix r (x # xs)) rs")
    case (Some r)
    then have r: "r \<in> set rs" "r \<noteq> []" "prefix r (x # xs)" by (auto simp: find_Some_iff)
    then obtain zs where zs: "x # xs = r @ zs" by (auto simp: prefix_def)
    have "drop (length r - 1) xs = drop (length r) (x # xs)"
      using r(2) by (cases r) auto
    with zs have tl: "drop (length r - 1) xs = zs" by simp
    have "c \<in> set (r @ zs)" using "2.prems"(1) zs by metis
    with r(1) "2.prems"(2) tl have "c \<in> set (drop (length r - 1) xs)" by auto
    with Some "2.IH" [OF Some] "2.prems"(2) show ?thesis by simp
  qed (use "2.prems" in auto)
qed simp

lemma strings_TrimSpace_keeps:
  assumes "c \<in> set s" and "\<forall>r \<in> set space_runes. c \<notin> set r"
  shows "c \<in> set (strings_TrimSpace s)"
  using assms by (auto simp: strings_TrimSpace_def intro!: trim_runes_keeps)

lemma strings_TrimSpace_Nil [simp]: "strings_TrimSpace [] = []"
  by (simp add: strings_TrimSpace_def)

lemma trim_runes_id:
  "s = [] \<or> (\<forall>r \<in> set rs. r = [] \<or> hd r \<noteq> hd s) \<Longrightarrow> trim_runes rs s = s"
proof (cases s)
  case (Cons a l)
  moreover assume "s = [] \<or> (\<forall>r \<in> set rs. r = [] \<or> hd r \<noteq> hd s)"
  ultimately have "find (\<lambda>r. r \<noteq> [] \<and> prefix r (a # l)) rs = None"
    by (fastforce simp: find_None_iff prefix_Cons)
  with Cons show ?thesis by simp
qed simp

lemma strings_TrimSpace_id:
  assumes "s = [] \<or> (\<forall>r \<in> set space_runes. hd s \<noteq> hd r \<and> last s \<noteq> last r)"
  shows "strings_TrimSpace s = s"
proof -
  have "trim_runes space_runes s = s"
    using assms by (intro trim_runes_id) auto
  moreover have "trim_runes (map rev space_runes) (rev s) = rev s"
    using assms by (intro trim_runes_id) (auto simp: hd_rev)
  ultimately show ?thesis by (simp add: strings_TrimSpace_def)
qed

section \<open>Decimal numbers\<close>

definition digit_char :: "nat \<Rightarrow> char" where
  "digit_char n = ''0123456789'' ! n"

definition digit_chars :: "char set" where
  "digit_chars = set ''0123456789''"

definition digit_val :: "char \<Rightarrow> nat option" where
  "digit_val c = (let k = (of_char c :: nat) in if 48 \<le> k \<and> k \<le> 57 then Some (k - 48) else None)"

fun nat_dec :: "nat \<Rightarrow> string" where
  "nat_dec n = (if n < 10 then [digit_char n] else nat_dec (n div 10) @ [digit_char (n mod 10)])"

declare nat_dec.simps [simp del]

fun dec_nat :: "nat \<Rightarrow> string \<Rightarrow> nat option" where
  "dec_nat acc [] = Some acc"
| "dec_nat acc (c # cs) = (case digit_val c of None \<Rightarrow> None | Some d \<Rightarrow> dec_nat (10 * acc + d) cs)"

definition strconv_Itoa :: "int \<Rightarrow> string" where
  "strconv_Itoa i = (if i < 0 then CHR ''-'' # nat_dec (nat (- i)) else nat_dec (nat i))"

text \<open>\<open>strconv.Atoi\<close>: an optional sign and at least one digit, within the range of \<open>int\<close>; the error
  (syntax or range) is \<open>None\<close>.\<close>

definition strconv_Atoi :: "string \<Rightarrow> int option" where
  "strconv_Atoi s =
     (let neg = (s \<noteq> [] \<and> hd s = CHR ''-'');
          ds = (if s \<noteq> [] \<and> (hd s = CHR ''-'' \<or> hd s = CHR ''+'') then tl s else s)
      in if ds = [] then None
         else case dec_nat 0 ds of
                None \<Rightarrow> None
              | Some n \<Rightarrow> let i = (if neg then - int n else int n)
                          in if int64_range i then Some i else None)"

lemma digit_val_digit_char [simp]:
  assumes "n < 10"
  shows "digit_val (digit_char n) = Some n"
proof -
  have "list_all (\<lambda>n. digit_val (digit_char n) = Some n) [0..<10]" by code_simp
  with assms show ?thesis by (simp add: list_all_iff)
qed

lemma digit_char_in: "n < 10 \<Longrightarrow> digit_char n \<in> digit_chars"
  unfolding digit_char_def digit_chars_def by (rule nth_mem) simp

lemma nat_dec_digits: "set (nat_dec n) \<subseteq> digit_chars"
proof (induction n rule: nat_dec.induct)
  case (1 n)
  show ?case
  proof (cases "n < 10")
    case True
    then show ?thesis using digit_char_in [of n] by (simp add: nat_dec.simps [of n])
  next
    case False
    with "1.IH" digit_char_in [of "n mod 10"] show ?thesis by (simp add: nat_dec.simps [of n])
  qed
qed

lemma nat_dec_neq_Nil [simp]: "nat_dec n \<noteq> []"
  by (subst nat_dec.simps) simp

lemma dec_nat_append:
  "dec_nat acc (xs @ ys) = (case dec_nat acc xs of None \<Rightarrow> None | Some m \<Rightarrow> dec_nat m ys)"
  by (induction acc xs rule: dec_nat.induct) (auto split: option.splits)

lemma dec_nat_nat_dec [simp]: "dec_nat 0 (nat_dec n) = Some n"
proof (induction n rule: nat_dec.induct)
  case (1 n)
  show ?case
    by (cases "n < 10") (use "1.IH" in \<open>auto simp: nat_dec.simps [of n] dec_nat_append\<close>)
qed

lemma nat_dec_sign: "CHR ''-'' \<notin> set (nat_dec n)" "CHR ''+'' \<notin> set (nat_dec n)"
  using nat_dec_digits [of n] by (auto simp: digit_chars_def)

lemma hd_nat_dec: "hd (nat_dec n) \<noteq> CHR ''-''" "hd (nat_dec n) \<noteq> CHR ''+''"
  using nat_dec_sign [of n] hd_in_set [OF nat_dec_neq_Nil [of n]] by metis+

text \<open>Printing and reading back an \<open>int\<close> is the identity.\<close>

lemma strconv_Atoi_Itoa [simp]: "int64_range i \<Longrightarrow> strconv_Atoi (strconv_Itoa i) = Some i"
  using hd_nat_dec [of "nat i"]
  by (auto simp: strconv_Atoi_def strconv_Itoa_def)

lemma strconv_Atoi_range: "strconv_Atoi s = Some i \<Longrightarrow> int64_range i"
  by (auto simp: strconv_Atoi_def Let_def split: option.splits if_splits)

lemma strconv_Itoa_chars: "set (strconv_Itoa i) \<subseteq> insert CHR ''-'' digit_chars"
  using nat_dec_digits [of "nat i"] nat_dec_digits [of "nat (- i)"]
  by (auto simp: strconv_Itoa_def)

lemma strconv_Itoa_neq_Nil [simp]: "strconv_Itoa i \<noteq> []"
  by (simp add: strconv_Itoa_def)

lemma nat_dec_inj [simp]: "nat_dec m = nat_dec n \<longleftrightarrow> m = n"
  by (metis dec_nat_nat_dec option.inject)

lemma nat_dec_neq_minus [simp]: "nat_dec m \<noteq> CHR ''-'' # s" "CHR ''-'' # s \<noteq> nat_dec m"
  using hd_nat_dec(1) [of m] by (metis list.sel(1))+

lemma strconv_Itoa_inj [simp]: "strconv_Itoa i = strconv_Itoa j \<longleftrightarrow> i = j"
  by (auto simp: strconv_Itoa_def eq_nat_nat_iff)

lemma strconv_Itoa_no_dot [simp]: "CHR ''.'' \<notin> set (strconv_Itoa i)"
  using strconv_Itoa_chars [of i] by (auto simp: digit_chars_def)

lemma strconv_Itoa_neq_word:
  "c \<in> set w \<Longrightarrow> c \<notin> insert CHR ''-'' digit_chars \<Longrightarrow> strconv_Itoa i \<noteq> w"
  using strconv_Itoa_chars [of i] by blast

lemma strconv_Itoa_neq_count [simp]: "strconv_Itoa i \<noteq> ''count''" "''count'' \<noteq> strconv_Itoa i"
  using strconv_Itoa_neq_word [of "CHR ''c''" "''count''" i] by (auto simp: digit_chars_def)

section \<open>The last occurrence of a byte\<close>

lemma strings_LastIndexByte_None [simp]: "strings_LastIndexByte s c = None \<longleftrightarrow> c \<notin> set s"
  by (simp add: strings_LastIndexByte_def)

lemma strings_LastIndexByte_append:
  "c \<notin> set b \<Longrightarrow> strings_LastIndexByte (a @ c # b) c = Some (length a)"
  using strings_IndexByte_append [of c "rev b" "rev a"] by (simp add: strings_LastIndexByte_def)

lemma strings_LastIndexByte_Some:
  assumes "strings_LastIndexByte s c = Some i"
  shows "i < length s" and "s = take i s @ c # drop (Suc i) s" and "c \<notin> set (drop (Suc i) s)"
proof -
  have "c \<in> set s" using assms strings_LastIndexByte_None [of s c] by auto
  then obtain a b where s: "s = a @ c # b" "c \<notin> set b" by (metis split_list_last)
  then have "i = length a" using assms strings_LastIndexByte_append [of c b a] by simp
  with s show "i < length s" "s = take i s @ c # drop (Suc i) s" "c \<notin> set (drop (Suc i) s)" by simp_all
qed

end
