(* ===== verification/Misc.thy ===== *)
theory Misc
  imports GoStrings
begin

text \<open>
  Package \<open>misc\<close>: the string-backed variant \<open>DynamicVar\<close> (\<open>dynamicvar.go\<close>), the generic
  \<open>Tuple\<close> (\<open>tuples.go\<close>) and the key filter \<open>GetOnly\<close> (\<open>misc.go\<close>).
\<close>

section \<open>DynamicVar\<close>

record DynamicVar =
  data :: string

text \<open>The Go \<open>any\<close> values the sources store: a nil interface, a string, an integer, a boolean, or some
  other JSON-like value of a type \<open>'j\<close> the library formats.\<close>

datatype 'j goany = GNil | GString string | GInt int | GBool bool | GOther 'j

text \<open>\<open>anyToString\<close>: strings are stored as they are, everything else in its JSON form (\<open>marshal\<close>, with
  \<open>sprintf\<close> when marshalling fails). \<open>reflect.TypeOf(nil)\<close> is a nil interface, so calling
  \<open>Kind\<close> on it panics: \<open>None\<close>.\<close>

definition anyToString :: "('j \<Rightarrow> string option) \<Rightarrow> ('j \<Rightarrow> string) \<Rightarrow> 'j goany \<Rightarrow> string option" where
  "anyToString marshal sprintf value =
     (case value of
        GNil \<Rightarrow> None
      | GString s \<Rightarrow> Some s
      | GInt i \<Rightarrow> Some (strconv_Itoa i)
      | GBool b \<Rightarrow> Some (if b then ''true'' else ''false'')
      | GOther j \<Rightarrow> Some (case marshal j of Some s \<Rightarrow> s | None \<Rightarrow> sprintf j))"

definition NewDynamicVar :: "('j \<Rightarrow> string option) \<Rightarrow> ('j \<Rightarrow> string) \<Rightarrow> 'j goany \<Rightarrow> DynamicVar option" where
  "NewDynamicVar marshal sprintf value = map_option (\<lambda>s. \<lparr>data = s\<rparr>) (anyToString marshal sprintf value)"

text \<open>The two instances of \<open>NewDynamicVar\<close> the server uses with a static argument type.\<close>

definition NewDynamicVar_string :: "string \<Rightarrow> DynamicVar" where
  "NewDynamicVar_string s = \<lparr>data = s\<rparr>"

definition NewDynamicVar_int :: "int \<Rightarrow> DynamicVar" where
  "NewDynamicVar_int i = \<lparr>data = strconv_Itoa i\<rparr>"

definition NewEmptyDynamicVar :: DynamicVar where
  "NewEmptyDynamicVar = \<lparr>data = []\<rparr>"

definition GetString :: "DynamicVar \<Rightarrow> string" where
  "GetString v = data v"

definition SetString :: "string \<Rightarrow> DynamicVar \<Rightarrow> DynamicVar" where
  "SetString s v = v\<lparr>data := s\<rparr>"

definition SetInt64 :: "int \<Rightarrow> DynamicVar \<Rightarrow> DynamicVar" where
  "SetInt64 i v = SetString (strconv_Itoa i) v"

definition SetInt :: "int \<Rightarrow> DynamicVar \<Rightarrow> DynamicVar" where
  "SetInt i v = SetString (strconv_Itoa i) v"

definition GetInt64e :: "DynamicVar \<Rightarrow> int option" where
  "GetInt64e v = strconv_Atoi (data v)"

definition GetInt64 :: "DynamicVar \<Rightarrow> int" where
  "GetInt64 v = (case GetInt64e v of None \<Rightarrow> 0 | Some r \<Rightarrow> r)"

definition GetInte :: "DynamicVar \<Rightarrow> int option" where
  "GetInte v = strconv_Atoi (data v)"

definition GetInt :: "DynamicVar \<Rightarrow> int" where
  "GetInt v = (case GetInte v of None \<Rightarrow> 0 | Some r \<Rightarrow> r)"

text \<open>Floating-point numbers are values of a type \<open>'f\<close>; \<open>parseFloat\<close> and \<open>formatFloat\<close> are
  \<open>strconv.ParseFloat\<close> and \<open>strconv.FormatFloat\<close> with the format \<open>f\<close>, \<open>zero\<close> is 0.\<close>

definition SetFloat64 :: "('f \<Rightarrow> string) \<Rightarrow> 'f \<Rightarrow> DynamicVar \<Rightarrow> DynamicVar" where
  "SetFloat64 formatFloat x v = v\<lparr>data := formatFloat x\<rparr>"

definition GetFloat64e :: "(string \<Rightarrow> 'f option) \<Rightarrow> DynamicVar \<Rightarrow> 'f option" where
  "GetFloat64e parseFloat v = parseFloat (data v)"

definition GetFloat64 :: "(string \<Rightarrow> 'f option) \<Rightarrow> 'f \<Rightarrow> DynamicVar \<Rightarrow> 'f" where
  "GetFloat64 parseFloat zero v = (case GetFloat64e parseFloat v of None \<Rightarrow> zero | Some r \<Rightarrow> r)"

definition SetBool :: "bool \<Rightarrow> DynamicVar \<Rightarrow> DynamicVar" where
  "SetBool b v = v\<lparr>data := (if b then ''1'' else ''0'')\<rparr>"

text \<open>\<open>strings.ToLower\<close> on ASCII text; other bytes are left alone.\<close>

definition lower_char :: "char \<Rightarrow> char" where
  "lower_char c = (let k = (of_char c :: nat) in if 65 \<le> k \<and> k \<le> 90 then char_of (k + 32) else c)"

definition strings_ToLower :: "string \<Rightarrow> string" where
  "strings_ToLower s = map lower_char s"

definition upper_char :: "char \<Rightarrow> char" where
  "upper_char c = (let k = (of_char c :: nat) in if 97 \<le> k \<and> k \<le> 122 then char_of (k - 32) else c)"

definition strings_ToUpper :: "string \<Rightarrow> string" where
  "strings_ToUpper s = map upper_char s"

definition GetBool :: "DynamicVar \<Rightarrow> bool" where
  "GetBool v = strings_Contains ''1trueyesok'' (strings_ToLower (data v))"

datatype reflect_Kind = Kind_Int | Kind_Float64 | Kind_Bool | Kind_String

definition InferType :: "(string \<Rightarrow> 'f option) \<Rightarrow> DynamicVar \<Rightarrow> reflect_Kind" where
  "InferType parseFloat v =
     (if strconv_Atoi (data v) \<noteq> None then Kind_Int
      else if parseFloat (data v) \<noteq> None then Kind_Float64
      else if strings_ToLower (data v) \<in> {''1'', ''0'', ''true'', ''false'', ''yes'', ''no''} then Kind_Bool
      else Kind_String)"

text \<open>The method \<open>Set\<close> and the functions for the optional settings of a variable.\<close>

definition dv_Set :: "('j \<Rightarrow> string option) \<Rightarrow> ('j \<Rightarrow> string) \<Rightarrow> 'j goany \<Rightarrow> DynamicVar \<Rightarrow> DynamicVar option" where
  "dv_Set marshal sprintf value v = map_option (\<lambda>s. v\<lparr>data := s\<rparr>) (anyToString marshal sprintf value)"

definition WithString :: "string \<Rightarrow> DynamicVar \<Rightarrow> DynamicVar" where
  "WithString value dn = SetString value dn"

definition WithInt :: "int \<Rightarrow> DynamicVar \<Rightarrow> DynamicVar" where
  "WithInt value dn = SetInt64 value dn"

definition WithFloat :: "('f \<Rightarrow> string) \<Rightarrow> 'f \<Rightarrow> DynamicVar \<Rightarrow> DynamicVar" where
  "WithFloat formatFloat value dn = SetFloat64 formatFloat value dn"

definition WithBool :: "bool \<Rightarrow> DynamicVar \<Rightarrow> DynamicVar" where
  "WithBool value dn = SetBool value dn"

definition NewDynamicVar2 :: "(DynamicVar \<Rightarrow> DynamicVar) \<Rightarrow> DynamicVar" where
  "NewDynamicVar2 option = option NewEmptyDynamicVar"

lemma data_NewDynamicVar [simp]:
  "data (NewDynamicVar_string s) = s" "data (NewDynamicVar_int i) = strconv_Itoa i"
  "data NewEmptyDynamicVar = []"
  by (simp_all add: NewDynamicVar_string_def NewDynamicVar_int_def NewEmptyDynamicVar_def)

lemma NewDynamicVar_static:
  "NewDynamicVar m sp (GString s) = Some (NewDynamicVar_string s)"
  "NewDynamicVar m sp (GInt i) = Some (NewDynamicVar_int i)"
  by (simp_all add: NewDynamicVar_def anyToString_def NewDynamicVar_string_def NewDynamicVar_int_def)

lemma GetString_simps [simp]:
  "GetString (NewDynamicVar_string s) = s" "GetString (NewDynamicVar_int i) = strconv_Itoa i"
  "GetString NewEmptyDynamicVar = []" "GetString (SetString s v) = s"
  by (simp_all add: GetString_def SetString_def)

lemma GetInt64_NewDynamicVar_int [simp]: "int64_range i \<Longrightarrow> GetInt64 (NewDynamicVar_int i) = i"
  by (simp add: GetInt64_def GetInt64e_def)

text \<open>The number a stored text stands for, as \<open>GetInt64\<close> reads it: malformed or empty text is 0.\<close>

definition num_of :: "string \<Rightarrow> int" where
  "num_of s = (case strconv_Atoi s of None \<Rightarrow> 0 | Some r \<Rightarrow> r)"

lemma num_of_range [simp]: "int64_range (num_of s)"
  by (auto simp: num_of_def int64_range_def dest: strconv_Atoi_range [unfolded int64_range_def]
      split: option.splits)

lemma num_of_Itoa [simp]: "int64_range i \<Longrightarrow> num_of (strconv_Itoa i) = i"
  by (simp add: num_of_def)

lemma num_of_Nil [simp]: "num_of [] = 0"
  by (simp add: num_of_def strconv_Atoi_def)

lemma GetInt64_num_of: "GetInt64 v = num_of (GetString v)"
  by (simp add: GetInt64_def GetInt64e_def GetString_def num_of_def)

section \<open>Tuples\<close>

record 'a Tuple =
  elements :: "'a list"

definition NewTuple :: "'a list \<Rightarrow> 'a Tuple" where
  "NewTuple es = \<lparr>elements = es\<rparr>"

text \<open>\<open>At\<close> panics outside the bounds: \<open>None\<close>.\<close>

definition At :: "'a Tuple \<Rightarrow> int \<Rightarrow> 'a option" where
  "At t i = (if 0 \<le> i \<and> i < int (length (elements t)) then Some (elements t ! nat i) else None)"

definition ElementAt :: "'a Tuple \<Rightarrow> int \<Rightarrow> 'a option" where
  "ElementAt t i = At t i"

definition Len :: "'a Tuple \<Rightarrow> int" where
  "Len t = int (length (elements t))"

definition Unpack :: "'a Tuple \<Rightarrow> 'a list" where
  "Unpack t = elements t"

definition First :: "'a Tuple \<Rightarrow> 'a option" where
  "First t = ElementAt t 0"

definition Second :: "'a Tuple \<Rightarrow> 'a option" where
  "Second t = ElementAt t 1"

definition Third :: "'a Tuple \<Rightarrow> 'a option" where
  "Third t = ElementAt t 2"

definition Fourth :: "'a Tuple \<Rightarrow> 'a option" where
  "Fourth t = ElementAt t 3"

definition Fifth :: "'a Tuple \<Rightarrow> 'a option" where
  "Fifth t = ElementAt t 4"

lemma At_bounds: "At t i \<noteq> None \<longleftrightarrow> 0 \<le> i \<and> i < Len t"
  by (simp add: At_def Len_def)

section \<open>GetOnly\<close>

text \<open>\<open>GetOnly\<close> keeps the runes of \<open>source\<close> that occur in \<open>validChars\<close>. With ASCII \<open>validChars\<close>, as in
  every call, a rune is kept exactly when it is one of those bytes: ASCII bytes of a Go string decode
  to themselves and every other byte belongs to a rune that is not ASCII.\<close>

definition GetOnly :: "string \<Rightarrow> string \<Rightarrow> string" where
  "GetOnly source validChars = filter (\<lambda>c. c \<in> set validChars) source"

lemma set_GetOnly: "set (GetOnly s v) = set s \<inter> set v"
  by (auto simp: GetOnly_def)

lemma GetOnly_idem [simp]: "GetOnly (GetOnly s v) v = GetOnly s v"
  by (simp add: GetOnly_def)

lemma GetOnly_id: "set s \<subseteq> set v \<Longrightarrow> GetOnly s v = s"
  by (auto simp: GetOnly_def filter_id_conv)

lemma length_GetOnly: "length (GetOnly s v) \<le> length s"
  by (simp add: GetOnly_def)

end
