(* ===== verification/Storage.thy ===== *)
theory Storage
  imports Misc
begin

text \<open>
  The storage interface \<open>IStorage\<close> (\<open>istorage.go\<close>) and what its clients rely on.
  A key is a dot-separated name; \<open>key_path\<close> is the sequence of map keys the storage walks for it.
  The interface is a record of operations, so that the controller's helpers are defined over any
  storage, as in the sources; the locale \<open>storage\<close> states the laws of a storage in terms of two views:
  the text found at a path (\<open>peek\<close>, empty where there is nothing) and whether a node exists there
  (\<open>has_node\<close>).
\<close>

section \<open>Keys and paths\<close>

text \<open>A name is cut at its first dot; nothing is left of the name after a final dot.\<close>

definition split_key :: "string \<Rightarrow> string \<times> string" where
  "split_key name =
     (case strings_IndexByte name CHR ''.'' of
        None \<Rightarrow> (name, [])
      | Some i \<Rightarrow> (take i name, drop (Suc i) name))"

lemma split_key_shorter: "split_key name = (a, b) \<Longrightarrow> b \<noteq> [] \<Longrightarrow> length b < length name"
  by (auto simp: split_key_def split: option.splits)

function key_path :: "string \<Rightarrow> path" where
  "key_path name =
     (let (currName, remainingName) = split_key name
      in if remainingName = [] then [currName] else currName # key_path remainingName)"
  by pat_completeness auto
termination
  by (relation "measure length") (auto dest: split_key_shorter [OF sym])

declare key_path.simps [simp del]

text \<open>All dot-separated components of a name, the empty last one included.\<close>

definition parts :: "string \<Rightarrow> path" where
  "parts s = strings_Split CHR ''.'' s"

lemma parts_neq_Nil [simp]: "parts s \<noteq> []"
  by (simp add: parts_def)

lemma parts_inj [simp]: "parts a = parts b \<longleftrightarrow> a = b"
  by (simp add: parts_def strings_Split_inj)

lemma parts_append_dot [path_simps]: "parts (a @ CHR ''.'' # b) = parts a @ parts b"
  by (simp add: parts_def)

lemma parts_no_dot [path_simps]: "CHR ''.'' \<notin> set s \<Longrightarrow> parts s = [s]"
  by (simp add: parts_def)

lemma parts_elem_no_dot: "k \<in> set (parts s) \<Longrightarrow> CHR ''.'' \<notin> set k"
  by (auto simp: parts_def dest: strings_Split_elem)

lemma key_path_no_dot [path_simps]: "CHR ''.'' \<notin> set s \<Longrightarrow> key_path s = [s]"
  by (simp add: key_path.simps [of s] split_key_def)

lemma key_path_cut:
  "CHR ''.'' \<notin> set a \<Longrightarrow> key_path (a @ CHR ''.'' # b) = (if b = [] then [a] else a # key_path b)"
  by (simp add: key_path.simps [of "a @ CHR ''.'' # b"] split_key_def strings_IndexByte_append)

lemma key_path_append_dot [path_simps]:
  "b \<noteq> [] \<Longrightarrow> key_path (a @ CHR ''.'' # b) = parts a @ key_path b"
proof (induction "length a" arbitrary: a rule: less_induct)
  case less
  show ?case
  proof (cases "strings_IndexByte a CHR ''.''")
    case None
    then show ?thesis using less.prems by (simp add: key_path_cut path_simps)
  next
    case (Some i)
    let ?x = "take i a" and ?y = "drop (Suc i) a"
    from strings_IndexByte_Some [OF Some]
    have i: "CHR ''.'' \<notin> set ?x" "i < length a" "a = ?x @ CHR ''.'' # ?y" by blast+
    have "key_path (?x @ CHR ''.'' # (?y @ CHR ''.'' # b)) = ?x # key_path (?y @ CHR ''.'' # b)"
      using key_path_cut [OF i(1)] by simp
    also have "\<dots> = ?x # parts ?y @ key_path b"
      using less.hyps [of ?y] less.prems i(2) by simp
    also have "\<dots> = parts (?x @ CHR ''.'' # ?y) @ key_path b"
      using i(1) by (simp add: path_simps)
    finally show ?thesis using i(3) by (metis append.assoc append_Cons)
  qed
qed

text \<open>A final dot is ignored, which makes \<open>a.\<close> and \<open>a\<close> the same key.\<close>

lemma key_path_final_dot: "key_path (a @ ''.'') = parts a"
proof (induction "length a" arbitrary: a rule: less_induct)
  case less
  show ?case
  proof (cases "strings_IndexByte a CHR ''.''")
    case None
    then show ?thesis by (simp add: key_path_cut path_simps)
  next
    case (Some i)
    let ?x = "take i a" and ?y = "drop (Suc i) a"
    from strings_IndexByte_Some [OF Some]
    have i: "CHR ''.'' \<notin> set ?x" "i < length a" "a = ?x @ CHR ''.'' # ?y" by blast+
    have "key_path (?x @ CHR ''.'' # (?y @ ''.'')) = ?x # parts ?y"
      using key_path_cut [OF i(1)] less.hyps [of ?y] i(2) by simp
    then show ?thesis using i parts_append_dot [of ?x ?y] by (metis append.assoc append_Cons append_Nil path_simps(2))
  qed
qed

lemma key_path_parts: "key_path s = (if last (parts s) = [] \<and> length (parts s) > 1 then butlast (parts s) else parts s)"
proof (cases "CHR ''.'' \<in> set s")
  case False
  then show ?thesis by (simp add: path_simps)
next
  case True
  then obtain a b where s: "s = a @ CHR ''.'' # b" "CHR ''.'' \<notin> set b"
    by (metis split_list_last)
  show ?thesis
  proof (cases "b = []")
    case True
    then show ?thesis using s key_path_final_dot [of a] by (simp add: path_simps)
  next
    case False
    then show ?thesis using s by (simp add: path_simps)
  qed
qed

lemma key_path_neq_Nil [simp]: "key_path s \<noteq> []"
  by (cases "parts s" rule: rev_cases) (auto simp: key_path_parts)

lemma key_path_elem_no_dot: "k \<in> set (key_path s) \<Longrightarrow> CHR ''.'' \<notin> set k"
  by (auto simp: key_path_parts dest: in_set_butlastD parts_elem_no_dot split: if_splits)

text \<open>Keys made of clean components name exactly these components.\<close>

lemma key_path_Join:
  assumes "p \<noteq> []" and "\<forall>k \<in> set p. CHR ''.'' \<notin> set k" and "last p \<noteq> []"
  shows "key_path (strings_Join p ''.'') = p"
proof -
  have "parts (strings_Join p ''.'') = p"
    unfolding parts_def using assms by (intro strings_Split_Join) auto
  with assms show ?thesis by (simp add: key_path_parts)
qed

section \<open>The interface\<close>

text \<open>The operations of \<open>IStorage\<close> the controller calls. \<open>ForEachChilds\<close> is represented by the list
  of calls it makes of its callback.\<close>

record 'db IStorage =
  iSet :: "'db \<Rightarrow> string \<Rightarrow> DynamicVar \<Rightarrow> 'db"
  iGet :: "'db \<Rightarrow> string \<Rightarrow> DynamicVar \<Rightarrow> DynamicVar"
  iGetChilds :: "'db \<Rightarrow> string \<Rightarrow> string list"
  iHasValue :: "'db \<Rightarrow> string \<Rightarrow> bool"
  iDeleteValue :: "'db \<Rightarrow> string \<Rightarrow> bool \<Rightarrow> 'db"
  iForEachChilds :: "'db \<Rightarrow> string \<Rightarrow> (string \<times> DynamicVar) list"

locale storage =
  fixes S :: "'db IStorage"
    and invar :: "'db \<Rightarrow> bool"
    and peek :: "'db \<Rightarrow> path \<Rightarrow> string"
    and has_node :: "'db \<Rightarrow> path \<Rightarrow> bool"
  assumes invar_set: "invar db \<Longrightarrow> invar (iSet S db n v)"
    and invar_delete: "invar db \<Longrightarrow> invar (iDeleteValue S db n casc)"
    and peek_set: "invar db \<Longrightarrow>
      peek (iSet S db n v) p = (if p = key_path n then GetString v else peek db p)"
    and node_set: "invar db \<Longrightarrow>
      has_node (iSet S db n v) p \<longleftrightarrow> has_node db p \<or> prefix p (key_path n)"
    and get_value: "invar db \<Longrightarrow>
      GetString (iGet S db n d) = (if has_node db (key_path n) then peek db (key_path n) else GetString d)"
    and peek_no_node: "invar db \<Longrightarrow> \<not> has_node db p \<Longrightarrow> peek db p = []"
    and has_value: "invar db \<Longrightarrow> iHasValue S db n \<longleftrightarrow> has_node db (key_path n)"
    and peek_delete: "invar db \<Longrightarrow>
      peek (iDeleteValue S db n casc) p =
        (if p = key_path n \<or> casc \<and> prefix (key_path n) p then [] else peek db p)"
    and node_delete: "invar db \<Longrightarrow>
      has_node (iDeleteValue S db n casc) p \<longleftrightarrow>
        has_node db p \<and>
        (if casc then \<not> prefix (key_path n) p
         else p \<noteq> key_path n \<or> (\<exists>k. has_node db (key_path n @ [k])))"
    and childs: "invar db \<Longrightarrow> n \<noteq> [] \<Longrightarrow>
      set (iGetChilds S db n) = {k. has_node db (key_path n @ [k])}"
    and childs_root: "invar db \<Longrightarrow> set (iGetChilds S db []) = {k. has_node db [k]}"
    and childs_distinct: "invar db \<Longrightarrow> distinct (iGetChilds S db n)"
    and node_prefix: "invar db \<Longrightarrow> has_node db q \<Longrightarrow> prefix p q \<Longrightarrow> has_node db p"
    and node_no_dot: "invar db \<Longrightarrow> has_node db p \<Longrightarrow> k \<in> set p \<Longrightarrow> CHR ''.'' \<notin> set k"
begin

lemmas storage_laws = invar_set invar_delete peek_set peek_delete

text \<open>Reading a number back: absent and malformed values both count as 0, so the default of 0 the
  clients pass makes no difference.\<close>

lemma get_int:
  "invar db \<Longrightarrow> GetInt64 (iGet S db n (NewDynamicVar_int 0)) = num_of (peek db (key_path n))"
  by (simp add: GetInt64_num_of get_value peek_no_node int64_range_def)

lemma get_string:
  "invar db \<Longrightarrow> GetString (iGet S db n (NewDynamicVar_string [])) = peek db (key_path n)"
  by (simp add: get_value peek_no_node)

text \<open>Insert then look up, at the same and at another key.\<close>

lemma get_set_same: "invar db \<Longrightarrow> GetString (iGet S (iSet S db n v) n d) = GetString v"
  by (simp add: get_value invar_set node_set peek_set)

lemma get_set_other:
  "invar db \<Longrightarrow> key_path m \<noteq> key_path n \<Longrightarrow>
   GetString (iGet S (iSet S db n v) m (NewDynamicVar_string [])) =
   GetString (iGet S db m (NewDynamicVar_string []))"
  by (simp add: get_string invar_set peek_set)

lemma set_set_peek:
  "invar db \<Longrightarrow> peek (iSet S (iSet S db n v) n w) = peek (iSet S db n w)"
  by (rule ext) (simp add: invar_set peek_set)

lemma set_commute_peek:
  "invar db \<Longrightarrow> key_path m \<noteq> key_path n \<Longrightarrow>
   peek (iSet S (iSet S db n v) m w) = peek (iSet S (iSet S db m w) n v)"
  by (rule ext) (simp add: invar_set peek_set)

lemma delete_then_get:
  "invar db \<Longrightarrow> GetString (iGet S (iDeleteValue S db n casc) n (NewDynamicVar_string [])) = []"
  by (simp add: get_string invar_delete peek_delete)

end

text \<open>A storage keeps its laws under every stronger invariant that its writing operations preserve.\<close>

lemma storage_strengthen:
  assumes "storage S invar peek has_node" and "\<And>db. iv db \<Longrightarrow> invar db"
    and "\<And>db n v. iv db \<Longrightarrow> iv (iSet S db n v)" and "\<And>db n casc. iv db \<Longrightarrow> iv (iDeleteValue S db n casc)"
  shows "storage S iv peek has_node"
proof
  fix db n v d p q k casc
  assume iv: "iv db"
  note inv = assms(2) [OF iv]
  show "iv (iSet S db n v)" "iv (iDeleteValue S db n casc)" using iv assms(3,4) by simp_all
  show "peek (iSet S db n v) p = (if p = key_path n then GetString v else peek db p)"
    by (rule storage.peek_set [OF assms(1) inv])
  show "has_node (iSet S db n v) p \<longleftrightarrow> has_node db p \<or> prefix p (key_path n)" by (rule storage.node_set [OF assms(1) inv])
  show "GetString (iGet S db n d) = (if has_node db (key_path n) then peek db (key_path n) else GetString d)"
    by (rule storage.get_value [OF assms(1) inv])
  show "\<not> has_node db p \<Longrightarrow> peek db p = []" by (rule storage.peek_no_node [OF assms(1) inv])
  show "iHasValue S db n \<longleftrightarrow> has_node db (key_path n)" by (rule storage.has_value [OF assms(1) inv])
  show "peek (iDeleteValue S db n casc) p = (if p = key_path n \<or> casc \<and> prefix (key_path n) p then [] else peek db p)"
    by (rule storage.peek_delete [OF assms(1) inv])
  show "has_node (iDeleteValue S db n casc) p \<longleftrightarrow> has_node db p \<and>
      (if casc then \<not> prefix (key_path n) p else p \<noteq> key_path n \<or> (\<exists>k. has_node db (key_path n @ [k])))"
    by (rule storage.node_delete [OF assms(1) inv])
  show "n \<noteq> [] \<Longrightarrow> set (iGetChilds S db n) = {k. has_node db (key_path n @ [k])}" by (rule storage.childs [OF assms(1) inv])
  show "set (iGetChilds S db []) = {k. has_node db [k]}" by (rule storage.childs_root [OF assms(1) inv])
  show "distinct (iGetChilds S db n)" by (rule storage.childs_distinct [OF assms(1) inv])
  show "has_node db q \<Longrightarrow> prefix p q \<Longrightarrow> has_node db p" by (rule storage.node_prefix [OF assms(1) inv])
  show "has_node db p \<Longrightarrow> k \<in> set p \<Longrightarrow> CHR ''.'' \<notin> set k" by (rule storage.node_no_dot [OF assms(1) inv])
qed

end
