(* ===== verification/RamCacheDB.thy ===== *)
theory RamCacheDB
  imports Storage
begin

text \<open>
  The in-memory tree storage of \<open>ramcachedb.go\<close>. A node is a datatype value whose children are an
  association list; a \<open>*ramNode\<close> is the path of map keys that leads to it from the root, so
  \<open>scrollTree\<close> returns the (possibly extended) tree and such a reference, and writes through the
  pointer are \<open>update_at\<close>. The \<open>parent\<close> pointer of a node is the path without its last key.
  Every method holds the database's mutex from its first to its last access, so each is one atomic
  function here.
\<close>

section \<open>Nodes\<close>

datatype ramNode =
  RamNode (imediateName: string) (node_value: DynamicVar) (childs: "(string \<times> ramNode) list")

definition new_node :: "string \<Rightarrow> ramNode" where
  "new_node n = RamNode n NewEmptyDynamicVar []"

fun put_child :: "string \<Rightarrow> ramNode \<Rightarrow> ramNode \<Rightarrow> ramNode" where
  "put_child k c (RamNode n v cs) = RamNode n v (AList.update k c cs)"

fun del_child :: "string \<Rightarrow> ramNode \<Rightarrow> ramNode" where
  "del_child k (RamNode n v cs) = RamNode n v (AList.delete k cs)"

fun set_value :: "DynamicVar \<Rightarrow> ramNode \<Rightarrow> ramNode" where
  "set_value v (RamNode n _ cs) = RamNode n v cs"

fun clear_childs :: "ramNode \<Rightarrow> ramNode" where
  "clear_childs (RamNode n v _) = RamNode n v []"

fun node_at :: "ramNode \<Rightarrow> path \<Rightarrow> ramNode option" where
  "node_at t [] = Some t"
| "node_at t (k # p) = (case map_of (childs t) k of None \<Rightarrow> None | Some c \<Rightarrow> node_at c p)"

fun update_at :: "(ramNode \<Rightarrow> ramNode) \<Rightarrow> path \<Rightarrow> ramNode \<Rightarrow> ramNode" where
  "update_at f [] t = f t"
| "update_at f (k # p) t =
     (case map_of (childs t) k of None \<Rightarrow> t | Some c \<Rightarrow> put_child k (update_at f p c) t)"

text \<open>\<open>scrollTree\<close>: walk the name from \<open>node\<close>, creating missing nodes unless \<open>readOnly\<close>.\<close>

function scrollTree :: "string \<Rightarrow> ramNode \<Rightarrow> bool \<Rightarrow> ramNode \<times> path option" where
  "scrollTree name node readOnly =
     (let (currName, remainingName) = split_key name;
          node1 = (if map_of (childs node) currName = None \<and> \<not> readOnly
                   then put_child currName (new_node currName) node else node)
      in case map_of (childs node1) currName of
           None \<Rightarrow> (node1, None)
         | Some child \<Rightarrow>
             if remainingName = [] then (node1, Some [currName])
             else let (child', ref) = scrollTree remainingName child readOnly
                  in (put_child currName child' node1, map_option (Cons currName) ref))"
  by pat_completeness auto
termination
  by (relation "measure (\<lambda>(name, _, _). length name)") (auto dest: split_key_shorter [OF sym])

declare scrollTree.simps [simp del]

section \<open>The database\<close>

record RamCacheDB =
  root :: ramNode
  pendingChanges :: bool
  dataDir :: string
  dumpIntervalMs :: int
  stopCh_closed :: bool

definition Set :: "RamCacheDB \<Rightarrow> string \<Rightarrow> DynamicVar \<Rightarrow> RamCacheDB" where
  "Set r name v =
     (let (t, item) = scrollTree name (root r) False
      in case item of
           None \<Rightarrow> r\<lparr>root := t\<rparr>
         | Some ref \<Rightarrow> r\<lparr>root := update_at (set_value v) ref t, pendingChanges := True\<rparr>)"

definition Get :: "RamCacheDB \<Rightarrow> string \<Rightarrow> DynamicVar \<Rightarrow> DynamicVar" where
  "Get r name defaultValue =
     (case snd (scrollTree name (root r) True) of
        None \<Rightarrow> defaultValue
      | Some ref \<Rightarrow> (case node_at (root r) ref of None \<Rightarrow> defaultValue | Some item \<Rightarrow> node_value item))"

definition GetChilds :: "RamCacheDB \<Rightarrow> string \<Rightarrow> string list" where
  "GetChilds r parentName =
     (if parentName = [] then map fst (childs (root r))
      else case snd (scrollTree parentName (root r) True) of
             None \<Rightarrow> []
           | Some ref \<Rightarrow> (case node_at (root r) ref of None \<Rightarrow> [] | Some item \<Rightarrow> map fst (childs item)))"

definition HasValue :: "RamCacheDB \<Rightarrow> string \<Rightarrow> bool" where
  "HasValue r name = (snd (scrollTree name (root r) True) \<noteq> None)"

text \<open>\<open>DeleteValue\<close>: clear the value, drop the children when asked to, and unlink the node from its
  parent when it has no children left.\<close>

definition DeleteValue :: "RamCacheDB \<Rightarrow> string \<Rightarrow> bool \<Rightarrow> RamCacheDB" where
  "DeleteValue r name deleteChildsInACascade =
     (case snd (scrollTree name (root r) True) of
        None \<Rightarrow> r
      | Some ref \<Rightarrow>
          (let t1 = update_at (set_value NewEmptyDynamicVar) ref (root r);
               t2 = (if deleteChildsInACascade then update_at clear_childs ref t1 else t1);
               t3 = (case node_at t2 ref of
                       None \<Rightarrow> t2
                     | Some item \<Rightarrow>
                         if childs item = [] \<and> ref \<noteq> []
                         then update_at (del_child (imediateName item)) (butlast ref) t2
                         else t2)
           in r\<lparr>root := t3, pendingChanges := True\<rparr>))"

text \<open>\<open>ForEachChilds\<close>: the calls made of the callback, full child name and value.\<close>

definition child_tasks :: "string \<Rightarrow> ramNode \<Rightarrow> (string \<times> DynamicVar) list" where
  "child_tasks parentName item =
     map (\<lambda>(k, child). (if parentName \<noteq> [] then parentName @ ''.'' @ k else k, node_value child)) (childs item)"

definition ForEachChilds :: "RamCacheDB \<Rightarrow> string \<Rightarrow> (string \<times> DynamicVar) list" where
  "ForEachChilds r parentName =
     (case snd (scrollTree parentName (root r) True) of
        None \<Rightarrow> []
      | Some ref \<Rightarrow> (case node_at (root r) ref of None \<Rightarrow> [] | Some item \<Rightarrow> child_tasks parentName item))"

definition ramStorage :: "RamCacheDB IStorage" where
  "ramStorage =
     \<lparr>iSet = Set, iGet = Get, iGetChilds = GetChilds, iHasValue = HasValue,
      iDeleteValue = DeleteValue, iForEachChilds = ForEachChilds\<rparr>"

section \<open>The tree seen as a map from paths\<close>

definition value_at :: "ramNode \<Rightarrow> path \<Rightarrow> DynamicVar option" where
  "value_at t p = map_option node_value (node_at t p)"

fun ensure_path :: "path \<Rightarrow> ramNode \<Rightarrow> ramNode" where
  "ensure_path [] t = t"
| "ensure_path (k # p) t =
     put_child k (ensure_path p (case map_of (childs t) k of None \<Rightarrow> new_node k | Some c \<Rightarrow> c)) t"

lemma put_child_simps [simp]:
  "childs (put_child k c t) = AList.update k c (childs t)"
  "node_value (put_child k c t) = node_value t"
  "imediateName (put_child k c t) = imediateName t"
  by (cases t; simp)+

lemma del_child_simps [simp]:
  "childs (del_child k t) = AList.delete k (childs t)"
  "node_value (del_child k t) = node_value t"
  "imediateName (del_child k t) = imediateName t"
  by (cases t; simp)+

lemma set_value_simps [simp]:
  "childs (set_value v t) = childs t" "node_value (set_value v t) = v"
  "imediateName (set_value v t) = imediateName t"
  by (cases t; simp)+

lemma clear_childs_simps [simp]:
  "childs (clear_childs t) = []" "node_value (clear_childs t) = node_value t"
  "imediateName (clear_childs t) = imediateName t"
  by (cases t; simp)+

lemma new_node_simps [simp]:
  "childs (new_node n) = []" "node_value (new_node n) = NewEmptyDynamicVar"
  "imediateName (new_node n) = n"
  by (simp_all add: new_node_def)

lemma put_child_put_child [simp]: "put_child k c (put_child k c' t) = put_child k c t"
  by (cases t) (simp add: update_last)

lemma put_child_idem [simp]: "map_of (childs t) k = Some c \<Longrightarrow> put_child k c t = t"
  by (cases t) simp

lemma value_at_Nil [simp]: "value_at t [] = Some (node_value t)"
  by (simp add: value_at_def)

lemma value_at_Cons: "value_at t (k # p) = (case map_of (childs t) k of None \<Rightarrow> None | Some c \<Rightarrow> value_at c p)"
  by (simp add: value_at_def split: option.splits)

lemma value_at_put_child:
  "value_at (put_child k c t) (j # p) = (if j = k then value_at c p else value_at t (j # p))"
  by (simp add: value_at_Cons)

lemma node_at_append:
  "node_at t (p @ q) = (case node_at t p of None \<Rightarrow> None | Some n \<Rightarrow> node_at n q)"
  by (induction t p rule: node_at.induct) (auto split: option.splits)

lemma value_at_append:
  "value_at t (p @ q) = (case node_at t p of None \<Rightarrow> None | Some n \<Rightarrow> value_at n q)"
  by (simp add: value_at_def node_at_append split: option.splits)

lemma value_at_prefix: "value_at t q \<noteq> None \<Longrightarrow> prefix p q \<Longrightarrow> value_at t p \<noteq> None"
  by (auto simp: prefix_def value_at_def node_at_append split: option.splits)

lemma value_at_below: "value_at t q = None \<Longrightarrow> prefix q p \<Longrightarrow> value_at t p = None"
  using value_at_prefix by blast

lemma value_at_leaf:
  assumes "\<forall>k. value_at t (q @ [k]) = None" "prefix q p" "p \<noteq> q"
  shows "value_at t p = None"
proof -
  from assms(2,3) obtain k rest where "p = q @ k # rest" by (metis append_Nil2 neq_Nil_conv prefix_def)
  then have "prefix (q @ [k]) p" by (simp add: prefix_def)
  with assms(1) show ?thesis by (blast intro: value_at_below)
qed

lemma value_at_ensure:
  "value_at (ensure_path q t) p =
     (case value_at t p of Some v \<Rightarrow> Some v | None \<Rightarrow> if prefix p q then Some NewEmptyDynamicVar else None)"
proof (induction q t arbitrary: p rule: ensure_path.induct)
  case (1 t)
  then show ?case by (cases p) (auto split: option.splits)
next
  case (2 k q t)
  have new: "value_at (new_node k) p' = (if p' = [] then Some NewEmptyDynamicVar else None)" for p'
    by (cases p') (auto simp: value_at_Cons)
  show ?case
  proof (cases p)
    case (Cons j p')
    show ?thesis
      using "2.IH" [of p'] Cons
      by (cases "map_of (childs t) k") (auto simp: value_at_put_child value_at_Cons new split: option.splits)
  qed simp
qed

lemma value_at_update_at:
  "node_at t q = Some n \<Longrightarrow>
   value_at (update_at f q t) p =
     (if prefix q p then value_at (f n) (drop (length q) p) else value_at t p)"
proof (induction f q t arbitrary: p rule: update_at.induct)
  case (2 f k q t)
  then obtain c where c: "map_of (childs t) k = Some c" "node_at c q = Some n"
    by (auto split: option.splits)
  show ?case
  proof (cases p)
    case Nil
    then show ?thesis using c by simp
  next
    case (Cons j p')
    then show ?thesis
      using "2.IH" [OF c, of p'] c(1) by (auto simp: value_at_put_child value_at_Cons)
  qed
qed simp

lemma node_at_update_at_same: "node_at t q = Some n \<Longrightarrow> node_at (update_at f q t) q = Some (f n)"
  by (induction f q t rule: update_at.induct) (auto split: option.splits)

lemma childs_value_at: "node_at t p = Some n \<Longrightarrow> value_at t (p @ [k]) \<noteq> None \<longleftrightarrow> k \<in> set (map fst (childs n))"
  unfolding in_keys_map_of by (auto simp: value_at_append value_at_Cons split: option.splits)

lemma scrollTree_readOnly:
  "scrollTree name t True = (t, if value_at t (key_path name) = None then None else Some (key_path name))"
proof (induction name t True rule: scrollTree.induct)
  case (1 name t)
  obtain a b where ab: "split_key name = (a, b)" by fastforce
  show ?case
  proof (cases "map_of (childs t) a")
    case None
    then show ?thesis using ab
      by (simp add: scrollTree.simps [of name t] key_path.simps [of name] value_at_Cons)
  next
    case (Some c)
    show ?thesis
    proof (cases "b = []")
      case True
      then show ?thesis using ab Some
        by (simp add: scrollTree.simps [of name t] key_path.simps [of name] value_at_Cons)
    next
      case False
      have IH: "scrollTree b c True = (c, if value_at c (key_path b) = None then None else Some (key_path b))"
        using "1" [OF ab [symmetric] refl refl] ab Some False by simp
      with ab Some False show ?thesis
        by (simp add: scrollTree.simps [of name t] key_path.simps [of name] value_at_Cons)
    qed
  qed
qed

lemma scrollTree_create:
  "scrollTree name t False = (ensure_path (key_path name) t, Some (key_path name))"
proof (induction name t False rule: scrollTree.induct)
  case (1 name t)
  obtain a b where ab: "split_key name = (a, b)" by fastforce
  let ?c = "case map_of (childs t) a of None \<Rightarrow> new_node a | Some c \<Rightarrow> c"
  let ?t = "if map_of (childs t) a = None \<and> \<not> False then put_child a (new_node a) t else t"
  have c: "map_of (childs ?t) a = Some ?c" by (auto split: option.splits)
  show ?case
  proof (cases "b = []")
    case True
    then show ?thesis using ab
      by (auto simp: scrollTree.simps [of name t] key_path.simps [of name] split: option.splits)
  next
    case False
    have IH: "scrollTree b ?c False = (ensure_path (key_path b) ?c, Some (key_path b))"
      using "1" [OF ab [symmetric] refl refl c False] by simp
    from ab False IH show ?thesis
      by (auto simp: scrollTree.simps [of name t] key_path.simps [of name] split: option.splits)
  qed
qed

section \<open>Well-formed trees\<close>

lemma size_child [termination_simp]:
  "(k, c) \<in> set cs \<Longrightarrow> size c < Suc (size_list (size_prod (\<lambda>_. 0) size) cs)"
  by (induction cs) auto

text \<open>Every child is stored under its own name, names hold no dot, and no name occurs twice.\<close>

fun wf_node :: "ramNode \<Rightarrow> bool" where
  "wf_node (RamNode n v cs) \<longleftrightarrow>
     distinct (map fst cs) \<and>
     (\<forall>(k, c) \<in> set cs. imediateName c = k \<and> CHR ''.'' \<notin> set k \<and> wf_node c)"

lemma wf_node_childs: "wf_node t \<Longrightarrow> distinct (map fst (childs t))"
  by (cases t) simp

lemma wf_node_child:
  "wf_node t \<Longrightarrow> map_of (childs t) k = Some c \<Longrightarrow> wf_node c \<and> imediateName c = k \<and> CHR ''.'' \<notin> set k"
  by (cases t) (auto dest!: map_of_SomeD)

lemma wf_new_node [simp]: "wf_node (new_node k)"
  by (simp add: new_node_def)

lemma wf_node_iff:
  "wf_node t \<longleftrightarrow> distinct (map fst (childs t)) \<and>
     (\<forall>x \<in> set (childs t). imediateName (snd x) = fst x \<and> CHR ''.'' \<notin> set (fst x) \<and> wf_node (snd x))"
  by (cases t) (auto split: prod.splits)

lemma wf_put_child:
  assumes "wf_node t" "wf_node c" "imediateName c = k" "CHR ''.'' \<notin> set k"
  shows "wf_node (put_child k c t)"
proof -
  have "distinct (map fst (AList.update k c (childs t)))"
    using wf_node_childs [OF assms(1)] by (rule distinct_update)
  moreover have "x = (k, c) \<or> x \<in> set (childs t)" if "x \<in> set (AList.update k c (childs t))" for x
    using that set_alist_update_subset [of k c "childs t"] by blast
  ultimately show ?thesis
    using assms wf_node_iff [of t] wf_node_iff [of "put_child k c t"] by fastforce
qed

lemma wf_ensure_path:
  "wf_node t \<Longrightarrow> \<forall>k \<in> set q. CHR ''.'' \<notin> set k \<Longrightarrow>
   wf_node (ensure_path q t) \<and> imediateName (ensure_path q t) = imediateName t"
proof (induction q t rule: ensure_path.induct)
  case (2 k q t)
  let ?c = "case map_of (childs t) k of None \<Rightarrow> new_node k | Some c \<Rightarrow> c"
  have c: "wf_node ?c" "imediateName ?c = k"
    using wf_node_child [OF "2.prems"(1)] by (auto split: option.splits)
  with "2" show ?case by (auto intro!: wf_put_child)
qed simp

lemma wf_update_at:
  assumes "\<And>n. wf_node n \<Longrightarrow> wf_node (f n) \<and> imediateName (f n) = imediateName n"
  shows "wf_node t \<Longrightarrow> wf_node (update_at f q t) \<and> imediateName (update_at f q t) = imediateName t"
proof (induction q arbitrary: t)
  case (Cons k q)
  show ?case
  proof (cases "map_of (childs t) k")
    case (Some c)
    with Cons wf_node_child [of t k c] show ?thesis by (auto intro!: wf_put_child)
  qed (use Cons.prems in auto)
qed (use assms in simp)

lemma wf_set_value: "wf_node n \<Longrightarrow> wf_node (set_value v n)"
  by (cases n) simp

lemma wf_clear_childs: "wf_node (clear_childs n)"
  by (cases n) simp

lemma wf_del_child: "wf_node n \<Longrightarrow> wf_node (del_child k n)"
  using set_alist_delete_subset [of k "childs n"]
  by (auto simp: wf_node_iff [of n] wf_node_iff [of "del_child k n"] distinct_delete)

lemma wf_node_at: "wf_node t \<Longrightarrow> node_at t p = Some n \<Longrightarrow> wf_node n"
  by (induction t p rule: node_at.induct) (auto dest: wf_node_child split: option.splits)

lemma imediateName_node_at:
  "wf_node t \<Longrightarrow> node_at t (p @ [k]) = Some n \<Longrightarrow> imediateName n = k"
  by (auto simp: node_at_append dest: wf_node_at wf_node_child split: option.splits)

lemma value_at_no_dot: "wf_node t \<Longrightarrow> value_at t p \<noteq> None \<Longrightarrow> k \<in> set p \<Longrightarrow> CHR ''.'' \<notin> set k"
proof (induction p arbitrary: t)
  case (Cons j p)
  then show ?case by (auto simp: value_at_Cons dest: wf_node_child split: option.splits)
qed simp

section \<open>The storage laws\<close>

definition db_wf :: "RamCacheDB \<Rightarrow> bool" where
  "db_wf r = wf_node (root r)"

definition db_peek :: "RamCacheDB \<Rightarrow> path \<Rightarrow> string" where
  "db_peek r p = (case value_at (root r) p of None \<Rightarrow> [] | Some v \<Rightarrow> GetString v)"

definition db_node :: "RamCacheDB \<Rightarrow> path \<Rightarrow> bool" where
  "db_node r p = (value_at (root r) p \<noteq> None)"

lemma node_at_ensure: "\<exists>n. node_at (ensure_path p t) p = Some n"
proof -
  have "value_at (ensure_path p t) p \<noteq> None" by (simp add: value_at_ensure split: option.splits)
  then show ?thesis by (auto simp: value_at_def)
qed

lemma value_at_set_value_drop: "value_at (set_value v n) q = (if q = [] then Some v else value_at n q)"
  by (cases q) (auto simp: value_at_Cons)

text \<open>\<open>Set\<close> on the map view.\<close>

lemma value_at_Set:
  "value_at (root (Set r n v)) p =
     (if p = key_path n then Some v
      else case value_at (root r) p of
             Some w \<Rightarrow> Some w
           | None \<Rightarrow> if prefix p (key_path n) then Some NewEmptyDynamicVar else None)"
proof -
  let ?q = "key_path n" and ?t = "ensure_path (key_path n) (root r)"
  obtain m where m: "node_at ?t ?q = Some m" using node_at_ensure by blast
  have drop: "prefix ?q p \<Longrightarrow> value_at m (drop (length ?q) p) = value_at ?t p"
    using m by (auto simp: prefix_def value_at_append)
  have eq: "prefix ?q p \<Longrightarrow> drop (length ?q) p = [] \<longleftrightarrow> p = ?q"
    by (auto simp: prefix_def)
  show ?thesis
    using drop eq m
    by (auto simp: Set_def scrollTree_create value_at_update_at value_at_set_value_drop value_at_ensure
        split: option.splits)
qed

text \<open>\<open>DeleteValue\<close> on the map view.\<close>

lemma value_at_clear_childs: "value_at (clear_childs n) q = (if q = [] then Some (node_value n) else None)"
  by (cases q) (auto simp: value_at_Cons)

lemma value_at_del_child: "value_at (del_child k n) (j # q) = (if j = k then None else value_at n (j # q))"
  by (simp add: value_at_Cons)

lemma value_at_unlink:
  assumes n: "node_at t (q @ [k]) = Some n"
  shows "value_at (update_at (del_child k) q t) p = (if prefix (q @ [k]) p then None else value_at t p)"
proof -
  from n obtain par where par: "node_at t q = Some par" by (auto simp: node_at_append split: option.splits)
  show ?thesis
  proof (cases "prefix q p")
    case True
    then obtain r where r: "p = q @ r" by (auto simp: prefix_def)
    show ?thesis
      using par r node_at_update_at_same [OF par, of "del_child k"]
      by (cases r) (auto simp: value_at_del_child value_at_append value_at_def [of _ q])
  next
    case False
    then have "\<not> prefix (q @ [k]) p" using append_prefixD by blast
    with False par show ?thesis by (simp add: value_at_update_at)
  qed
qed

lemma value_at_write:
  assumes "node_at t q = Some n"
  shows "value_at (update_at (set_value v) q t) p = (if p = q then Some v else value_at t p)"
proof (cases "prefix q p")
  case True
  then obtain r where "p = q @ r" by (auto simp: prefix_def)
  with assms show ?thesis
    by (auto simp: value_at_append node_at_update_at_same value_at_set_value_drop)
qed (use assms in \<open>auto simp: value_at_update_at\<close>)

lemma value_at_cut:
  assumes "node_at t q = Some n"
  shows "value_at (update_at clear_childs q t) p = (if prefix q p \<and> p \<noteq> q then None else value_at t p)"
proof (cases "prefix q p")
  case True
  then obtain r where "p = q @ r" by (auto simp: prefix_def)
  with assms show ?thesis
    by (auto simp: value_at_append node_at_update_at_same value_at_clear_childs value_at_def [of t q])
qed (use assms in \<open>auto simp: value_at_update_at\<close>)

lemma childs_empty_iff:
  assumes "node_at t q = Some n"
  shows "childs n = [] \<longleftrightarrow> (\<forall>k. value_at t (q @ [k]) = None)"
  using childs_value_at [OF assms] by (metis all_not_in_conv list.map_disc_iff set_empty2)

lemma value_at_DeleteValue:
  assumes wf: "db_wf r"
  shows "value_at (root (DeleteValue r n casc)) p =
    (if value_at (root r) (key_path n) = None then value_at (root r) p
     else if casc \<or> (\<forall>k. value_at (root r) (key_path n @ [k]) = None)
       then (if prefix (key_path n) p then None else value_at (root r) p)
     else if p = key_path n then Some NewEmptyDynamicVar else value_at (root r) p)"
proof (cases "value_at (root r) (key_path n)")
  case None
  then show ?thesis by (simp add: DeleteValue_def scrollTree_readOnly)
next
  case (Some v)
  define q where "q = key_path n"
  define t1 where "t1 = update_at (set_value NewEmptyDynamicVar) q (root r)"
  define t2 where "t2 = (if casc then update_at clear_childs q t1 else t1)"
  have qk: "q = butlast q @ [last q]" by (simp add: q_def)
  from Some obtain item where item: "node_at (root r) q = Some item" by (auto simp: value_at_def q_def)
  then have t1: "node_at t1 q = Some (set_value NewEmptyDynamicVar item)"
    by (simp add: t1_def node_at_update_at_same)
  then obtain it2 where it2: "node_at t2 q = Some it2" "imediateName it2 = imediateName item"
    "childs it2 = [] \<longleftrightarrow> casc \<or> childs item = []"
    by (cases casc) (auto simp: t2_def node_at_update_at_same)
  have name: "imediateName it2 = last q"
    using imediateName_node_at [of "root r" "butlast q" "last q" item] wf item it2(2) qk
    by (simp add: db_wf_def)
  have v2: "value_at t2 p = (if p = q then Some NewEmptyDynamicVar
      else if casc \<and> prefix q p then None else value_at (root r) p)"
    using value_at_write [OF item] value_at_cut [OF t1] by (auto simp: t2_def t1_def)
  have unlink: "value_at (update_at (del_child (last q)) (butlast q) t2) p =
      (if prefix q p then None else value_at t2 p)"
    using value_at_unlink [of t2 "butlast q" "last q"] it2(1) qk by simp
  have res: "root (DeleteValue r n casc) =
      (if childs it2 = [] then update_at (del_child (last q)) (butlast q) t2 else t2)"
    using Some it2(1) name key_path_neq_Nil [of n]
    by (simp add: DeleteValue_def scrollTree_readOnly Let_def t1_def [symmetric] q_def [symmetric]
        t2_def [symmetric])
  have empty: "childs item = [] \<longleftrightarrow> (\<forall>k. value_at (root r) (q @ [k]) = None)"
    by (rule childs_empty_iff [OF item])
  show ?thesis
    unfolding q_def [symmetric] res using Some it2(3) unlink v2 empty by (auto simp: q_def [symmetric])
qed

lemma db_wf_Set: "db_wf r \<Longrightarrow> db_wf (Set r n v)"
  using wf_ensure_path [of "root r" "key_path n"] wf_update_at [of "set_value v"] key_path_elem_no_dot
  by (auto simp: db_wf_def Set_def scrollTree_create wf_set_value)

lemma db_wf_DeleteValue: "db_wf r \<Longrightarrow> db_wf (DeleteValue r n casc)"
  by (auto simp: db_wf_def DeleteValue_def scrollTree_readOnly Let_def wf_set_value wf_clear_childs
      wf_del_child wf_update_at split: option.splits)

lemma ramStorage_simps [simp]:
  "iSet ramStorage = Set" "iGet ramStorage = Get" "iGetChilds ramStorage = GetChilds"
  "iHasValue ramStorage = HasValue" "iDeleteValue ramStorage = DeleteValue"
  "iForEachChilds ramStorage = ForEachChilds"
  by (simp_all add: ramStorage_def)

lemma Get_value_at: "Get r n d = (case value_at (root r) (key_path n) of None \<Rightarrow> d | Some v \<Rightarrow> v)"
  by (auto simp: Get_def scrollTree_readOnly value_at_def split: option.splits)

lemma GetChilds_set:
  assumes "n \<noteq> []"
  shows "set (GetChilds r n) = {k. value_at (root r) (key_path n @ [k]) \<noteq> None}"
proof (cases "node_at (root r) (key_path n)")
  case None
  then have "value_at (root r) (key_path n @ [k]) = None" for k by (simp add: value_at_append)
  with None assms show ?thesis by (simp add: GetChilds_def scrollTree_readOnly value_at_def)
next
  case (Some item)
  then show ?thesis
    using assms childs_value_at [OF Some]
    by (auto simp: GetChilds_def scrollTree_readOnly value_at_def [of _ "key_path n"])
qed

lemma GetChilds_root: "set (GetChilds r []) = {k. value_at (root r) [k] \<noteq> None}"
  using childs_value_at [of "root r" "[]"] by (auto simp: GetChilds_def)

lemma GetChilds_distinct: "db_wf r \<Longrightarrow> distinct (GetChilds r n)"
  by (auto simp: GetChilds_def scrollTree_readOnly db_wf_def split: option.splits
      intro: wf_node_childs wf_node_at)

lemma db_peek_DeleteValue:
  "db_wf r \<Longrightarrow> db_peek (DeleteValue r n casc) p =
     (if p = key_path n \<or> casc \<and> prefix (key_path n) p then [] else db_peek r p)"
  using value_at_DeleteValue [of r n casc p] value_at_below [of "root r" "key_path n" p]
    value_at_leaf [of "root r" "key_path n" p]
  by (auto simp: db_peek_def split: option.splits if_splits)

interpretation ram: storage ramStorage db_wf db_peek db_node
proof unfold_locales
  fix r :: RamCacheDB and n v d p q k casc
  assume wf: "db_wf r"
  show "db_wf (iSet ramStorage r n v)" using wf by (simp add: db_wf_Set)
  show "db_wf (iDeleteValue ramStorage r n casc)" using wf by (simp add: db_wf_DeleteValue)
  show "db_peek (iSet ramStorage r n v) p = (if p = key_path n then GetString v else db_peek r p)"
    by (auto simp: db_peek_def value_at_Set split: option.splits)
  show "db_node (iSet ramStorage r n v) p \<longleftrightarrow> db_node r p \<or> prefix p (key_path n)"
    by (auto simp: db_node_def value_at_Set split: option.splits)
  show "GetString (iGet ramStorage r n d) =
      (if db_node r (key_path n) then db_peek r (key_path n) else GetString d)"
    by (auto simp: Get_value_at db_node_def db_peek_def split: option.splits)
  show "\<not> db_node r p \<Longrightarrow> db_peek r p = []" by (simp add: db_node_def db_peek_def)
  show "iHasValue ramStorage r n \<longleftrightarrow> db_node r (key_path n)"
    by (simp add: HasValue_def scrollTree_readOnly db_node_def)
  show "db_peek (iDeleteValue ramStorage r n casc) p =
      (if p = key_path n \<or> casc \<and> prefix (key_path n) p then [] else db_peek r p)"
    using db_peek_DeleteValue [OF wf] by simp
  show "db_node (iDeleteValue ramStorage r n casc) p \<longleftrightarrow> db_node r p \<and>
      (if casc then \<not> prefix (key_path n) p
       else p \<noteq> key_path n \<or> (\<exists>k. db_node r (key_path n @ [k])))"
    using value_at_DeleteValue [OF wf, of n casc p] value_at_below [of "root r" "key_path n" p]
      value_at_leaf [of "root r" "key_path n" p]
    by (auto simp: db_node_def)
  show "n \<noteq> [] \<Longrightarrow> set (iGetChilds ramStorage r n) = {k. db_node r (key_path n @ [k])}"
    by (simp add: GetChilds_set db_node_def)
  show "set (iGetChilds ramStorage r []) = {k. db_node r [k]}"
    by (simp add: GetChilds_root db_node_def)
  show "distinct (iGetChilds ramStorage r n)" using wf by (simp add: GetChilds_distinct)
  show "db_node r q \<Longrightarrow> prefix p q \<Longrightarrow> db_node r p"
    using value_at_prefix [of "root r"] by (auto simp: db_node_def)
  show "db_node r p \<Longrightarrow> k \<in> set p \<Longrightarrow> CHR ''.'' \<notin> set k"
    using value_at_no_dot wf by (auto simp: db_node_def db_wf_def)
qed

lemma key_path_trailing_dot: "last (parts n) \<noteq> [] \<Longrightarrow> key_path (n @ ''.'') = key_path n"
  unfolding key_path_final_dot by (simp add: key_path_parts)

lemma ForEachChilds_set:
  assumes "db_wf r"
  shows "set (ForEachChilds r n) =
    {(if n \<noteq> [] then n @ ''.'' @ k else k, v) | k v. value_at (root r) (key_path n @ [k]) = Some v}"
proof (cases "node_at (root r) (key_path n)")
  case None
  then show ?thesis by (simp add: ForEachChilds_def scrollTree_readOnly value_at_def node_at_append)
next
  case (Some item)
  have "distinct (map fst (childs item))"
    using assms wf_node_at [OF _ Some] wf_node_childs by (auto simp: db_wf_def)
  then have in_childs: "(k, c) \<in> set (childs item) \<longleftrightarrow> map_of (childs item) k = Some c" for k c by simp
  have "value_at (root r) (key_path n @ [k]) = Some v \<longleftrightarrow> (\<exists>c. (k, c) \<in> set (childs item) \<and> v = node_value c)" for k v
    unfolding in_childs using Some by (auto simp: value_at_append value_at_Cons split: option.splits)
  then show ?thesis
    using Some
    by (auto simp: ForEachChilds_def scrollTree_readOnly value_at_def [of _ "key_path n"] child_tasks_def image_iff
        split: prod.splits) force+
qed

section \<open>Properties\<close>

text \<open>C2. Functional refinement of \<open>Set\<close>: on the map from paths to values, \<open>Set\<close> stores the value at the
  key's path, adds empty nodes for the ancestors that were missing, changes nothing else, keeps the tree
  well formed and marks the database as changed.\<close>

theorem Set_refines:
  assumes "db_wf r"
  shows "db_wf (Set r n v) \<and> pendingChanges (Set r n v) \<and>
    value_at (root (Set r n v)) =
      (\<lambda>p. if p = key_path n then Some v
           else if value_at (root r) p = None \<and> prefix p (key_path n) then Some NewEmptyDynamicVar
           else value_at (root r) p)"
proof -
  have "pendingChanges (Set r n v)" by (simp add: Set_def scrollTree_create)
  then show ?thesis
    using assms by (auto simp: db_wf_Set value_at_Set fun_eq_iff split: option.splits)
qed

definition one_var_db :: RamCacheDB where
  "one_var_db = \<lparr>root = RamNode [] NewEmptyDynamicVar
      [(''vars'', RamNode ''vars'' NewEmptyDynamicVar
          [(''a'', RamNode ''a'' (NewDynamicVar_string ''1'') [])])],
    pendingChanges = False, dataDir = [], dumpIntervalMs = 1000, stopCh_closed = False\<rparr>"

lemma one_var_db_wf [simp]: "db_wf one_var_db"
  by (simp add: one_var_db_def db_wf_def)

theorem Set_refines_witness:
  "db_wf one_var_db \<and> value_at (root (Set one_var_db ''vars.b'' (NewDynamicVar_string ''2''))) [''vars'', ''b''] =
    Some (NewDynamicVar_string ''2'')"
  using Set_refines [OF one_var_db_wf, of "''vars.b''" "NewDynamicVar_string ''2''"]
  by (simp add: key_path.simps split_key_def)

text \<open>C3. Functional refinement of \<open>DeleteValue\<close>: nothing happens to a missing key; otherwise the key's
  node disappears with everything below it when the deletion cascades or the node has no children, and
  only loses its value when it has children and the deletion does not cascade.\<close>

theorem DeleteValue_refines:
  assumes "db_wf r"
  shows "db_wf (DeleteValue r n casc) \<and>
    value_at (root (DeleteValue r n casc)) =
      (\<lambda>p. if value_at (root r) (key_path n) = None then value_at (root r) p
           else if casc \<or> (\<forall>k. value_at (root r) (key_path n @ [k]) = None)
             then (if prefix (key_path n) p then None else value_at (root r) p)
           else if p = key_path n then Some NewEmptyDynamicVar else value_at (root r) p)"
  using db_wf_DeleteValue [OF assms] value_at_DeleteValue [OF assms] by blast

theorem DeleteValue_refines_witness:
  "db_wf one_var_db \<and> value_at (root (DeleteValue one_var_db ''vars'' True)) [''vars'', ''a''] = None"
proof -
  have "value_at (root one_var_db) [''vars''] \<noteq> None" by (simp add: one_var_db_def value_at_def)
  then show ?thesis
    using DeleteValue_refines [OF one_var_db_wf, of "''vars''" True]
    by (auto simp: key_path_no_dot)
qed

text \<open>\<open>GetChilds\<close> returns the immediate names of the children, each once: exactly the names \<open>k\<close> for
  which the key extended by \<open>k\<close> has a node; the empty parent name stands for the root.\<close>

theorem GetChilds_immediate_names:
  assumes "db_wf r"
  shows "distinct (GetChilds r n) \<and>
    set (GetChilds r n) =
      {k. HasValue r (if n = [] then k else strings_Join (key_path n @ [k]) ''.'') \<and> k \<noteq> [] \<and> CHR ''.'' \<notin> set k}
      \<union> {k. k = [] \<and> value_at (root r) (if n = [] then [k] else key_path n @ [k]) \<noteq> None}"
proof -
  have join: "key_path (strings_Join (key_path n @ [k]) ''.'') = key_path n @ [k]"
    if "k \<noteq> []" "CHR ''.'' \<notin> set k" for k
    using that key_path_elem_no_dot [of _ n] by (intro key_path_Join) auto
  have dot: "CHR ''.'' \<notin> set k" if "value_at (root r) (p @ [k]) \<noteq> None" for p k
    using value_at_no_dot [of "root r" "p @ [k]" k] that assms by (auto simp: db_wf_def)
  show ?thesis
  proof (cases "n = []")
    case True
    then show ?thesis
      using GetChilds_distinct [OF assms] dot [of "[]"]
      by (auto simp: GetChilds_root HasValue_def scrollTree_readOnly path_simps split: if_splits)
  next
    case False
    then show ?thesis
      using GetChilds_distinct [OF assms] dot [of "key_path n"] join
      by (auto simp: GetChilds_set HasValue_def scrollTree_readOnly split: if_splits)
  qed
qed

theorem GetChilds_immediate_names_witness:
  "db_wf one_var_db \<and> ''a'' \<in> set (GetChilds one_var_db ''vars'')"
proof -
  have "HasValue one_var_db (strings_Join (key_path ''vars'' @ [''a'']) ''.'')" by code_simp
  then show ?thesis using GetChilds_immediate_names [OF one_var_db_wf, of "''vars''"] by simp
qed

text \<open>A final dot in a key is ignored: storing at, reading from, testing and deleting \<open>n.\<close> are the
  same as at \<open>n\<close> for every name \<open>n\<close> that does not itself end in a dot.\<close>

theorem trailing_dot_alias:
  assumes "last (parts n) \<noteq> []"
  shows "Set r (n @ ''.'') v = Set r n v \<and> Get r (n @ ''.'') d = Get r n d \<and>
    HasValue r (n @ ''.'') = HasValue r n \<and> DeleteValue r (n @ ''.'') casc = DeleteValue r n casc"
  using key_path_trailing_dot [OF assms]
  by (simp add: Set_def Get_def HasValue_def DeleteValue_def scrollTree_create scrollTree_readOnly)

theorem trailing_dot_alias_witness: "HasValue one_var_db ''vars.a.'' = HasValue one_var_db ''vars.a''"
  using trailing_dot_alias [of "''vars.a''"] by (simp add: parts_def)

text \<open>\<open>ForEachChilds\<close> visits exactly the immediate children with their full names, but for the empty
  parent name it visits the children of the key with the empty component, not the root's: on a tree
  without such a key it visits nothing, although \<open>GetChilds\<close> lists the root's children.\<close>

theorem ForEachChilds_visits:
  assumes "db_wf r"
  shows "set (ForEachChilds r n) =
      {(if n \<noteq> [] then n @ ''.'' @ k else k, v) | k v. value_at (root r) (key_path n @ [k]) = Some v} \<and>
    (value_at (root r) [[]] = None \<longrightarrow> ForEachChilds r [] = [] \<and> GetChilds r [] = map fst (childs (root r)))"
  using ForEachChilds_set [OF assms]
  by (auto simp: ForEachChilds_def scrollTree_readOnly GetChilds_def path_simps)

theorem ForEachChilds_visits_witness:
  "ForEachChilds one_var_db [] = [] \<and> GetChilds one_var_db [] = [''vars'']"
  using ForEachChilds_visits [OF one_var_db_wf, of "[]"] by (simp add: one_var_db_def value_at_def)

end
