(* ===== verification/Persistence.thy ===== *)
theory Persistence
  imports RamCacheDB
begin

text \<open>
  Persistence of \<open>ramcachedb.go\<close>: the dump file, reading it back at start-up, and the background
  dumper. The operating system is a parameter: whether the directory can be made, what writing the
  file does, and what reading it returns.
\<close>

section \<open>Dumping\<close>

abbreviation nl :: char where "nl \<equiv> CHR 0x0A"
abbreviation eq_sign :: char where "eq_sign \<equiv> CHR ''=''"

fun dumpToStringLocked :: "ramNode \<Rightarrow> string \<Rightarrow> string" where
  "dumpToStringLocked (RamNode n v cs) currentParentName =
     (let pre = (if currentParentName \<noteq> [] then currentParentName @ ''.'' else [])
      in concat (map (\<lambda>(k, c).
           (if GetString (node_value c) \<noteq> [] then pre @ k @ [eq_sign] @ GetString (node_value c) @ [nl] else []) @
           dumpToStringLocked c (pre @ k)) cs))"

text \<open>What \<open>os.WriteFile\<close> did: the text was written, or it failed and left the given contents.\<close>

datatype write_result = WriteOk | WriteFailed "string option"

definition dump :: "RamCacheDB \<Rightarrow> bool \<Rightarrow> write_result \<Rightarrow> string option \<Rightarrow> string option" where
  "dump r mkdirOk written file =
     (if \<not> mkdirOk then file
      else case written of
             WriteOk \<Rightarrow> Some (dumpToStringLocked (root r) [])
           | WriteFailed left \<Rightarrow> left)"

text \<open>One turn of \<open>backgroundDumper\<close>: both branches dump when there are pending changes and clear the
  flag; the stop branch then leaves the loop (the last component tells whether the loop goes on).\<close>

datatype dumper_event = TickerFired | StopClosed

definition backgroundDumper_step ::
    "dumper_event \<Rightarrow> bool \<Rightarrow> write_result \<Rightarrow> RamCacheDB \<Rightarrow> string option \<Rightarrow> RamCacheDB \<times> string option \<times> bool" where
  "backgroundDumper_step ev mkdirOk written r file =
     (let (r', file') = (if pendingChanges r
                         then (r\<lparr>pendingChanges := False\<rparr>, dump r mkdirOk written file)
                         else (r, file))
      in (r', file', ev = TickerFired))"

text \<open>The ticker of \<open>backgroundDumper\<close>: its period in nanoseconds is the product of two 64-bit numbers, and \<open>time.NewTicker\<close>
  panics unless it is positive. The panic of this goroutine ends the process.\<close>

definition dumper_period :: "int \<Rightarrow> int" where
  "dumper_period ms = wrap64 (ms * 1000000)"

definition backgroundDumper_starts :: "RamCacheDB \<Rightarrow> bool" where
  "backgroundDumper_starts r \<longleftrightarrow> 0 < dumper_period (dumpIntervalMs r)"

definition Finalize :: "RamCacheDB \<Rightarrow> RamCacheDB" where
  "Finalize r = (if stopCh_closed r then r else r\<lparr>stopCh_closed := True\<rparr>)"

section \<open>Loading\<close>

datatype read_result = FileText string | FileNotExist | FileError string

definition load_line :: "string \<Rightarrow> ramNode \<Rightarrow> ramNode" where
  "load_line line t =
     (if strings_TrimSpace line = [] then t
      else case strings_IndexByte line eq_sign of
             None \<Rightarrow> t
           | Some idx \<Rightarrow>
               (let key = take idx line; val = drop (Suc idx) line; (t', item) = scrollTree key t False
                in case item of
                     None \<Rightarrow> t'
                   | Some ref \<Rightarrow> update_at (set_value (NewDynamicVar_string val)) ref t'))"

text \<open>\<open>load\<close> with the error it returns; a missing file is no error and changes nothing.\<close>

definition load :: "read_result \<Rightarrow> RamCacheDB \<Rightarrow> RamCacheDB \<times> string option" where
  "load rd r =
     (case rd of
        FileNotExist \<Rightarrow> (r, None)
      | FileError e \<Rightarrow> (r, Some e)
      | FileText text \<Rightarrow>
          (r\<lparr>root := fold load_line (strings_Split nl text) (root r), pendingChanges := False\<rparr>, None))"

text \<open>\<open>NewRamCacheDB\<close> reads the dump file twice; errors are logged and ignored.\<close>

definition NewRamCacheDB :: "read_result \<Rightarrow> read_result \<Rightarrow> string \<Rightarrow> int \<Rightarrow> RamCacheDB" where
  "NewRamCacheDB rd1 rd2 dir intervalMs =
     (let r = \<lparr>root = RamNode [] NewEmptyDynamicVar [], pendingChanges = False,
               dataDir = (if dir = [] then ''./data/database'' else dir),
               dumpIntervalMs = (if intervalMs \<le> 0 then 5 * 60 * 1000 else intervalMs),
               stopCh_closed = False\<rparr>
      in fst (load rd2 (fst (load rd1 r))))"

definition NewRamCacheDB2 :: "read_result \<Rightarrow> read_result \<Rightarrow> RamCacheDB" where
  "NewRamCacheDB2 rd1 rd2 = NewRamCacheDB rd1 rd2 [] 0"

section \<open>The entries of a tree\<close>

fun tree_entries :: "ramNode \<Rightarrow> path \<Rightarrow> (path \<times> string) list" where
  "tree_entries (RamNode n v cs) pre =
     concat (map (\<lambda>(k, c).
       (if GetString (node_value c) \<noteq> [] then [(pre @ [k], GetString (node_value c))] else []) @
       tree_entries c (pre @ [k])) cs)"

definition tree_peek :: "ramNode \<Rightarrow> path \<Rightarrow> string" where
  "tree_peek t p = (case value_at t p of None \<Rightarrow> [] | Some v \<Rightarrow> GetString v)"

lemma db_peek_tree: "db_peek r = tree_peek (root r)"
  by (rule ext) (simp add: db_peek_def tree_peek_def)

lemma tree_entries_prefix: "(p, s) \<in> set (tree_entries t pre) \<Longrightarrow> \<exists>q. q \<noteq> [] \<and> p = pre @ q"
proof (induction t pre rule: tree_entries.induct)
  case (1 n v cs pre)
  then show ?case by (fastforce split: if_splits)
qed

lemma tree_entries_sound:
  "wf_node t \<Longrightarrow> (pre @ q, s) \<in> set (tree_entries t pre) \<Longrightarrow> s \<noteq> [] \<and> tree_peek t q = s"
proof (induction t pre arbitrary: q rule: tree_entries.induct)
  case (1 n v cs pre)
  from "1.prems"(2) obtain k c where kc: "(k, c) \<in> set cs"
    and alt: "pre @ q = pre @ [k] \<and> s = GetString (node_value c) \<and> s \<noteq> []
      \<or> (pre @ q, s) \<in> set (tree_entries c (pre @ [k]))"
    by (auto split: if_splits)
  have c: "map_of cs k = Some c" "wf_node c" using "1.prems"(1) kc by auto
  from alt show ?case
  proof
    assume "(pre @ q, s) \<in> set (tree_entries c (pre @ [k]))"
    moreover from tree_entries_prefix [OF this] obtain q' where "q = k # q'" by auto
    ultimately show ?thesis
      using "1.IH" [OF kc refl c(2), of q'] c(1) by (simp add: tree_peek_def value_at_Cons)
  qed (use c(1) in \<open>auto simp: tree_peek_def value_at_Cons\<close>)
qed

lemma tree_entries_complete:
  "q \<noteq> [] \<Longrightarrow> tree_peek t q \<noteq> [] \<Longrightarrow> (pre @ q, tree_peek t q) \<in> set (tree_entries t pre)"
proof (induction t pre arbitrary: q rule: tree_entries.induct)
  case (1 n v cs pre)
  from "1.prems"(1) obtain k q' where q: "q = k # q'" by (cases q) auto
  with "1.prems"(2) obtain c where c: "map_of cs k = Some c" "tree_peek c q' \<noteq> []"
    "tree_peek (RamNode n v cs) q = tree_peek c q'"
    by (auto simp: tree_peek_def value_at_Cons split: option.splits)
  then have kc: "(k, c) \<in> set cs" by (auto dest: map_of_SomeD)
  show ?case
  proof (cases "q' = []")
    case True
    with c q kc show ?thesis by (force simp: tree_peek_def)
  next
    case False
    with "1.IH" [OF kc refl, of q'] c q kc show ?thesis by force
  qed
qed

lemma tree_entries_distinct: "wf_node t \<Longrightarrow> distinct (map fst (tree_entries t pre))"
proof (induction t pre rule: tree_entries.induct)
  case (1 n v cs pre)
  let ?e = "\<lambda>x. (if GetString (node_value (snd x)) \<noteq> [] then [(pre @ [fst x], GetString (node_value (snd x)))] else [])
      @ tree_entries (snd x) (pre @ [fst x])"
  have one: "distinct (map fst (?e x))" if "x \<in> set cs" for x
    using "1.IH" [of x "fst x" "snd x"] "1.prems" that tree_entries_prefix [of _ _ "snd x" "pre @ [fst x]"]
    by (cases x) (fastforce simp: image_iff)
  have start: "\<exists>q. p = pre @ fst x # q" if "p \<in> fst ` set (?e x)" for p x
    using that tree_entries_prefix [of p _ "snd x" "pre @ [fst x]"] by (fastforce split: if_splits)
  have "distinct (concat (map (\<lambda>x. map fst (?e x)) cs))"
  proof (rule distinct_concat_map)
    show "distinct cs" using "1.prems" by (simp add: distinct_map)
    fix x y
    assume xy: "x \<in> set cs" "y \<in> set cs" "x \<noteq> y"
    with "1.prems" have "fst x \<noteq> fst y" by (auto simp: distinct_map dest: inj_onD)
    then have "False" if "p \<in> fst ` set (?e x)" "p \<in> fst ` set (?e y)" for p
      using start [OF that(1)] start [OF that(2)] by auto
    then show "set (map fst (?e x)) \<inter> set (map fst (?e y)) = {}"
      unfolding set_map disjoint_iff by iprover
  qed (rule one)
  then show ?case by (simp add: map_concat comp_def case_prod_unfold)
qed

section \<open>What a dump contains\<close>

definition entry_line :: "path \<times> string \<Rightarrow> string" where
  "entry_line e = strings_Join (fst e) ''.'' @ [eq_sign] @ snd e"

lemma entry_line_append: "entry_line (p, s @ u) = entry_line (p, s) @ u"
  by (simp add: entry_line_def)

text \<open>An entry the dump format can represent: no component of the key is empty or holds a separator,
  and the value is a single line.\<close>

definition clean_entry :: "path \<times> string \<Rightarrow> bool" where
  "clean_entry e \<longleftrightarrow>
     list_all (\<lambda>k. k \<noteq> [] \<and> eq_sign \<notin> set k \<and> nl \<notin> set k \<and> CHR ''.'' \<notin> set k) (fst e) \<and> nl \<notin> set (snd e)"

definition clean_db :: "RamCacheDB \<Rightarrow> bool" where
  "clean_db r = list_all clean_entry (tree_entries (root r) [])"

lemma dump_no_entries: "tree_entries t pre = [] \<Longrightarrow> dumpToStringLocked t s = []"
proof (induction t s arbitrary: pre rule: dumpToStringLocked.induct)
  case (1 n v cs s)
  then show ?case by (fastforce simp: Let_def split: if_splits)
qed

lemma strings_Join_neq_Nil: "p \<noteq> [] \<Longrightarrow> \<forall>k \<in> set p. k \<noteq> [] \<Longrightarrow> strings_Join p sep \<noteq> []"
  by (induction p sep rule: strings_Join.induct) auto

lemma dump_entries:
  assumes "\<forall>k \<in> set pre. k \<noteq> []" and "\<forall>e \<in> set (tree_entries t pre). \<forall>k \<in> set (fst e). k \<noteq> []"
  shows "dumpToStringLocked t (strings_Join pre ''.'') =
    concat (map (\<lambda>e. entry_line e @ [nl]) (tree_entries t pre))"
  using assms
proof (induction t pre rule: tree_entries.induct)
  case (1 n v cs pre)
  let ?w = "strings_Join pre ''.''"
  let ?pre = "if ?w \<noteq> [] then ?w @ ''.'' else []"
  have key: "?pre @ k = strings_Join (pre @ [k]) ''.''" for k
    using strings_Join_neq_Nil [of pre "''.''"] "1.prems"(1)
    by (cases "pre = []") (auto simp: strings_Join_snoc)
  let ?e = "\<lambda>x. (if GetString (node_value (snd x)) \<noteq> [] then [(pre @ [fst x], GetString (node_value (snd x)))] else [])
      @ tree_entries (snd x) (pre @ [fst x])"
  let ?d = "\<lambda>x. (if GetString (node_value (snd x)) \<noteq> []
        then ?pre @ fst x @ [eq_sign] @ GetString (node_value (snd x)) @ [nl] else []) @
      dumpToStringLocked (snd x) (?pre @ fst x)"
  have "?d x = concat (map (\<lambda>e. entry_line e @ [nl]) (?e x))" if x: "x \<in> set cs" for x
  proof -
    obtain k c where xkc: "x = (k, c)" by (cases x)
    with x have kc: "(k, c) \<in> set cs" by simp
    have "set (tree_entries c (pre @ [k])) \<subseteq> set (tree_entries (RamNode n v cs) pre)" using kc by auto
    then have clean: "\<forall>e \<in> set (tree_entries c (pre @ [k])). \<forall>k \<in> set (fst e). k \<noteq> []"
      using "1.prems"(2) by blast
    have "dumpToStringLocked c (?pre @ k) = concat (map (\<lambda>e. entry_line e @ [nl]) (tree_entries c (pre @ [k])))"
    proof (cases "k = []")
      case True
      have "tree_entries c (pre @ [k]) = []"
      proof (rule ccontr)
        assume "tree_entries c (pre @ [k]) \<noteq> []"
        then obtain p s where ps: "(p, s) \<in> set (tree_entries c (pre @ [k]))"
          by (metis list.set_intros(1) neq_Nil_conv surj_pair)
        from tree_entries_prefix [OF ps] have "k \<in> set p" by auto
        with ps clean True show False by force
      qed
      then show ?thesis by (simp add: dump_no_entries)
    next
      case False
      then show ?thesis
        using "1.IH" [OF kc refl] "1.prems"(1) clean unfolding key by simp
    qed
    moreover have "?pre @ k @ [eq_sign] @ s @ [nl] = entry_line (pre @ [k], s) @ [nl]" for s
      unfolding entry_line_def fst_conv snd_conv key [symmetric] by simp
    ultimately show ?thesis unfolding xkc by (simp add: entry_line_append)
  qed
  then have "map ?d cs = map (\<lambda>x. concat (map (\<lambda>e. entry_line e @ [nl]) (?e x))) cs"
    by (rule map_cong [OF refl])
  then have "concat (map ?d cs) = concat (map (\<lambda>e. entry_line e @ [nl]) (concat (map ?e cs)))"
    by (simp only: concat_map_concat_map)
  then show ?case by (simp only: dumpToStringLocked.simps tree_entries.simps Let_def case_prod_unfold)
qed

lemma clean_entry_line:
  assumes "clean_entry e" and "fst e \<noteq> []"
  shows "nl \<notin> set (entry_line e)" and "eq_sign \<notin> set (strings_Join (fst e) ''.'')"
    and "key_path (strings_Join (fst e) ''.'') = fst e"
proof -
  have join: "set (strings_Join p ''.'') \<subseteq> insert CHR ''.'' (\<Union> (set ` set p))" for p :: path
    by (induction p "''.''" rule: strings_Join.induct) auto
  from join [of "fst e"] assms show "nl \<notin> set (entry_line e)" "eq_sign \<notin> set (strings_Join (fst e) ''.'')"
    by (auto simp: clean_entry_def entry_line_def list_all_iff)
  show "key_path (strings_Join (fst e) ''.'') = fst e"
    using assms by (intro key_path_Join) (auto simp: clean_entry_def list_all_iff)
qed

section \<open>What loading does\<close>

lemma tree_peek_create:
  "tree_peek (update_at (set_value v) p (ensure_path p t)) q = (if q = p then GetString v else tree_peek t q)"
proof -
  obtain m where "node_at (ensure_path p t) p = Some m" using node_at_ensure by blast
  then show ?thesis by (auto simp: tree_peek_def value_at_write value_at_ensure split: option.splits)
qed

lemma TrimSpace_eq_sign: "eq_sign \<in> set line \<Longrightarrow> strings_TrimSpace line \<noteq> []"
  using strings_TrimSpace_keeps [of eq_sign line] by (auto simp: space_runes_def)

lemma tree_peek_load_line:
  "tree_peek (load_line line t) q =
     (case strings_IndexByte line eq_sign of
        None \<Rightarrow> tree_peek t q
      | Some i \<Rightarrow> if q = key_path (take i line) then drop (Suc i) line else tree_peek t q)"
proof (cases "strings_IndexByte line eq_sign")
  case (Some i)
  then have "eq_sign \<in> set line" by (metis option.simps(3) strings_IndexByte_None)
  with Some show ?thesis
    by (simp add: load_line_def TrimSpace_eq_sign scrollTree_create tree_peek_create Let_def)
qed (simp add: load_line_def)

lemma wf_load_line: "wf_node t \<Longrightarrow> wf_node (load_line line t)"
  using wf_ensure_path [of t] key_path_elem_no_dot wf_update_at [of "set_value _"]
  by (auto simp: load_line_def scrollTree_create wf_set_value Let_def split: option.splits)

text \<open>The key and value a line assigns, if it is an assignment.\<close>

definition line_entry :: "string \<Rightarrow> (path \<times> string) option" where
  "line_entry line = map_option (\<lambda>i. (key_path (take i line), drop (Suc i) line)) (strings_IndexByte line eq_sign)"

lemma tree_peek_load_lines:
  "tree_peek (fold load_line ls t) q =
     (case map_of (rev (List.map_filter line_entry ls)) q of None \<Rightarrow> tree_peek t q | Some v \<Rightarrow> v)"
proof (induction ls arbitrary: t)
  case Nil
  then show ?case by (simp add: map_filter_simps)
next
  case (Cons l ls)
  then show ?case
    by (auto simp: line_entry_def tree_peek_load_line map_filter_simps map_add_def map_of_append
        split: option.splits)
qed

lemma line_entry_entry_line:
  assumes "clean_entry e" and "fst e \<noteq> []"
  shows "line_entry (entry_line e) = Some e"
proof -
  let ?k = "strings_Join (fst e) ''.''"
  have "strings_IndexByte (?k @ eq_sign # snd e) eq_sign = Some (length ?k)"
    using clean_entry_line(2) [OF assms] by (rule strings_IndexByte_append)
  then show ?thesis
    using clean_entry_line(3) [OF assms] by (simp add: line_entry_def entry_line_def)
qed

lemma map_filter_entry_lines:
  assumes "\<forall>e \<in> set es. clean_entry e \<and> fst e \<noteq> []"
  shows "List.map_filter line_entry (map entry_line es) = es"
  using assms by (induction es) (auto simp: map_filter_simps line_entry_entry_line)

lemma clean_db_entries:
  "clean_db r \<Longrightarrow> e \<in> set (tree_entries (root r) []) \<Longrightarrow> clean_entry e \<and> fst e \<noteq> []"
  using tree_entries_prefix [of "fst e" "snd e" "root r" "[]"] by (auto simp: clean_db_def list_all_iff)

lemma tree_peek_map_of_entries:
  assumes "wf_node t" and "p \<noteq> []"
  shows "(case map_of (tree_entries t []) p of None \<Rightarrow> [] | Some v \<Rightarrow> v) = tree_peek t p"
proof (cases "map_of (tree_entries t []) p")
  case None
  then have "\<forall>s. (p, s) \<notin> set (tree_entries t [])" by (force simp: map_of_eq_None_iff)
  with None tree_entries_complete [OF assms(2), of t "[]"] show ?thesis
    by (cases "tree_peek t p = []") auto
next
  case (Some v)
  then have "(p, v) \<in> set (tree_entries t [])" by (rule map_of_SomeD)
  with Some tree_entries_sound [OF assms(1), of "[]" p v] show ?thesis by simp
qed

lemma tree_peek_empty [simp]: "tree_peek (RamNode n NewEmptyDynamicVar []) p = []"
  by (cases p) (auto simp: tree_peek_def value_at_Cons)

text \<open>Loading the lines of a dump, in any order, into a tree that agrees with it or is empty there.\<close>

lemma tree_peek_load_dump:
  assumes "wf_node (root r)" "clean_db r" "p \<noteq> []"
    and ls: "mset ls = mset (map entry_line (tree_entries (root r) []))"
    and t: "tree_peek t p = [] \<or> tree_peek t p = tree_peek (root r) p"
  shows "tree_peek (fold load_line (strings_Split nl (concat (map (\<lambda>l. l @ [nl]) ls))) t) p = tree_peek (root r) p"
proof -
  let ?es = "tree_entries (root r) []"
  have es: "\<forall>e \<in> set ?es. clean_entry e \<and> fst e \<noteq> []" using clean_db_entries assms(2) by blast
  have "nl \<notin> set l" if "l \<in> set ls" for l
    using that mset_eq_setD [OF ls] es clean_entry_line(1) by auto
  then have split: "strings_Split nl (concat (map (\<lambda>l. l @ [nl]) ls)) = ls @ [[]]"
    by (intro strings_Split_lines) blast
  have "mset (List.map_filter line_entry ls) = mset ?es"
    using mset_map_filter_cong [OF ls, of line_entry] map_filter_entry_lines [OF es] by simp
  then have "map_of (rev (List.map_filter line_entry ls)) = map_of ?es"
    using tree_entries_distinct [OF assms(1)] by (intro map_of_mset_cong) simp_all
  moreover have "List.map_filter line_entry (ls @ [[]]) = List.map_filter line_entry ls"
    by (simp add: List.map_filter_def line_entry_def)
  ultimately show ?thesis
    using t tree_peek_map_of_entries [OF assms(1,3)]
    unfolding split tree_peek_load_lines by (auto split: option.splits)
qed

lemma dump_lines:
  assumes "clean_db r"
  shows "dumpToStringLocked (root r) [] =
    concat (map (\<lambda>l. l @ [nl]) (map entry_line (tree_entries (root r) [])))"
proof -
  have "\<forall>e \<in> set (tree_entries (root r) []). \<forall>k \<in> set (fst e). k \<noteq> []"
    using assms by (auto simp: clean_db_def clean_entry_def list_all_iff)
  from dump_entries [OF _ this] show ?thesis by (simp add: comp_def)
qed

lemma wf_load_lines: "wf_node t \<Longrightarrow> wf_node (fold load_line ls t)"
  by (induction ls arbitrary: t) (auto simp: wf_load_line)

lemma db_wf_load: "db_wf r \<Longrightarrow> db_wf (fst (load rd r))"
  by (auto simp: load_def db_wf_def wf_load_lines split: read_result.splits)

lemma db_wf_NewRamCacheDB [simp]: "db_wf (NewRamCacheDB rd1 rd2 dir ms)"
  unfolding NewRamCacheDB_def Let_def by (intro db_wf_load) (simp add: db_wf_def)

lemma tree_peek_reload:
  "tree_peek (fold load_line ls (fold load_line ls t)) = tree_peek (fold load_line ls t)"
  by (rule ext) (simp add: tree_peek_load_lines split: option.splits)

lemma restart_peek:
  assumes "db_wf r" and "clean_db r" and "p \<noteq> []"
  shows "db_peek (NewRamCacheDB (FileText (dumpToStringLocked (root r) [])) (FileText (dumpToStringLocked (root r) [])) dir ms) p = db_peek r p"
  using tree_peek_load_dump [OF assms(1) [unfolded db_wf_def] assms(2,3) refl] dump_lines [OF assms(2)]
  by (simp add: NewRamCacheDB_def load_def Let_def db_peek_tree)

text \<open>The tree as an iteration over its maps may run through it: the children of every node in any order.\<close>

inductive reordered :: "ramNode \<Rightarrow> ramNode \<Rightarrow> bool" where
  "mset ds = mset cs \<Longrightarrow> list_all2 (\<lambda>x y. fst y = fst x \<and> reordered (snd x) (snd y)) ds es \<Longrightarrow>
     reordered (RamNode n v cs) (RamNode n v es)"

lemma reordered_same: "reordered t t' \<Longrightarrow> wf_node t \<Longrightarrow> wf_node t' \<and> imediateName t' = imediateName t \<and> value_at t' = value_at t"
proof (induction rule: reordered.induct)
  case (1 ds cs es n v)
  let ?same = "\<lambda>x y. fst y = fst x \<and> (wf_node (snd x) \<longrightarrow> wf_node (snd y) \<and> imediateName (snd y) = imediateName (snd x) \<and> value_at (snd y) = value_at (snd x))"
  have rel: "list_all2 ?same ds es" using "1.IH" by (auto elim!: list_all2_mono)
  have set: "set ds = set cs" by (rule mset_eq_setD [OF "1.hyps"])
  have dist: "distinct (map fst ds)" using "1.prems" "1.hyps" by (metis mset_eq_imp_distinct_iff mset_map wf_node.simps)
  have names: "map fst es = map fst ds" using rel by (induction rule: list_all2_induct) auto
  have wf: "list_all (\<lambda>x. imediateName (snd x) = fst x \<and> CHR ''.'' \<notin> set (fst x) \<and> wf_node (snd x)) ds"
    using "1.prems" set by (auto simp: list_all_iff)
  have "list_all (\<lambda>x. imediateName (snd x) = fst x \<and> CHR ''.'' \<notin> set (fst x) \<and> wf_node (snd x)) es"
    using rel wf by (induction rule: list_all2_induct) auto
  then have "wf_node (RamNode n v es)" using dist names by (auto simp: list_all_iff)
  moreover have "map_option value_at (map_of es k) = map_option value_at (map_of ds k)" for k
    using rel wf by (induction rule: list_all2_induct) auto
  then have "value_at (RamNode n v es) p = value_at (RamNode n v ds) p" for p
  proof (cases p)
    case (Cons k q)
    then show ?thesis
      using \<open>\<And>k. map_option value_at (map_of es k) = map_option value_at (map_of ds k)\<close> [of k]
      by (cases "map_of es k"; cases "map_of ds k") (auto simp: value_at_Cons)
  qed (simp add: value_at_def)
  moreover have "map_of ds = map_of cs" using "1.hyps" "1.prems" by (intro map_of_mset_cong) simp_all
  then have "value_at (RamNode n v ds) p = value_at (RamNode n v cs) p" for p
    by (cases p) (simp_all add: value_at_Cons value_at_def [of _ "[]"])
  ultimately show ?case by (simp add: fun_eq_iff)
qed

lemma clean_db_same:
  assumes "wf_node (root r')" and "tree_peek (root r') = tree_peek (root r)" and "clean_db r"
  shows "clean_db r'"
proof -
  have "(p, s) \<in> set (tree_entries (root r) [])" if "(p, s) \<in> set (tree_entries (root r') [])" for p s
  proof -
    have "p \<noteq> []" using tree_entries_prefix [OF that] by simp
    moreover have "s \<noteq> [] \<and> tree_peek (root r') p = s" using tree_entries_sound [OF assms(1), of "[]"] that by simp
    ultimately show ?thesis using tree_entries_complete [of p "root r" "[]"] assms(2) by simp
  qed
  then show ?thesis using assms(3) by (auto simp: clean_db_def list_all_iff)
qed

lemma dumper_text:
  "pendingChanges r \<Longrightarrow> backgroundDumper_step ev True WriteOk r file = (r', file', goes_on) \<Longrightarrow>
   file' = Some (dumpToStringLocked (root r) []) \<and> \<not> pendingChanges r'"
  by (auto simp: backgroundDumper_step_def dump_def)

section \<open>Properties\<close>

text \<open>A small database used by the witnesses: two variables set one after the other.\<close>

definition empty_db :: RamCacheDB where
  "empty_db = NewRamCacheDB FileNotExist FileNotExist [] 0"

definition demo_db :: RamCacheDB where
  "demo_db = Set (Set empty_db ''vars.a.b'' (NewDynamicVar_string ''1'')) ''vars.a'' (NewDynamicVar_string ''x'')"

lemma db_wf_empty_db [simp]: "db_wf empty_db"
  by (simp add: empty_db_def)

lemma db_wf_demo_db [simp]: "db_wf demo_db"
  by (simp add: demo_db_def db_wf_Set)

lemma demo_db_entries:
  "tree_entries (root demo_db) [] = [([''vars'', ''a''], ''x''), ([''vars'', ''a'', ''b''], ''1'')]"
  by code_simp

lemma demo_db_clean: "clean_db demo_db"
  unfolding clean_db_def demo_db_entries by code_simp

text \<open>C4. Persistence round trip: starting the server on the text that \<open>dumpToStringLocked\<close> makes of a database gives every
  key the value it had, whatever order the runtime iterates the maps in while dumping (\<open>t\<close> is the tree with the
  children of every node in any order), and although start-up reads the file twice. It holds for keys whose components
  are non-empty and free of \<open>=\<close> and line breaks and for single-line values.\<close>

theorem restart_restores_dump:
  assumes "db_wf r" and "clean_db r" and "p \<noteq> []"
    and "reordered (root r) t" and "txt = dumpToStringLocked t []"
  shows "db_peek (NewRamCacheDB (FileText txt) (FileText txt) dir ms) p = db_peek r p"
proof -
  have t: "wf_node t" "tree_peek t = tree_peek (root r)"
    using reordered_same [OF assms(4)] assms(1) by (auto simp: db_wf_def tree_peek_def)
  then have "db_wf (r\<lparr>root := t\<rparr>)" "clean_db (r\<lparr>root := t\<rparr>)"
    using assms(2) clean_db_same [of "r\<lparr>root := t\<rparr>" r] by (simp_all add: db_wf_def)
  from restart_peek [OF this assms(3)] t(2) show ?thesis by (simp add: assms(5) db_peek_tree)
qed

text \<open>The tree of \<open>demo_db\<close> with the variable \<open>c\<close> beside \<open>a\<close>, iterated in the other order.\<close>

theorem restart_restores_dump_witness:
  "\<exists>t. t \<noteq> root (Set demo_db ''vars.c'' (NewDynamicVar_string ''2'')) \<and>
     db_peek (NewRamCacheDB (FileText (dumpToStringLocked t [])) (FileText (dumpToStringLocked t [])) [] 0) [''vars'', ''a''] = ''x''"
proof -
  let ?r = "Set demo_db ''vars.c'' (NewDynamicVar_string ''2'')"
  let ?b = "RamNode ''b'' (NewDynamicVar_string ''1'') []"
  let ?a = "(''a'', RamNode ''a'' (NewDynamicVar_string ''x'') [(''b'', ?b)])" and ?c = "(''c'', RamNode ''c'' (NewDynamicVar_string ''2'') [])"
  let ?t = "\<lambda>cs. RamNode [] NewEmptyDynamicVar [(''vars'', RamNode ''vars'' NewEmptyDynamicVar cs)]"
  have root: "root ?r = ?t [?a, ?c]" by code_simp
  have self: "reordered (RamNode n v []) (RamNode n v [])" for n v by (rule reordered.intros [of "[]"]) simp_all
  then have a: "reordered (snd ?a) (snd ?a)" by (auto intro!: reordered.intros [of "[(''b'', ?b)]"])
  have "reordered (RamNode ''vars'' NewEmptyDynamicVar [?a, ?c]) (RamNode ''vars'' NewEmptyDynamicVar [?c, ?a])"
    using a self by (intro reordered.intros [of "[?c, ?a]"]) simp_all
  then have re: "reordered (root ?r) (?t [?c, ?a])"
    unfolding root by (intro reordered.intros [of "[(''vars'', RamNode ''vars'' NewEmptyDynamicVar [?a, ?c])]"]) simp_all
  have "tree_entries (root ?r) [] = [([''vars'', ''a''], ''x''), ([''vars'', ''a'', ''b''], ''1''), ([''vars'', ''c''], ''2'')]" by code_simp
  then have clean: "clean_db ?r" by (simp add: clean_db_def clean_entry_def)
  have "db_peek ?r [''vars'', ''a''] = ''x''" by code_simp
  then show ?thesis
    using restart_restores_dump [OF db_wf_Set [OF db_wf_demo_db] clean _ re refl, of "[''vars'', ''a'']" "[]" 0]
    by (intro exI [of _ "?t [?c, ?a]"]) (simp add: root)
qed

text \<open>Durability: a turn of the background dumper that finds pending changes and whose file
  operations succeed writes a text from which a restarted server recovers every value, and leaves no
  change pending.\<close>

theorem dumper_makes_durable:
  assumes "db_wf r" and "clean_db r" and "pendingChanges r" and "p \<noteq> []"
    and "backgroundDumper_step ev True WriteOk r file = (r', file', goes_on)"
  shows "\<exists>txt. file' = Some txt \<and> \<not> pendingChanges r' \<and>
    db_peek (NewRamCacheDB (FileText txt) (FileText txt) dir ms) p = db_peek r p"
  using dumper_text [OF assms(3,5)] restart_peek [OF assms(1,2,4)] by simp

theorem dumper_makes_durable_witness:
  "\<exists>txt. fst (snd (backgroundDumper_step TickerFired True WriteOk demo_db None)) = Some txt \<and>
    db_peek (NewRamCacheDB (FileText txt) (FileText txt) [] 0) [''vars'', ''a''] = db_peek demo_db [''vars'', ''a'']"
proof -
  have "pendingChanges demo_db" by code_simp
  from dumper_makes_durable [OF db_wf_demo_db demo_db_clean this, of "[''vars'', ''a'']" TickerFired None]
  show ?thesis by (metis fst_conv list.distinct(1) prod.collapse snd_conv)
qed

text \<open>A dump that fails is forgotten: when the directory cannot be created or the file cannot be
  written, the dumper clears \<open>pendingChanges\<close> all the same, so that the next turn, whatever the file
  system then allows, leaves the file as the failure left it.\<close>

theorem failed_dump_is_dropped:
  assumes "pendingChanges r"
    and "\<not> mkdirOk \<or> written = WriteFailed left"
    and "backgroundDumper_step ev mkdirOk written r file = (r', file', goes_on)"
  shows "file' = (if mkdirOk then left else file) \<and>
    backgroundDumper_step ev' True WriteOk r' file' = (r', file', ev' = TickerFired)"
  using assms by (auto simp: backgroundDumper_step_def dump_def)

theorem failed_dump_is_dropped_witness:
  "fst (snd (backgroundDumper_step TickerFired True WriteOk
     (fst (backgroundDumper_step TickerFired False WriteOk demo_db None)) None)) = None"
proof -
  have "pendingChanges demo_db" by code_simp
  from failed_dump_is_dropped [OF this, of False WriteOk undefined TickerFired None _ _ _ TickerFired]
  show ?thesis by (metis fst_conv prod.collapse snd_conv)
qed

text \<open>Reading the dump file a second time, as start-up does, changes no value: the database after
  \<open>NewRamCacheDB\<close> holds what one \<open>load\<close> of the file text gives.\<close>

theorem double_load_is_single_load:
  "db_peek (NewRamCacheDB (FileText txt) (FileText txt) dir ms) p =
   db_peek (NewRamCacheDB (FileText txt) FileNotExist dir ms) p"
  by (simp add: NewRamCacheDB_def load_def Let_def db_peek_tree tree_peek_reload)

text \<open>Values are not escaped in the dump: a value with a line break writes a second line, and the
  restarted server reads it as an assignment of its own. Here the variable \<open>m\<close> was set to two lines and
  after a restart the variable \<open>admin\<close>, never set, has a value and \<open>m\<close> lost its second line.\<close>

theorem multiline_value_injects_key:
  "\<exists>r. db_wf r \<and> db_peek r [''vars'', ''admin''] = [] \<and>
     r = Set empty_db ''vars.m'' (NewDynamicVar_string (''x'' @ [nl] @ ''vars.admin=1'')) \<and>
     (let restarted = NewRamCacheDB (FileText (dumpToStringLocked (root r) []))
            (FileText (dumpToStringLocked (root r) [])) [] 0
      in db_peek restarted [''vars'', ''admin''] = ''1'' \<and> db_peek restarted [''vars'', ''m''] = ''x'')"
proof -
  let ?r = "Set empty_db ''vars.m'' (NewDynamicVar_string (''x'' @ [nl] @ ''vars.admin=1''))"
  have "db_wf ?r" by (simp add: db_wf_Set)
  moreover have "db_peek ?r [''vars'', ''admin''] = []" by code_simp
  moreover have "let restarted = NewRamCacheDB (FileText (dumpToStringLocked (root ?r) []))
            (FileText (dumpToStringLocked (root ?r) [])) [] 0
      in db_peek restarted [''vars'', ''admin''] = ''1'' \<and> db_peek restarted [''vars'', ''m''] = ''x''"
    by code_simp
  ultimately show ?thesis by blast
qed

end
