(* ===== verification/WorkerPool.thy ===== *)
theory WorkerPool
  imports RamCacheDB
begin

text \<open>
  \<open>ForEachChildsParallel\<close> of \<open>ramcachedb.go\<close>: a feeder goroutine sends the children over an
  unbuffered channel to a pool of workers and closes the returned channel when all are finished.
  Which goroutine moves next is not determined, so the pool is a step relation.
\<close>

type_synonym task = "string \<times> DynamicVar"

text \<open>\<open>todo\<close>: what the feeder has not sent yet; \<open>busy\<close>: tasks whose callback is running; \<open>idle\<close>: workers
  waiting on the channel; \<open>exited\<close>: workers that called \<open>wg.Done\<close>; \<open>calls\<close>: finished callbacks.\<close>

record pool =
  todo :: "task list"
  busy :: "task list"
  idle :: nat
  exited :: nat
  calls :: "task list"
  taskCh_closed :: bool
  done_closed :: bool

definition pool_size :: "int \<Rightarrow> nat" where
  "pool_size concurrency = nat (if concurrency < 1 then 1 else concurrency)"

text \<open>The pool when \<open>ForEachChildsParallel\<close> returns: without the node the channel is already closed.\<close>

definition ForEachChildsParallel :: "RamCacheDB \<Rightarrow> string \<Rightarrow> int \<Rightarrow> pool" where
  "ForEachChildsParallel r parentName concurrency =
     (case snd (scrollTree parentName (root r) True) of
        None \<Rightarrow> \<lparr>todo = [], busy = [], idle = 0, exited = 0, calls = [], taskCh_closed = False, done_closed = True\<rparr>
      | Some ref \<Rightarrow>
          \<lparr>todo = ForEachChilds r parentName, busy = [], idle = pool_size concurrency, exited = 0, calls = [],
           taskCh_closed = False, done_closed = False\<rparr>)"

inductive pool_step :: "nat \<Rightarrow> pool \<Rightarrow> pool \<Rightarrow> bool" for n where
  send: "todo s = t # ts \<Longrightarrow> 0 < idle s \<Longrightarrow>
     pool_step n s (s\<lparr>todo := ts, idle := idle s - 1, busy := t # busy s\<rparr>)"
| return: "t \<in> set (busy s) \<Longrightarrow>
     pool_step n s (s\<lparr>busy := remove1 t (busy s), idle := Suc (idle s), calls := calls s @ [t]\<rparr>)"
| close_tasks: "todo s = [] \<Longrightarrow> \<not> taskCh_closed s \<Longrightarrow> \<not> done_closed s \<Longrightarrow> pool_step n s (s\<lparr>taskCh_closed := True\<rparr>)"
| worker_exit: "taskCh_closed s \<Longrightarrow> 0 < idle s \<Longrightarrow>
     pool_step n s (s\<lparr>idle := idle s - 1, exited := Suc (exited s)\<rparr>)"
| close_done: "taskCh_closed s \<Longrightarrow> exited s = n \<Longrightarrow> \<not> done_closed s \<Longrightarrow> pool_step n s (s\<lparr>done_closed := True\<rparr>)"

inductive pool_reaches :: "nat \<Rightarrow> pool \<Rightarrow> nat \<Rightarrow> pool \<Rightarrow> bool" for n s where
  here: "pool_reaches n s 0 s"
| next_step: "pool_reaches n s k t \<Longrightarrow> pool_step n t u \<Longrightarrow> pool_reaches n s (Suc k) u"

inductive_cases pool_step_elim: "pool_step n s s'"

definition pool_inv :: "nat \<Rightarrow> task multiset \<Rightarrow> pool \<Rightarrow> bool" where
  "pool_inv n T s \<longleftrightarrow>
     mset (todo s) + mset (busy s) + mset (calls s) = T \<and>
     idle s + length (busy s) + exited s = n \<and>
     (taskCh_closed s \<longrightarrow> todo s = []) \<and> (0 < exited s \<longrightarrow> taskCh_closed s) \<and>
     (done_closed s \<longrightarrow> taskCh_closed s \<and> exited s = n)"

lemma mset_remove1_add: "t \<in> set xs \<Longrightarrow> add_mset t (mset xs - {#t#}) = mset xs"
  by simp

lemma pool_inv_step: "pool_step n s s' \<Longrightarrow> pool_inv n T s \<Longrightarrow> pool_inv n T s'"
proof (induction rule: pool_step.induct)
  case (return t s)
  then have "0 < length (busy s)" by (auto simp: length_pos_if_in_set)
  with return show ?case
    by (auto simp: pool_inv_def length_remove1 mset_remove1_add add.assoc)
qed (auto simp: pool_inv_def)

lemma pool_inv_reaches: "pool_reaches n s k t \<Longrightarrow> pool_inv n T s \<Longrightarrow> pool_inv n T t"
  by (induction rule: pool_reaches.induct) (auto intro: pool_inv_step)

text \<open>What is left to do; every step of any goroutine lowers it.\<close>

definition pool_measure :: "pool \<Rightarrow> nat" where
  "pool_measure s = 3 * length (todo s) + 2 * length (busy s) + idle s +
     (if taskCh_closed s then 0 else 1) + (if done_closed s then 0 else 1)"

lemma pool_step_measure: "pool_step n s s' \<Longrightarrow> pool_measure s' < pool_measure s"
proof (induction rule: pool_step.induct)
  case (return t s)
  then have "Suc (length (remove1 t (busy s))) = length (busy s)"
    using length_pos_if_in_set [of t "busy s"] by (simp add: length_remove1)
  then show ?case by (simp add: pool_measure_def)
qed (auto simp: pool_measure_def)

lemma pool_reaches_measure: "pool_reaches n s k t \<Longrightarrow> pool_measure t + k \<le> pool_measure s"
  by (induction rule: pool_reaches.induct) (auto dest: pool_step_measure)

lemma pool_progress:
  assumes "pool_inv n T s" and "0 < n" and "\<not> done_closed s"
  shows "\<exists>s'. pool_step n s s'"
proof (cases "busy s")
  case (Cons t ts)
  then show ?thesis using pool_step.return [of t s n] by auto
next
  case Nil
  show ?thesis
  proof (cases "taskCh_closed s")
    case True
    with Nil assms show ?thesis
      using pool_step.worker_exit [of s n] pool_step.close_done [of s n]
      by (cases "idle s = 0") (auto simp: pool_inv_def)
  next
    case False
    with Nil assms have "0 < idle s" by (auto simp: pool_inv_def)
    with False assms(3) show ?thesis
      using pool_step.send [of s _ _ n] pool_step.close_tasks [of s n] by (cases "todo s") auto
  qed
qed

lemma pool_size_pos [simp]: "0 < pool_size c"
  by (simp add: pool_size_def)

lemma pool_inv_init:
  "pool_inv (pool_size c) (mset (ForEachChilds r n)) (ForEachChildsParallel r n c)"
  if "\<not> done_closed (ForEachChildsParallel r n c)"
  using that by (auto simp: ForEachChildsParallel_def pool_inv_def split: option.splits)

section \<open>Properties\<close>

text \<open>C29. When the channel returned by \<open>ForEachChildsParallel\<close> is closed, the callback has been called on
  every child exactly once, in whatever order the goroutines ran; and at no moment before are more than
  \<open>concurrency\<close> callbacks (at least one) running.\<close>

theorem parallel_visits_each_child_once:
  assumes "pool_reaches (pool_size concurrency) (ForEachChildsParallel r n concurrency) k s"
    and "\<not> done_closed (ForEachChildsParallel r n concurrency)"
  shows "(done_closed s \<longrightarrow> mset (calls s) = mset (ForEachChilds r n)) \<and>
    length (busy s) \<le> pool_size concurrency"
proof -
  have "pool_inv (pool_size concurrency) (mset (ForEachChilds r n)) s"
    using pool_inv_reaches [OF assms(1) pool_inv_init [OF assms(2)]] .
  then show ?thesis by (auto simp: pool_inv_def)
qed

theorem parallel_visits_each_child_once_witness:
  "length (busy (ForEachChildsParallel one_var_db ''vars'' 4)) \<le> pool_size 4"
proof -
  have "\<not> done_closed (ForEachChildsParallel one_var_db ''vars'' 4)" by code_simp
  with parallel_visits_each_child_once [OF pool_reaches.here, where r = one_var_db and n = "''vars''" and concurrency = 4]
  show ?thesis by blast
qed

text \<open>C30. \<open>ForEachChildsParallel\<close> always finishes: no run of its goroutines is longer than the measure of
  the initial pool, and as long as the returned channel is not closed some goroutine can move, so every
  maximal run closes it.\<close>

theorem parallel_visit_finishes:
  assumes "pool_reaches (pool_size concurrency) (ForEachChildsParallel r n concurrency) k s"
    and "\<not> done_closed (ForEachChildsParallel r n concurrency)"
  shows "k \<le> 3 * length (ForEachChilds r n) + pool_size concurrency + 2 \<and>
    (done_closed s \<or> (\<exists>s'. pool_step (pool_size concurrency) s s'))"
proof -
  have inv: "pool_inv (pool_size concurrency) (mset (ForEachChilds r n)) s"
    using pool_inv_reaches [OF assms(1) pool_inv_init [OF assms(2)]] .
  have "pool_measure (ForEachChildsParallel r n concurrency) =
      3 * length (ForEachChilds r n) + pool_size concurrency + 2"
    using assms(2) by (auto simp: ForEachChildsParallel_def pool_measure_def split: option.splits)
  with pool_reaches_measure [OF assms(1)] pool_progress [OF inv pool_size_pos] show ?thesis by auto
qed

theorem parallel_visit_finishes_witness:
  "\<exists>s'. pool_step (pool_size 2) (ForEachChildsParallel one_var_db ''vars'' 2) s'"
proof -
  have "\<not> done_closed (ForEachChildsParallel one_var_db ''vars'' 2)" by code_simp
  with parallel_visit_finishes [OF pool_reaches.here, where r = one_var_db and n = "''vars''" and concurrency = 2]
  show ?thesis by blast
qed

end
