(* ===== verification/NamedLock.thy ===== *)
theory NamedLock
  imports VSS_Prelude
begin

text \<open>
  \<open>NamedLockRun\<close> (\<open>namedlock.go\<close>): named locks made of one-element channels. A lock is present once
  somebody has asked for it, and its channel holds at most one token. The goroutines that call
  \<open>NamedLockRun\<close> are a step relation: looking up the channel, taking the token, giving up after a timeout,
  one action of the function that runs under the lock, and the release. Each lock protects its own
  data, a component of the shared store.
\<close>

section \<open>The lock table\<close>

text \<open>\<open>None\<close>: no channel of that name yet; \<open>Some b\<close>: a channel, \<open>b\<close> telling whether the token is in it.\<close>

type_synonym locks = "string \<Rightarrow> bool option"

definition lookupNamedLock :: "string \<Rightarrow> locks \<Rightarrow> locks" where
  "lookupNamedLock name ls = (case ls name of None \<Rightarrow> ls(name := Some True) | Some _ \<Rightarrow> ls)"

definition takeToken :: "string \<Rightarrow> locks \<Rightarrow> locks option" where
  "takeToken name ls = (if ls name = Some True then Some (ls(name := Some False)) else None)"

definition releaseNamedLock :: "string \<Rightarrow> locks \<Rightarrow> locks" where
  "releaseNamedLock name ls = (case ls name of None \<Rightarrow> ls | Some _ \<Rightarrow> ls(name := Some True))"

section \<open>Goroutines\<close>

text \<open>A call of \<open>NamedLockRun\<close>: the name, the timeout in nanoseconds and the actions of \<open>f\<close> on the data
  the lock protects.\<close>

record 's call =
  call_name :: string
  call_timeout :: int
  call_body :: "('s \<Rightarrow> 's) list"

datatype 's pc = Start | Waiting | Inside "('s \<Rightarrow> 's) list" | Done "string option"

record 's config =
  locks :: locks
  pcs :: "nat \<Rightarrow> 's pc"
  store :: "string \<Rightarrow> 's"
  entered :: "nat list"

definition set_pc :: "nat \<Rightarrow> 's pc \<Rightarrow> 's config \<Rightarrow> 's config" where
  "set_pc p x c = c\<lparr>pcs := (pcs c)(p := x)\<rparr>"

text \<open>\<open>entered\<close> records in which order the calls have taken their tokens.\<close>

inductive NamedLockRun :: "(nat \<Rightarrow> 's call) \<Rightarrow> 's config \<Rightarrow> 's config \<Rightarrow> bool" for calls where
  lookup: "pcs c p = Start \<Longrightarrow>
    NamedLockRun calls c (set_pc p Waiting (c\<lparr>locks := lookupNamedLock (call_name (calls p)) (locks c)\<rparr>))"
| acquire: "pcs c p = Waiting \<Longrightarrow> takeToken (call_name (calls p)) (locks c) = Some ls \<Longrightarrow>
    NamedLockRun calls c (set_pc p (Inside (call_body (calls p))) (c\<lparr>locks := ls, entered := entered c @ [p]\<rparr>))"
| expire: "pcs c p = Waiting \<Longrightarrow> 0 < call_timeout (calls p) \<Longrightarrow>
    NamedLockRun calls c (set_pc p (Done (Some ''timeout acquiring named lock'')) c)"
| act: "pcs c p = Inside (f # fs) \<Longrightarrow>
    NamedLockRun calls c (set_pc p (Inside fs)
      (c\<lparr>store := (store c)(call_name (calls p) := f (store c (call_name (calls p))))\<rparr>))"
| release: "pcs c p = Inside [] \<Longrightarrow>
    NamedLockRun calls c (set_pc p (Done None) (c\<lparr>locks := releaseNamedLock (call_name (calls p)) (locks c)\<rparr>))"

definition initial :: "(string \<Rightarrow> 's) \<Rightarrow> 's config" where
  "initial s0 = \<lparr>locks = (\<lambda>_. None), pcs = (\<lambda>_. Start), store = s0, entered = []\<rparr>"

abbreviation reaches :: "(nat \<Rightarrow> 's call) \<Rightarrow> 's config \<Rightarrow> 's config \<Rightarrow> bool" where
  "reaches calls \<equiv> (NamedLockRun calls)\<^sup>*\<^sup>*"

section \<open>The invariant\<close>

definition run_body :: "('s \<Rightarrow> 's) list \<Rightarrow> 's \<Rightarrow> 's" where
  "run_body fs s = foldl (\<lambda>s f. f s) s fs"

text \<open>The calls on one name run one after the other.\<close>

definition serial :: "(nat \<Rightarrow> 's call) \<Rightarrow> (string \<Rightarrow> 's) \<Rightarrow> nat list \<Rightarrow> string \<Rightarrow> 's" where
  "serial calls s0 ps name =
     foldl (\<lambda>s p. run_body (call_body (calls p)) s) (s0 name) (filter (\<lambda>p. call_name (calls p) = name) ps)"

definition is_inside :: "'s pc \<Rightarrow> bool" where
  "is_inside x = (case x of Inside _ \<Rightarrow> True | _ \<Rightarrow> False)"

definition name_inv :: "(nat \<Rightarrow> 's call) \<Rightarrow> (string \<Rightarrow> 's) \<Rightarrow> 's config \<Rightarrow> string \<Rightarrow> bool" where
  "name_inv calls s0 c n \<longleftrightarrow>
     (if locks c n = Some False then
        \<exists>p fs. call_name (calls p) = n \<and> pcs c p = Inside fs \<and>
          (\<forall>q. call_name (calls q) = n \<and> is_inside (pcs c q) \<longrightarrow> q = p) \<and>
          run_body fs (store c n) = serial calls s0 (entered c) n
      else (\<forall>q. call_name (calls q) = n \<longrightarrow> \<not> is_inside (pcs c q)) \<and>
        (\<forall>q. call_name (calls q) = n \<and> pcs c q = Waiting \<longrightarrow> locks c n = Some True) \<and>
        store c n = serial calls s0 (entered c) n)"

definition lock_inv :: "(nat \<Rightarrow> 's call) \<Rightarrow> (string \<Rightarrow> 's) \<Rightarrow> 's config \<Rightarrow> bool" where
  "lock_inv calls s0 c \<longleftrightarrow> (\<forall>n. name_inv calls s0 c n) \<and>
     distinct (entered c) \<and> set (entered c) = {p. is_inside (pcs c p) \<or> pcs c p = Done None}"

lemma is_inside_simps [simp]:
  "is_inside (Inside fs)" "\<not> is_inside Start" "\<not> is_inside Waiting" "\<not> is_inside (Done e)"
  by (simp_all add: is_inside_def)

lemma run_body_simps [simp]: "run_body [] s = s" "run_body (f # fs) s = run_body fs (f s)"
  by (simp_all add: run_body_def)

lemma serial_snoc [simp]:
  "serial calls s0 (ps @ [p]) n =
     (if call_name (calls p) = n then run_body (call_body (calls p)) (serial calls s0 ps n) else serial calls s0 ps n)"
  by (simp add: serial_def)

lemma serial_Nil [simp]: "serial calls s0 [] n = s0 n"
  by (simp add: serial_def)

lemma lock_inv_initial: "lock_inv calls s0 (initial s0)"
  by (simp add: lock_inv_def name_inv_def initial_def)

lemma set_pc_simps [simp]:
  "pcs (set_pc p x c) = (pcs c)(p := x)" "locks (set_pc p x c) = locks c"
  "store (set_pc p x c) = store c" "entered (set_pc p x c) = entered c"
  by (simp_all add: set_pc_def)

lemma name_inv_heldI:
  "locks c n = Some False \<Longrightarrow> call_name (calls p) = n \<Longrightarrow> pcs c p = Inside fs \<Longrightarrow>
   (\<And>q. call_name (calls q) = n \<Longrightarrow> is_inside (pcs c q) \<Longrightarrow> q = p) \<Longrightarrow>
   run_body fs (store c n) = serial calls s0 (entered c) n \<Longrightarrow> name_inv calls s0 c n"
  by (auto simp: name_inv_def)

lemma name_inv_heldE:
  assumes "name_inv calls s0 c n" and "locks c n = Some False"
  obtains p fs where "call_name (calls p) = n" and "pcs c p = Inside fs"
    and "\<And>q. call_name (calls q) = n \<Longrightarrow> is_inside (pcs c q) \<Longrightarrow> q = p"
    and "run_body fs (store c n) = serial calls s0 (entered c) n"
  using assms by (auto simp: name_inv_def)

lemma name_inv_freeI:
  "locks c n \<noteq> Some False \<Longrightarrow> (\<And>q. call_name (calls q) = n \<Longrightarrow> \<not> is_inside (pcs c q)) \<Longrightarrow>
   (\<And>q. call_name (calls q) = n \<Longrightarrow> pcs c q = Waiting \<Longrightarrow> locks c n = Some True) \<Longrightarrow>
   store c n = serial calls s0 (entered c) n \<Longrightarrow> name_inv calls s0 c n"
  unfolding name_inv_def by auto

lemma name_inv_freeD:
  assumes "name_inv calls s0 c n" and "locks c n \<noteq> Some False"
  shows "call_name (calls q) = n \<Longrightarrow> \<not> is_inside (pcs c q)"
    and "call_name (calls q) = n \<Longrightarrow> pcs c q = Waiting \<Longrightarrow> locks c n = Some True"
    and "store c n = serial calls s0 (entered c) n"
  using assms unfolding name_inv_def by auto

lemma name_inv_inside:
  assumes "name_inv calls s0 c (call_name (calls p))" and "pcs c p = Inside fs"
  shows "locks c (call_name (calls p)) = Some False"
    and "\<And>q. call_name (calls q) = call_name (calls p) \<Longrightarrow> is_inside (pcs c q) \<Longrightarrow> q = p"
    and "run_body fs (store c (call_name (calls p))) = serial calls s0 (entered c) (call_name (calls p))"
proof -
  show held: "locks c (call_name (calls p)) = Some False"
    using name_inv_freeD(1) [OF assms(1), of p] assms(2) by auto
  then obtain q gs where q: "call_name (calls q) = call_name (calls p)" "pcs c q = Inside gs"
    and uniq: "\<And>q'. call_name (calls q') = call_name (calls p) \<Longrightarrow> is_inside (pcs c q') \<Longrightarrow> q' = q"
    and run: "run_body gs (store c (call_name (calls p))) = serial calls s0 (entered c) (call_name (calls p))"
    using name_inv_heldE [OF assms(1)] by metis
  have "p = q" using uniq [of p] assms(2) by simp
  then show "\<And>q. call_name (calls q) = call_name (calls p) \<Longrightarrow> is_inside (pcs c q) \<Longrightarrow> q = p"
    using uniq by blast
  show "run_body fs (store c (call_name (calls p))) = serial calls s0 (entered c) (call_name (calls p))"
    using run q(2) assms(2) \<open>p = q\<close> by simp
qed

text \<open>A step of one call leaves the other names alone.\<close>

lemma name_inv_frame:
  assumes inv: "name_inv calls s0 c n" and eq: "locks c' n = locks c n" "store c' n = store c n"
    "serial calls s0 (entered c') n = serial calls s0 (entered c) n"
    "\<And>q. call_name (calls q) = n \<Longrightarrow> pcs c' q = pcs c q"
  shows "name_inv calls s0 c' n"
proof (cases "locks c n = Some False")
  case True
  from name_inv_heldE [OF inv True] obtain p fs where
    p: "call_name (calls p) = n" "pcs c p = Inside fs" and
    uniq: "\<And>q. call_name (calls q) = n \<Longrightarrow> is_inside (pcs c q) \<Longrightarrow> q = p" and
    run: "run_body fs (store c n) = serial calls s0 (entered c) n" by metis
  show ?thesis
  proof (rule name_inv_heldI [of c' n calls p fs])
    show "q = p" if "call_name (calls q) = n" "is_inside (pcs c' q)" for q
      using uniq that eq(4) by metis
  qed (use p run True eq in simp_all)
next
  case False
  show ?thesis using name_inv_freeD [OF inv False] False eq by (intro name_inv_freeI) simp_all
qed

lemma name_inv_set_pc:
  assumes inv: "name_inv calls s0 c n" and out: "\<not> is_inside (pcs c p)" "\<not> is_inside x"
    and chan: "x = Waiting \<Longrightarrow> locks c (call_name (calls p)) \<noteq> None"
  shows "name_inv calls s0 (set_pc p x c) n"
proof (cases "locks c n = Some False")
  case True
  from name_inv_heldE [OF inv True] obtain q fs where
    q: "call_name (calls q) = n" "pcs c q = Inside fs"
    "run_body fs (store c n) = serial calls s0 (entered c) n" and
    uniq: "\<And>q'. call_name (calls q') = n \<Longrightarrow> is_inside (pcs c q') \<Longrightarrow> q' = q" by metis
  have "q \<noteq> p" using out q(2) by auto
  show ?thesis
  proof (rule name_inv_heldI [of _ n calls q fs])
    show "q' = q" if "call_name (calls q') = n" "is_inside (pcs (set_pc p x c) q')" for q'
      using uniq [of q'] that out(2) by (auto split: if_splits)
  qed (use q True \<open>q \<noteq> p\<close> in simp_all)
next
  case False
  show ?thesis
    using name_inv_freeD [OF inv False] False out chan
    by (intro name_inv_freeI) (auto split: if_splits)
qed

lemma name_inv_lookup:
  assumes "name_inv calls s0 c n"
  shows "name_inv calls s0 (c\<lparr>locks := lookupNamedLock m (locks c)\<rparr>) n"
proof (cases "locks c n = None \<and> m = n")
  case True
  then show ?thesis using name_inv_freeD [OF assms] by (intro name_inv_freeI) (simp_all add: lookupNamedLock_def)
next
  case False
  then show ?thesis
    by (intro name_inv_frame [OF assms]) (auto simp: lookupNamedLock_def split: option.splits)
qed

lemma name_inv_step:
  assumes "NamedLockRun calls c c'" and inv: "\<And>n. name_inv calls s0 c n"
  shows "name_inv calls s0 c' n"
  using assms(1)
proof (cases rule: NamedLockRun.cases)
  case (lookup p)
  have "lookupNamedLock (call_name (calls p)) (locks c) (call_name (calls p)) \<noteq> None"
    by (auto simp: lookupNamedLock_def split: option.splits)
  then show ?thesis
    unfolding lookup(1) using lookup(2) by (intro name_inv_set_pc name_inv_lookup inv) simp_all
next
  case (acquire p ls)
  let ?n = "call_name (calls p)"
  have ls: "locks c ?n = Some True" "ls = (locks c)(?n := Some False)"
    using acquire(3) by (auto simp: takeToken_def split: if_splits)
  show ?thesis
  proof (cases "?n = n")
    case True
    have free: "locks c n \<noteq> Some False" using ls(1) True by simp
    show ?thesis unfolding acquire(1)
      using name_inv_freeD [OF inv free] True ls
      by (intro name_inv_heldI [of _ n calls p "call_body (calls p)"]) (auto split: if_splits)
  next
    case False
    then show ?thesis unfolding acquire(1) using ls by (intro name_inv_frame [OF inv]) auto
  qed
next
  case (expire p)
  show ?thesis unfolding expire(1) using expire(2) by (intro name_inv_set_pc inv) simp_all
next
  case (act p f fs)
  note ins = name_inv_inside [OF inv act(2)]
  show ?thesis
  proof (cases "call_name (calls p) = n")
    case True
    then show ?thesis unfolding act(1)
      using ins by (intro name_inv_heldI [of _ n calls p fs]) (auto split: if_splits)
  next
    case False
    then show ?thesis unfolding act(1) by (intro name_inv_frame [OF inv]) auto
  qed
next
  case (release p)
  note ins = name_inv_inside [OF inv release(2)]
  show ?thesis
  proof (cases "call_name (calls p) = n")
    case True
    then show ?thesis unfolding release(1)
      using ins by (intro name_inv_freeI) (auto simp: releaseNamedLock_def split: if_splits)
  next
    case False
    then show ?thesis unfolding release(1)
      by (intro name_inv_frame [OF inv]) (auto simp: releaseNamedLock_def split: option.splits)
  qed
qed

lemma lock_inv_step:
  assumes "NamedLockRun calls c c'" and "lock_inv calls s0 c"
  shows "lock_inv calls s0 c'"
proof -
  have "distinct (entered c') \<and> set (entered c') = {p. is_inside (pcs c' p) \<or> pcs c' p = Done None}"
    using assms(1)
  proof (cases rule: NamedLockRun.cases)
    case (acquire p ls)
    with assms(2) show ?thesis by (auto simp: lock_inv_def)
  qed (use assms(2) in \<open>auto simp: lock_inv_def split: if_splits\<close>)
  moreover have "name_inv calls s0 c' n" for n
    using name_inv_step [OF assms(1)] assms(2) by (simp add: lock_inv_def)
  ultimately show ?thesis by (simp add: lock_inv_def)
qed

lemma lock_inv_reaches: "reaches calls (initial s0) c \<Longrightarrow> lock_inv calls s0 c"
  by (induction rule: rtranclp_induct) (auto intro: lock_inv_initial lock_inv_step)

section \<open>Properties\<close>

text \<open>C13. Mutual exclusion and serialisation: in every reachable state at most one call per lock name runs its
  function, the functions that have run or are running are exactly those of the calls that have taken the
  token, each once, and whenever nobody is inside, the data a lock protects is what running these
  functions one after the other, in the order of entry, gives.\<close>

theorem NamedLockRun_serialises:
  assumes "reaches calls (initial s0) c"
  shows "(\<forall>p q. is_inside (pcs c p) \<longrightarrow> is_inside (pcs c q) \<longrightarrow> call_name (calls p) = call_name (calls q) \<longrightarrow> p = q) \<and>
    distinct (entered c) \<and> set (entered c) = {p. is_inside (pcs c p) \<or> pcs c p = Done None} \<and>
    (\<forall>n. (\<forall>p. call_name (calls p) = n \<longrightarrow> \<not> is_inside (pcs c p)) \<longrightarrow> store c n = serial calls s0 (entered c) n)"
proof -
  from lock_inv_reaches [OF assms] have inv: "name_inv calls s0 c n" for n by (simp add: lock_inv_def)
  have "p = q" if "is_inside (pcs c p)" "is_inside (pcs c q)" "call_name (calls p) = call_name (calls q)" for p q
    using that name_inv_inside(2) [OF inv, of q] by (cases "pcs c q") auto
  moreover have "store c n = serial calls s0 (entered c) n"
    if "\<forall>p. call_name (calls p) = n \<longrightarrow> \<not> is_inside (pcs c p)" for n
    using inv [of n] that by (auto simp: name_inv_def split: if_splits)
  ultimately show ?thesis using lock_inv_reaches [OF assms] by (auto simp: lock_inv_def)
qed

definition two_calls :: "nat \<Rightarrow> int call" where
  "two_calls p = \<lparr>call_name = ''varLockerSystem'', call_timeout = 0, call_body = [\<lambda>x. x + 1]\<rparr>"

text \<open>Call 0 has entered and has run its only action.\<close>

abbreviation demo_config :: "bool \<Rightarrow> int pc \<Rightarrow> int \<Rightarrow> nat list \<Rightarrow> int config" where
  "demo_config token pc0 x es \<equiv> \<lparr>locks = (\<lambda>_. None)(''varLockerSystem'' := Some token),
     pcs = (\<lambda>_. Start)(0 := pc0), store = (\<lambda>_. 0)(''varLockerSystem'' := x), entered = es\<rparr>"

lemma demo_reached: "reaches two_calls (initial (\<lambda>_. 0)) (demo_config True (Done None) 1 [0])"
proof -
  let ?f = "\<lambda>x :: int. x + 1"
  have call: "call_name (two_calls p) = ''varLockerSystem''" "call_body (two_calls p) = [?f]" for p
    by (simp_all add: two_calls_def)
  note simps = call set_pc_def initial_def lookupNamedLock_def takeToken_def releaseNamedLock_def
  have "NamedLockRun two_calls (initial (\<lambda>_. 0)) (demo_config True Waiting 0 [])"
    using NamedLockRun.lookup [of "initial (\<lambda>_. 0)" 0 two_calls] by (simp add: simps fun_upd_idem)
  then have "reaches two_calls (initial (\<lambda>_. 0)) (demo_config True Waiting 0 [])" ..
  also have "NamedLockRun two_calls (demo_config True Waiting 0 []) (demo_config False (Inside [?f]) 0 [0])"
    using NamedLockRun.acquire [of "demo_config True Waiting 0 []" 0 two_calls "(\<lambda>_. None)(''varLockerSystem'' := Some False)"]
    by (simp add: simps)
  also have "NamedLockRun two_calls (demo_config False (Inside [?f]) 0 [0]) (demo_config False (Inside []) 1 [0])"
    using NamedLockRun.act [of "demo_config False (Inside [?f]) 0 [0]" 0 ?f "[]" two_calls] by (simp add: simps)
  also have "NamedLockRun two_calls (demo_config False (Inside []) 1 [0]) (demo_config True (Done None) 1 [0])"
    using NamedLockRun.release [of "demo_config False (Inside []) 1 [0]" 0 two_calls] by (simp add: simps)
  finally show ?thesis .
qed

theorem NamedLockRun_serialises_witness:
  "serial two_calls (\<lambda>_. 0) [0] ''varLockerSystem'' = 1"
proof -
  have "store (demo_config True (Done None) 1 [0]) ''varLockerSystem'' =
      serial two_calls (\<lambda>_. 0) (entered (demo_config True (Done None) 1 [0])) ''varLockerSystem''"
    by (rule NamedLockRun_serialises [OF demo_reached, THEN conjunct2, THEN conjunct2, THEN conjunct2, rule_format])
      simp
  then show ?thesis by simp
qed

text \<open>C31. No deadlock: in every reachable state each unfinished call either can make a step itself or waits
  for a lock another call is inside of, and a call that is inside can always make a step.\<close>

theorem NamedLockRun_progress:
  assumes "reaches calls (initial s0) c" and "\<forall>e. pcs c p \<noteq> Done e"
  shows "(\<exists>c'. NamedLockRun calls c c' \<and> pcs c' p \<noteq> pcs c p) \<or>
    (pcs c p = Waiting \<and> (\<exists>q c'. call_name (calls q) = call_name (calls p) \<and> is_inside (pcs c q) \<and>
       NamedLockRun calls c c' \<and> pcs c' q \<noteq> pcs c q))"
proof -
  from lock_inv_reaches [OF assms(1)] have inv: "name_inv calls s0 c n" for n by (simp add: lock_inv_def)
  have inside: "\<exists>c'. NamedLockRun calls c c' \<and> pcs c' q \<noteq> pcs c q" if "is_inside (pcs c q)" for q
  proof (cases "pcs c q")
    case (Inside fs)
    then show ?thesis
      using NamedLockRun.act [of c q] NamedLockRun.release [of c q] by (cases fs) fastforce+
  qed (use that in simp_all)
  show ?thesis
  proof (cases "pcs c p")
    case Start
    then show ?thesis using NamedLockRun.lookup [OF Start] by fastforce
  next
    case Waiting
    show ?thesis
    proof (cases "locks c (call_name (calls p)) = Some True")
      case True
      then show ?thesis
        using NamedLockRun.acquire [OF Waiting, of calls] Waiting by (fastforce simp: takeToken_def)
    next
      case False
      then obtain q where "call_name (calls q) = call_name (calls p)" "is_inside (pcs c q)"
        using inv [of "call_name (calls p)"] Waiting by (auto simp: name_inv_def split: if_splits)
      with inside Waiting show ?thesis by blast
    qed
  next
    case (Inside fs)
    then show ?thesis using inside [of p] by simp
  qed (use assms(2) in simp)
qed

theorem NamedLockRun_progress_witness:
  "\<exists>c'. NamedLockRun two_calls (initial (\<lambda>_. 0)) c' \<and> pcs c' 0 \<noteq> Start"
proof -
  have pc: "pcs (initial (\<lambda>_. 0 :: int)) 0 = Start" by (simp add: initial_def)
  then have "\<forall>e. pcs (initial (\<lambda>_. 0 :: int)) 0 \<noteq> Done e" by simp
  from NamedLockRun_progress [where calls = two_calls, OF rtranclp.rtrancl_refl this] pc show ?thesis
    by (elim disjE) (simp_all add: pc)
qed

end
