(* ===== verification/VarHelper.thy ===== *)
theory VarHelper
  imports RamCacheDB
begin

text \<open>
  \<open>ControllerVarHelper\<close> (\<open>controller_varhelper.go\<close>): value, flags, lock and observers of one
  variable, kept as keys below the variable's own key. The operations are defined over any storage
  \<open>S\<close>; the shared database is passed and returned. \<open>acq\<close> tells whether the named lock of an operation
  was acquired before its timeout: when it was not, \<open>misc.NamedLockRun\<close> does not run the body and the
  helpers ignore its error.
\<close>

section \<open>The helper and its keys\<close>

record ControllerVarHelper =
  vh_name :: string
  vh_raw :: bool

definition NewControllerVarHelper :: "bool \<Rightarrow> ControllerVarHelper" where
  "NewControllerVarHelper allowRawDbAccess = \<lparr>vh_name = [], vh_raw = allowRawDbAccess\<rparr>"

definition SetControlledVarName :: "string \<Rightarrow> ControllerVarHelper \<Rightarrow> ControllerVarHelper" where
  "SetControlledVarName vname c =
     (if vh_raw c then c\<lparr>vh_name := vname\<rparr>
      else if strings_HasPrefix vname ''vars.'' then c\<lparr>vh_name := vname\<rparr>
      else c\<lparr>vh_name := ''vars.'' @ vname\<rparr>)"

definition key_count :: "ControllerVarHelper \<Rightarrow> string" where
  "key_count c = vh_name c @ ''._observers.list.count''"

definition key_entry :: "ControllerVarHelper \<Rightarrow> int \<Rightarrow> string" where
  "key_entry c i = vh_name c @ ''._observers.list.'' @ strconv_Itoa i"

definition key_client :: "ControllerVarHelper \<Rightarrow> int \<Rightarrow> string" where
  "key_client c i = vh_name c @ ''._observers.list.'' @ strconv_Itoa i @ ''.clientId''"

definition key_metadata :: "ControllerVarHelper \<Rightarrow> int \<Rightarrow> string" where
  "key_metadata c i = vh_name c @ ''._observers.list.'' @ strconv_Itoa i @ ''.metadata''"

definition key_byId :: "ControllerVarHelper \<Rightarrow> string \<Rightarrow> string" where
  "key_byId c clientID = vh_name c @ ''._observers.byId.'' @ clientID"

definition key_byMetadata :: "ControllerVarHelper \<Rightarrow> string \<Rightarrow> string \<Rightarrow> string" where
  "key_byMetadata c clientID metadata = vh_name c @ ''._observers.byId.'' @ clientID @ ''.byMetadata.'' @ metadata"

text \<open>\<open>runLocked\<close>: the body runs only when the observation lock was acquired within 10 seconds.\<close>

definition runLocked :: "bool \<Rightarrow> ('s \<Rightarrow> 's) \<Rightarrow> 's \<Rightarrow> 's" where
  "runLocked acq f s = (if acq then f s else s)"

definition getString :: "'db IStorage \<Rightarrow> 'db \<Rightarrow> string \<Rightarrow> string" where
  "getString S db key = GetString (iGet S db key (NewDynamicVar_string []))"

definition getCount :: "'db IStorage \<Rightarrow> 'db \<Rightarrow> string \<Rightarrow> int" where
  "getCount S db key = GetInt64 (iGet S db key (NewDynamicVar_int 0))"

section \<open>Observations\<close>

definition RegisterObservation ::
    "'db IStorage \<Rightarrow> bool \<Rightarrow> ControllerVarHelper \<Rightarrow> string \<Rightarrow> string \<Rightarrow> 'db \<Rightarrow> 'db \<times> string" where
  "RegisterObservation S acq c clientID metadata db =
     runLocked acq (\<lambda>(db, obsID).
       let cnt = getCount S db (key_count c);
           db1 = iSet S db (key_client c cnt) (NewDynamicVar_string clientID);
           db2 = iSet S db1 (key_metadata c cnt) (NewDynamicVar_string metadata);
           db3 = iSet S db2 (key_byMetadata c clientID metadata) (NewDynamicVar_int cnt);
           db4 = iSet S db3 (key_count c) (NewDynamicVar_int (wrap64 (cnt + 1)))
       in (db4, strconv_Itoa cnt)) (db, [])"

text \<open>The map from observation ids to client and metadata; entries without a client are skipped.\<close>

definition GetAllObservingClients ::
    "'db IStorage \<Rightarrow> bool \<Rightarrow> ControllerVarHelper \<Rightarrow> 'db \<Rightarrow> (string \<times> (string \<times> string)) list" where
  "GetAllObservingClients S acq c db =
     runLocked acq (\<lambda>_.
       let cnt = getCount S db (key_count c)
       in List.map_filter (\<lambda>i.
            let client = getString S db (key_client c i); metadata = getString S db (key_metadata c i)
            in if client \<noteq> [] then Some (strconv_Itoa i, (client, metadata)) else None) [0..cnt - 1]) []"

text \<open>The loop of \<open>internalRemoveObserving\<close> that moves the entries \<open>j+1 .. lim\<close> one place to the left.\<close>

function shift_left :: "'db IStorage \<Rightarrow> ControllerVarHelper \<Rightarrow> int \<Rightarrow> int \<Rightarrow> 'db \<Rightarrow> 'db" where
  "shift_left S c j lim db =
     (if j < lim then
        let nextClient = getString S db (key_client c (j + 1));
            nextMetadata = getString S db (key_metadata c (j + 1));
            db1 = iSet S db (key_client c j) (NewDynamicVar_string nextClient);
            db2 = iSet S db1 (key_metadata c j) (NewDynamicVar_string nextMetadata);
            db3 = iSet S db2 (key_byMetadata c nextClient nextMetadata) (NewDynamicVar_int j)
        in shift_left S c (j + 1) lim db3
      else db)"
  by pat_completeness auto
termination
  by (relation "measure (\<lambda>(_, _, j, lim, _). nat (lim - j))") auto

declare shift_left.simps [simp del]

text \<open>The search from the last entry down; \<open>last\<close> is \<open>actualCount-1\<close>.\<close>

function remove_from :: "'db IStorage \<Rightarrow> ControllerVarHelper \<Rightarrow> string \<Rightarrow> string \<Rightarrow> int \<Rightarrow> int \<Rightarrow> 'db \<Rightarrow> 'db" where
  "remove_from S c clientID metadata lastIdx i db =
     (if i < 0 then db
      else if getString S db (key_client c i) = clientID \<and> getString S db (key_metadata c i) = metadata then
        let db1 = shift_left S c i lastIdx db;
            db2 = iDeleteValue S db1 (key_entry c lastIdx) True;
            db3 = iSet S db2 (key_count c) (NewDynamicVar_int lastIdx)
        in iDeleteValue S db3 (key_byId c clientID) True
      else remove_from S c clientID metadata lastIdx (i - 1) db)"
  by pat_completeness auto
termination
  by (relation "measure (\<lambda>(_, _, _, _, _, i, _). nat (i + 1))") auto

declare remove_from.simps [simp del]

definition internalRemoveObserving :: "'db IStorage \<Rightarrow> ControllerVarHelper \<Rightarrow> string \<Rightarrow> string \<Rightarrow> 'db \<Rightarrow> 'db" where
  "internalRemoveObserving S c clientID metadata db =
     (let lastIdx = wrap64 (getCount S db (key_count c) - 1)
      in remove_from S c clientID metadata lastIdx lastIdx db)"

definition RemoveObservationByClientAndMetadata ::
    "'db IStorage \<Rightarrow> bool \<Rightarrow> ControllerVarHelper \<Rightarrow> string \<Rightarrow> string \<Rightarrow> 'db \<Rightarrow> 'db" where
  "RemoveObservationByClientAndMetadata S acq c clientID metadata db =
     runLocked acq (internalRemoveObserving S c clientID metadata) db"

definition RemoveObservationById :: "'db IStorage \<Rightarrow> bool \<Rightarrow> ControllerVarHelper \<Rightarrow> string \<Rightarrow> 'db \<Rightarrow> 'db" where
  "RemoveObservationById S acq c obsID db =
     (case strconv_Atoi obsID of
        None \<Rightarrow> db
      | Some idx \<Rightarrow>
          (let client = getString S db (key_client c idx); metadata = getString S db (key_metadata c idx)
           in if client = [] \<and> metadata = [] then db
              else RemoveObservationByClientAndMetadata S acq c client metadata db))"

function remove_all_from :: "'db IStorage \<Rightarrow> ControllerVarHelper \<Rightarrow> string \<Rightarrow> int \<Rightarrow> 'db \<Rightarrow> 'db" where
  "remove_all_from S c clientID i db =
     (if i < 0 then db
      else let client = getString S db (key_client c i);
               metadata = getString S db (key_metadata c i);
               db' = (if client = clientID then internalRemoveObserving S c client metadata db else db)
           in remove_all_from S c clientID (i - 1) db')"
  by pat_completeness auto
termination
  by (relation "measure (\<lambda>(_, _, _, i, _). nat (i + 1))") auto

declare remove_all_from.simps [simp del]

definition RemoveAllClientObservations :: "'db IStorage \<Rightarrow> bool \<Rightarrow> ControllerVarHelper \<Rightarrow> string \<Rightarrow> 'db \<Rightarrow> 'db" where
  "RemoveAllClientObservations S acq c clientID db =
     runLocked acq (\<lambda>db. remove_all_from S c clientID (wrap64 (getCount S db (key_count c) - 1)) db) db"

definition GetAllObservations ::
    "'db IStorage \<Rightarrow> bool \<Rightarrow> ControllerVarHelper \<Rightarrow> 'db \<Rightarrow> (string \<times> (string \<times> string)) list" where
  "GetAllObservations S acq c db = GetAllObservingClients S acq c db"

definition RemoveAllObservations :: "'db IStorage \<Rightarrow> bool \<Rightarrow> ControllerVarHelper \<Rightarrow> 'db \<Rightarrow> 'db" where
  "RemoveAllObservations S acq c db =
     runLocked acq (\<lambda>db. iSet S (iDeleteValue S db (vh_name c @ ''._observers'') True)
        (key_count c) (NewDynamicVar_int 0)) db"

definition GetMetadatasOfAClient :: "'db IStorage \<Rightarrow> ControllerVarHelper \<Rightarrow> string \<Rightarrow> 'db \<Rightarrow> string list" where
  "GetMetadatasOfAClient S c clientID db =
     List.map_filter (\<lambda>cur. map_option (\<lambda>i. drop (Suc i) cur) (strings_IndexByte cur CHR ''.''))
       (iGetChilds S db (vh_name c @ ''._observers.byId.'' @ clientID @ ''.byMetadata''))"

definition IsClientObserving :: "'db IStorage \<Rightarrow> ControllerVarHelper \<Rightarrow> string \<Rightarrow> string \<Rightarrow> 'db \<Rightarrow> bool" where
  "IsClientObserving S c clientId metadata db = iHasValue S db (key_byMetadata c clientId metadata)"

definition ForeachObservation ::
    "'db IStorage \<Rightarrow> bool \<Rightarrow> ControllerVarHelper \<Rightarrow> 'db \<Rightarrow> (string \<times> string \<times> string) list" where
  "ForeachObservation S acq c db = GetAllObservingClients S acq c db"

section \<open>Value, children and flags\<close>

definition GetValue :: "'db IStorage \<Rightarrow> ControllerVarHelper \<Rightarrow> 'db \<Rightarrow> DynamicVar" where
  "GetValue S c db = iGet S db (vh_name c) (NewDynamicVar_string [])"

definition SetValue :: "'db IStorage \<Rightarrow> ControllerVarHelper \<Rightarrow> DynamicVar \<Rightarrow> 'db \<Rightarrow> 'db" where
  "SetValue S c v db = (if strings_Contains (vh_name c) ''*'' then db else iSet S db (vh_name c) v)"

definition GetChildNames :: "'db IStorage \<Rightarrow> ControllerVarHelper \<Rightarrow> 'db \<Rightarrow> string list" where
  "GetChildNames S c db =
     filter (\<lambda>ch. ch \<noteq> [] \<and> \<not> (\<not> vh_raw c \<and> hd ch = CHR ''_'')) (iGetChilds S db (vh_name c))"

definition GetParentName :: "ControllerVarHelper \<Rightarrow> string" where
  "GetParentName c = (case strings_LastIndexByte (vh_name c) CHR ''.'' of None \<Rightarrow> [] | Some i \<Rightarrow> take i (vh_name c))"

definition flag_name :: "string \<Rightarrow> string" where
  "flag_name flagName = (if hd flagName \<noteq> CHR ''_'' then CHR ''_'' # flagName else flagName)"

definition SetFlag :: "'db IStorage \<Rightarrow> ControllerVarHelper \<Rightarrow> string \<Rightarrow> DynamicVar \<Rightarrow> 'db \<Rightarrow> 'db" where
  "SetFlag S c flagName v db =
     (if flagName = [] then db else iSet S db (vh_name c @ ''.'' @ flag_name flagName) v)"

definition GetFlag :: "'db IStorage \<Rightarrow> ControllerVarHelper \<Rightarrow> string \<Rightarrow> DynamicVar \<Rightarrow> 'db \<Rightarrow> DynamicVar" where
  "GetFlag S c flagName defaultValue db =
     (if flagName = [] then defaultValue else iGet S db (vh_name c @ ''.'' @ flag_name flagName) defaultValue)"

definition vh_DeleteValue :: "'db IStorage \<Rightarrow> ControllerVarHelper \<Rightarrow> 'db \<Rightarrow> 'db" where
  "vh_DeleteValue S c db = iDeleteValue S db (vh_name c) False"

section \<open>The variable lock\<close>

definition IsLocked :: "'db IStorage \<Rightarrow> ControllerVarHelper \<Rightarrow> 'db \<Rightarrow> bool" where
  "IsLocked S c db =
     (let lockVal = GetString (GetFlag S c ''lock'' (NewDynamicVar_string ''0'') db)
      in lockVal \<noteq> ''0'' \<and> lockVal \<noteq> [])"

text \<open>One attempt, inside the named lock \<open>varLockerSystem\<close> (acquired without a timeout).\<close>

definition tryLock :: "'db IStorage \<Rightarrow> ControllerVarHelper \<Rightarrow> 'db \<Rightarrow> bool \<times> 'db" where
  "tryLock S c db =
     (if \<not> IsLocked S c db then
        let db' = SetFlag S c ''lock'' (NewDynamicVar_string ''1'') db in (IsLocked S c db', db')
      else (False, db))"

text \<open>The timeout in nanoseconds: \<open>time.Duration(waitTimeout_ms) * time.Millisecond\<close> in 64-bit
  arithmetic, and 30 seconds when that is 0. \<open>waitTimeout_ms\<close> is a Go \<open>uint\<close>.\<close>

definition lock_max_timeout :: "int \<Rightarrow> int" where
  "lock_max_timeout waitTimeout_ms =
     (let m = wrap64 (wrap64 waitTimeout_ms * 1000000) in if m = 0 then 30 * 1000000000 else m)"

text \<open>The retry loop. Each element of the schedule is one turn: the time that has passed since the start
  when the turn's attempt has failed, and what the other goroutines do to the database while this one
  sleeps. \<open>None\<close>: the call has not returned within the schedule.\<close>

fun lock_loop :: "'db IStorage \<Rightarrow> ControllerVarHelper \<Rightarrow> int \<Rightarrow> (int \<times> ('db \<Rightarrow> 'db)) list \<Rightarrow> 'db \<Rightarrow> (string option \<times> 'db) option" where
  "lock_loop S c maxTimeout [] db = None"
| "lock_loop S c maxTimeout ((elapsed, others) # sched) db =
     (let (locked, db1) = tryLock S c db
      in if locked then Some (None, db1)
         else if maxTimeout \<le> elapsed then Some (Some ''timeout reached'', db1)
         else lock_loop S c maxTimeout sched (others db1))"

definition vh_Lock :: "'db IStorage \<Rightarrow> ControllerVarHelper \<Rightarrow> int \<Rightarrow> (int \<times> ('db \<Rightarrow> 'db)) list \<Rightarrow> 'db \<Rightarrow> (string option \<times> 'db) option" where
  "vh_Lock S c waitTimeout_ms sched db = lock_loop S c (lock_max_timeout waitTimeout_ms) sched db"

definition vh_Unlock :: "'db IStorage \<Rightarrow> ControllerVarHelper \<Rightarrow> 'db \<Rightarrow> 'db" where
  "vh_Unlock S c db = SetFlag S c ''lock'' (NewDynamicVar_string ''0'') db"

section \<open>Paths of the observer keys\<close>

definition obs_root :: "string \<Rightarrow> path" where
  "obs_root nm = parts nm @ [''_observers'']"

lemma key_path_obs [path_simps]:
  "key_path (key_count c) = obs_root (vh_name c) @ [''list'', ''count'']"
  "key_path (key_entry c i) = obs_root (vh_name c) @ [''list'', strconv_Itoa i]"
  "key_path (key_client c i) = obs_root (vh_name c) @ [''list'', strconv_Itoa i, ''clientId'']"
  "key_path (key_metadata c i) = obs_root (vh_name c) @ [''list'', strconv_Itoa i, ''metadata'']"
proof -
  let ?n = "vh_name c"
  have k: "key_path (?n @ CHR ''.'' # ''_observers.list.'' @ s) = obs_root ?n @ ''list'' # key_path s" if "s \<noteq> []" for s
    using that key_path_append_dot [of "''_observers.list.'' @ s" ?n]
      key_path_append_dot [of s "''_observers.list''"]
    by (simp add: obs_root_def parts_def)
  show "key_path (key_count c) = obs_root ?n @ [''list'', ''count'']"
    using k [of "''count''"] by (simp add: key_count_def path_simps)
  show "key_path (key_entry c i) = obs_root ?n @ [''list'', strconv_Itoa i]"
    using k [of "strconv_Itoa i"] by (simp add: key_entry_def path_simps)
  show "key_path (key_client c i) = obs_root ?n @ [''list'', strconv_Itoa i, ''clientId'']"
    using k [of "strconv_Itoa i @ ''.clientId''"] key_path_append_dot [of "''clientId''" "strconv_Itoa i"]
    by (simp add: key_client_def path_simps)
  show "key_path (key_metadata c i) = obs_root ?n @ [''list'', strconv_Itoa i, ''metadata'']"
    using k [of "strconv_Itoa i @ ''.metadata''"] key_path_append_dot [of "''metadata''" "strconv_Itoa i"]
    by (simp add: key_metadata_def path_simps)
qed

text \<open>An empty metadata or client id makes the key end in a dot, which the storage ignores.\<close>

lemma key_path_byMetadata:
  "key_path (key_byMetadata c cid md) =
     obs_root (vh_name c) @ ''byId'' # parts cid @ ''byMetadata'' # (if md = [] then [] else key_path md)"
proof -
  let ?n = "vh_name c @ ''._observers.byId.'' @ cid @ ''.byMetadata''"
  have parts: "parts ?n = obs_root (vh_name c) @ ''byId'' # parts cid @ [''byMetadata'']"
    using parts_append_dot [of "vh_name c" "''_observers.byId.'' @ cid @ ''.byMetadata''"]
      parts_append_dot [of "''_observers.byId''" "cid @ ''.byMetadata''"] parts_append_dot [of cid "''byMetadata''"]
    by (simp add: obs_root_def parts_def)
  show ?thesis
  proof (cases "md = []")
    case True
    then show ?thesis using key_path_final_dot [of ?n] parts by (simp add: key_byMetadata_def)
  next
    case False
    then show ?thesis using key_path_append_dot [of md ?n] parts by (simp add: key_byMetadata_def)
  qed
qed

lemma key_path_byId:
  "key_path (key_byId c cid) = obs_root (vh_name c) @ ''byId'' # (if cid = [] then [] else key_path cid)"
proof -
  let ?n = "vh_name c @ ''._observers.byId''"
  have parts: "parts ?n = obs_root (vh_name c) @ [''byId'']"
    using parts_append_dot [of "vh_name c" "''_observers.byId''"] by (simp add: obs_root_def parts_def)
  show ?thesis
  proof (cases "cid = []")
    case True
    then show ?thesis using key_path_final_dot [of ?n] parts by (simp add: key_byId_def)
  next
    case False
    then show ?thesis using key_path_append_dot [of cid ?n] parts by (simp add: key_byId_def)
  qed
qed

section \<open>The observers of a variable as a list\<close>

text \<open>What the keys below \<open>_observers.list\<close> stand for, read through a view \<open>pk\<close> of the storage.\<close>

definition obs_count :: "('db \<Rightarrow> path \<Rightarrow> string) \<Rightarrow> 'db \<Rightarrow> string \<Rightarrow> int" where
  "obs_count pk db nm = num_of (pk db (obs_root nm @ [''list'', ''count'']))"

definition obs_entry :: "('db \<Rightarrow> path \<Rightarrow> string) \<Rightarrow> 'db \<Rightarrow> string \<Rightarrow> int \<Rightarrow> string \<times> string" where
  "obs_entry pk db nm i =
     (pk db (obs_root nm @ [''list'', strconv_Itoa i, ''clientId'']),
      pk db (obs_root nm @ [''list'', strconv_Itoa i, ''metadata'']))"

definition obs_list :: "('db \<Rightarrow> path \<Rightarrow> string) \<Rightarrow> 'db \<Rightarrow> string \<Rightarrow> (string \<times> string) list" where
  "obs_list pk db nm = map (\<lambda>k. obs_entry pk db nm (int k)) [0..<nat (obs_count pk db nm)]"

lemma length_obs_list [simp]: "length (obs_list pk db nm) = nat (obs_count pk db nm)"
  by (simp add: obs_list_def)

lemma nth_obs_list [simp]: "k < nat (obs_count pk db nm) \<Longrightarrow> obs_list pk db nm ! k = obs_entry pk db nm (int k)"
  by (simp add: obs_list_def)

context storage
begin

lemma getString_peek [db_simps]: "invar db \<Longrightarrow> getString S db k = peek db (key_path k)"
  by (simp add: getString_def get_string)

lemma getCount_peek [db_simps]: "invar db \<Longrightarrow> getCount S db k = num_of (peek db (key_path k))"
  by (simp add: getCount_def get_int)

lemma getCount_obs: "invar db \<Longrightarrow> getCount S db (key_count c) = obs_count peek db (vh_name c)"
  by (simp add: obs_count_def db_simps path_simps)

lemma read_entry:
  "invar db \<Longrightarrow> getString S db (key_client c i) = fst (obs_entry peek db (vh_name c) i)"
  "invar db \<Longrightarrow> getString S db (key_metadata c i) = snd (obs_entry peek db (vh_name c) i)"
  by (simp_all add: obs_entry_def db_simps path_simps)

lemmas peek_rules = invar_set invar_delete peek_set peek_delete path_simps key_path_byMetadata key_path_byId

lemma RegisterObservation_spec:
  assumes "invar db" and "0 \<le> obs_count peek db (vh_name c)" and "obs_count peek db (vh_name c) < 2 ^ 63 - 1"
    and "RegisterObservation S True c cid md db = (db', oid)"
  shows "invar db'" and "obs_list peek db' (vh_name c) = obs_list peek db (vh_name c) @ [(cid, md)]"
    and "oid = strconv_Itoa (obs_count peek db (vh_name c))"
    and "\<And>p. \<not> prefix (obs_root (vh_name c)) p \<Longrightarrow> peek db' p = peek db p"
    and "IsClientObserving S c cid md db'"
proof -
  let ?n = "obs_count peek db (vh_name c)" and ?o = "obs_root (vh_name c)"
  have db': "db' = iSet S (iSet S (iSet S (iSet S db (key_client c ?n) (NewDynamicVar_string cid))
      (key_metadata c ?n) (NewDynamicVar_string md)) (key_byMetadata c cid md) (NewDynamicVar_int ?n))
      (key_count c) (NewDynamicVar_int (wrap64 (?n + 1)))" and "oid = strconv_Itoa ?n"
    using assms(1,4) by (auto simp: RegisterObservation_def runLocked_def Let_def getCount_obs)
  have range: "int64_range (?n + 1)" using assms(2,3) by (simp add: int64_range_def)
  have count: "obs_count peek db' (vh_name c) = ?n + 1"
    using assms(1) range by (simp add: db' obs_count_def [of _ "iSet _ _ _ _"] peek_rules)
  have entry: "obs_entry peek db' (vh_name c) k = (if k = ?n then (cid, md) else obs_entry peek db (vh_name c) k)" for k
    using assms(1) by (simp add: db' obs_entry_def peek_rules)
  show "invar db'" using assms(1) by (simp add: db' invar_set)
  show "oid = strconv_Itoa ?n" by fact
  have "nat (?n + 1) = Suc (nat ?n)" using assms(2) by simp
  then show "obs_list peek db' (vh_name c) = obs_list peek db (vh_name c) @ [(cid, md)]"
    using assms(2) by (auto simp: obs_list_def count entry)
  show "peek db' p = peek db p" if "\<not> prefix ?o p" for p
    using that assms(1) by (auto simp: db' peek_rules)
  show "IsClientObserving S c cid md db'"
    using assms(1) by (simp add: db' IsClientObserving_def has_value invar_set node_set)
qed

lemma shift_left_spec:
  "invar db \<Longrightarrow> 0 \<le> j \<Longrightarrow>
   invar (shift_left S c j lim db) \<and>
   obs_count peek (shift_left S c j lim db) (vh_name c) = obs_count peek db (vh_name c) \<and>
   (\<forall>k. obs_entry peek (shift_left S c j lim db) (vh_name c) k =
      (if j \<le> k \<and> k < lim then obs_entry peek db (vh_name c) (k + 1) else obs_entry peek db (vh_name c) k)) \<and>
   (\<forall>p. \<not> prefix (obs_root (vh_name c)) p \<longrightarrow> peek (shift_left S c j lim db) p = peek db p)"
proof (induction "nat (lim - j)" arbitrary: j db)
  case 0
  then show ?case by (auto simp: shift_left.simps [of S c j])
next
  case (Suc d)
  let ?e = "obs_entry peek db (vh_name c) (j + 1)"
  let ?db = "iSet S (iSet S (iSet S db (key_client c j) (NewDynamicVar_string (fst ?e)))
      (key_metadata c j) (NewDynamicVar_string (snd ?e)))
      (key_byMetadata c (fst ?e) (snd ?e)) (NewDynamicVar_int j)"
  have lt: "j < lim" and d: "d = nat (lim - (j + 1))" using Suc.hyps(2) by auto
  have step: "shift_left S c j lim db = shift_left S c (j + 1) lim ?db"
    using lt Suc.prems(1) by (simp add: shift_left.simps [of S c j] Let_def read_entry)
  have inv: "invar ?db" using Suc.prems(1) by (simp add: invar_set)
  have count: "obs_count peek ?db (vh_name c) = obs_count peek db (vh_name c)"
    using Suc.prems(1) by (simp add: obs_count_def peek_rules)
  have entry: "obs_entry peek ?db (vh_name c) k = (if k = j then ?e else obs_entry peek db (vh_name c) k)" for k
    using Suc.prems(1) by (simp add: obs_entry_def [of _ "iSet _ _ _ _"] peek_rules) (simp add: obs_entry_def)
  have frame: "peek ?db p = peek db p" if "\<not> prefix (obs_root (vh_name c)) p" for p
    using that Suc.prems(1) by (auto simp: peek_rules)
  note IH = Suc.hyps(1) [OF d inv]
  show ?case
    unfolding step using IH Suc.prems(2) lt by (auto simp: count entry frame)
qed

lemma remove_at_spec:
  assumes "invar db" and "0 \<le> i" and "i \<le> lst" and "obs_count peek db (vh_name c) = lst + 1"
    and db': "db' = iDeleteValue S (iSet S (iDeleteValue S (shift_left S c i lst db) (key_entry c lst) True)
      (key_count c) (NewDynamicVar_int lst)) (key_byId c cid) True"
  shows "invar db'"
    and "obs_list peek db' (vh_name c) =
      take (nat i) (obs_list peek db (vh_name c)) @ drop (Suc (nat i)) (obs_list peek db (vh_name c))"
    and "\<And>p. \<not> prefix (obs_root (vh_name c)) p \<Longrightarrow> peek db' p = peek db p"
    and "0 \<le> obs_count peek db' (vh_name c)"
proof -
  let ?s = "shift_left S c i lst db" and ?o = "obs_root (vh_name c)"
  note sh = shift_left_spec [OF assms(1,2), of c lst]
  have inv: "invar ?s" using sh by blast
  then show "invar db'" by (simp add: db' invar_set invar_delete)
  have "int64_range (obs_count peek db (vh_name c))" by (simp add: obs_count_def)
  then have range: "int64_range lst" using assms(2,3,4) by (simp add: int64_range_def)
  have count: "obs_count peek db' (vh_name c) = lst"
    using inv range by (simp add: db' obs_count_def peek_rules)
  then show "0 \<le> obs_count peek db' (vh_name c)" using assms(2,3) by simp
  have entry: "obs_entry peek db' (vh_name c) k = obs_entry peek ?s (vh_name c) k" if "k \<noteq> lst" for k
    using inv that by (simp add: db' obs_entry_def peek_rules)
  show "peek db' p = peek db p" if "\<not> prefix ?o p" for p
  proof -
    have "\<not> prefix (?o @ q) p" "p \<noteq> ?o @ q" for q using that by (auto dest: append_prefixD)
    with that inv sh show ?thesis by (simp add: db' peek_rules)
  qed
  show "obs_list peek db' (vh_name c) =
      take (nat i) (obs_list peek db (vh_name c)) @ drop (Suc (nat i)) (obs_list peek db (vh_name c))"
  proof (rule nth_equalityI)
    show "length (obs_list peek db' (vh_name c)) =
      length (take (nat i) (obs_list peek db (vh_name c)) @ drop (Suc (nat i)) (obs_list peek db (vh_name c)))"
      using assms(2,3,4) count by simp
    fix k
    assume "k < length (obs_list peek db' (vh_name c))"
    then have k: "k < nat lst" using count by simp
    then have "obs_list peek db' (vh_name c) ! k = obs_entry peek ?s (vh_name c) (int k)"
      using count entry [of "int k"] by simp
    also have "\<dots> = (if i \<le> int k then obs_entry peek db (vh_name c) (int k + 1) else obs_entry peek db (vh_name c) (int k))"
      using sh k by (auto simp: nat_less_iff less_nat_zero_code zless_nat_eq_int_zless)
    also have "\<dots> = (take (nat i) (obs_list peek db (vh_name c)) @ drop (Suc (nat i)) (obs_list peek db (vh_name c))) ! k"
      using assms(2,3,4) k by (auto simp: nth_append min_def add.commute)
    finally show "obs_list peek db' (vh_name c) ! k = \<dots>" .
  qed
qed

lemma remove_from_spec:
  assumes "invar db" and "i \<le> lst" and "- 1 \<le> i" and "obs_count peek db (vh_name c) = lst + 1" and "0 \<le> lst + 1"
    and "(cid, md) \<notin> set (drop (nat (i + 1)) (obs_list peek db (vh_name c)))"
  shows "invar (remove_from S c cid md lst i db) \<and>
    obs_list peek (remove_from S c cid md lst i db) (vh_name c) = remove_last (cid, md) (obs_list peek db (vh_name c)) \<and>
    (\<forall>p. \<not> prefix (obs_root (vh_name c)) p \<longrightarrow> peek (remove_from S c cid md lst i db) p = peek db p) \<and>
    0 \<le> obs_count peek (remove_from S c cid md lst i db) (vh_name c)"
  using assms
proof (induction "nat (i + 1)" arbitrary: i)
  case 0
  then have "i = - 1" by simp
  with 0 show ?case by (simp add: remove_from.simps [of S c cid md lst "- 1"])
next
  case (Suc d)
  let ?xs = "obs_list peek db (vh_name c)"
  have i: "0 \<le> i" "d = nat i" "nat (i + 1) = Suc d" using Suc.hyps(2) by auto
  have len: "d < length ?xs" using i Suc.prems(2,4) by simp
  have nth: "?xs ! d = obs_entry peek db (vh_name c) i" using i len by simp
  have split: "?xs = take d ?xs @ ?xs ! d # drop (Suc d) ?xs" using len by (rule id_take_nth_drop)
  show ?case
  proof (cases "obs_entry peek db (vh_name c) i = (cid, md)")
    case True
    have "remove_from S c cid md lst i db =
        iDeleteValue S (iSet S (iDeleteValue S (shift_left S c i lst db) (key_entry c lst) True)
          (key_count c) (NewDynamicVar_int lst)) (key_byId c cid) True"
      using i(1) True Suc.prems(1) by (simp add: remove_from.simps [of S c cid md lst i] read_entry Let_def)
    note res = remove_at_spec [OF Suc.prems(1) i(1) Suc.prems(2,4) this]
    have "remove_last (cid, md) (take d ?xs @ (cid, md) # drop (Suc d) ?xs) = take d ?xs @ drop (Suc d) ?xs"
      using Suc.prems(6) i(3) by (intro remove_last_split) simp
    then have "remove_last (cid, md) ?xs = take d ?xs @ drop (Suc d) ?xs"
      using split nth True by metis
    with res i(2) show ?thesis by auto
  next
    case False
    have step: "remove_from S c cid md lst i db = remove_from S c cid md lst (i - 1) db"
      using i(1) False Suc.prems(1)
      by (auto simp: remove_from.simps [of S c cid md lst i] read_entry prod_eq_iff)
    have "(cid, md) \<notin> set (drop d ?xs)"
      using Suc.prems(6) i(3) False nth Cons_nth_drop_Suc [OF len] by (metis set_ConsD)
    then show ?thesis
      unfolding step using Suc.prems i by (intro Suc.hyps(1)) auto
  qed
qed

lemma internalRemoveObserving_spec:
  assumes "invar db" and "0 \<le> obs_count peek db (vh_name c)"
  shows "invar (internalRemoveObserving S c cid md db)"
    and "obs_list peek (internalRemoveObserving S c cid md db) (vh_name c) =
      remove_last (cid, md) (obs_list peek db (vh_name c))"
    and "\<And>p. \<not> prefix (obs_root (vh_name c)) p \<Longrightarrow> peek (internalRemoveObserving S c cid md db) p = peek db p"
    and "0 \<le> obs_count peek (internalRemoveObserving S c cid md db) (vh_name c)"
proof -
  let ?n = "obs_count peek db (vh_name c)"
  have "int64_range ?n" by (simp add: obs_count_def)
  then have "int64_range (?n - 1)" using assms(2) by (simp add: int64_range_def)
  then have "internalRemoveObserving S c cid md db = remove_from S c cid md (?n - 1) (?n - 1) db"
    using assms(1) by (simp add: internalRemoveObserving_def getCount_obs Let_def)
  with remove_from_spec [of db "?n - 1" "?n - 1" c cid md] assms
  show "invar (internalRemoveObserving S c cid md db)"
    and "obs_list peek (internalRemoveObserving S c cid md db) (vh_name c) =
      remove_last (cid, md) (obs_list peek db (vh_name c))"
    and "\<And>p. \<not> prefix (obs_root (vh_name c)) p \<Longrightarrow> peek (internalRemoveObserving S c cid md db) p = peek db p"
    and "0 \<le> obs_count peek (internalRemoveObserving S c cid md db) (vh_name c)"
    by auto
qed

lemma remove_all_from_spec:
  assumes "invar db" and "0 \<le> obs_count peek db (vh_name c)" and "- 1 \<le> i" and "i < obs_count peek db (vh_name c)"
    and "\<forall>e \<in> set (drop (nat (i + 1)) (obs_list peek db (vh_name c))). fst e \<noteq> cid"
  shows "invar (remove_all_from S c cid i db) \<and>
    obs_list peek (remove_all_from S c cid i db) (vh_name c) =
      filter (\<lambda>e. fst e \<noteq> cid) (obs_list peek db (vh_name c)) \<and>
    (\<forall>p. \<not> prefix (obs_root (vh_name c)) p \<longrightarrow> peek (remove_all_from S c cid i db) p = peek db p) \<and>
    0 \<le> obs_count peek (remove_all_from S c cid i db) (vh_name c)"
  using assms
proof (induction "nat (i + 1)" arbitrary: i db)
  case 0
  then have "i = - 1" by simp
  with 0 show ?case by (simp add: remove_all_from.simps [of S c cid "- 1"] filter_id_conv)
next
  case (Suc d)
  let ?xs = "obs_list peek db (vh_name c)"
  have i: "0 \<le> i" "d = nat i" "nat (i + 1) = Suc d" "d = nat (i - 1 + 1)" using Suc.hyps(2) by auto
  have len: "d < length ?xs" using i Suc.prems(4) by simp
  have nth: "?xs ! d = obs_entry peek db (vh_name c) i" using i len by simp
  have split: "?xs = take d ?xs @ ?xs ! d # drop (Suc d) ?xs" using len by (rule id_take_nth_drop)
  show ?case
  proof (cases "fst (obs_entry peek db (vh_name c) i) = cid")
    case True
    let ?db = "internalRemoveObserving S c cid (snd (obs_entry peek db (vh_name c) i)) db"
    have step: "remove_all_from S c cid i db = remove_all_from S c cid (i - 1) ?db"
      using i(1) True Suc.prems(1) by (simp add: remove_all_from.simps [of S c cid i] read_entry Let_def)
    note rem = internalRemoveObserving_spec [OF Suc.prems(1,2), where cid = cid and md = "snd (obs_entry peek db (vh_name c) i)"]
    have "?xs ! d \<notin> set (drop (Suc d) ?xs)" using Suc.prems(5) i(3) True nth by auto
    then have "remove_last (?xs ! d) (take d ?xs @ ?xs ! d # drop (Suc d) ?xs) = take d ?xs @ drop (Suc d) ?xs"
      by (rule remove_last_split)
    then have ys: "obs_list peek ?db (vh_name c) = take d ?xs @ drop (Suc d) ?xs"
      using rem(2) split nth True by (metis prod.collapse)
    have cnt: "nat (obs_count peek ?db (vh_name c)) = nat (obs_count peek db (vh_name c)) - 1"
      using arg_cong [OF ys, of length] len by simp
    have "filter (\<lambda>e. fst e \<noteq> cid) (obs_list peek ?db (vh_name c)) = filter (\<lambda>e. fst e \<noteq> cid) ?xs"
      unfolding ys using True nth by (subst (3) split) simp
    moreover have "invar (remove_all_from S c cid (i - 1) ?db) \<and>
      obs_list peek (remove_all_from S c cid (i - 1) ?db) (vh_name c) =
        filter (\<lambda>e. fst e \<noteq> cid) (obs_list peek ?db (vh_name c)) \<and>
      (\<forall>p. \<not> prefix (obs_root (vh_name c)) p \<longrightarrow> peek (remove_all_from S c cid (i - 1) ?db) p = peek ?db p) \<and>
      0 \<le> obs_count peek (remove_all_from S c cid (i - 1) ?db) (vh_name c)"
    proof (rule Suc.hyps(1) [OF i(4) rem(1)])
      show "0 \<le> obs_count peek ?db (vh_name c)" by (rule rem(4))
      then show "i - 1 < obs_count peek ?db (vh_name c)" using cnt Suc.prems(2,4) i(1) by linarith
      show "\<forall>e \<in> set (drop (nat (i - 1 + 1)) (obs_list peek ?db (vh_name c))). fst e \<noteq> cid"
        unfolding ys using Suc.prems(5) i len by auto
    qed (use i(1) in simp)
    ultimately show ?thesis unfolding step using rem(3) by simp
  next
    case False
    have step: "remove_all_from S c cid i db = remove_all_from S c cid (i - 1) db"
      using i(1) False Suc.prems(1) by (simp add: remove_all_from.simps [of S c cid i] read_entry Let_def)
    have "\<forall>e \<in> set (drop d ?xs). fst e \<noteq> cid"
      using Suc.prems(5) i(3) False nth Cons_nth_drop_Suc [OF len] by (metis set_ConsD)
    then show ?thesis
      unfolding step using Suc.prems i by (intro Suc.hyps(1)) auto
  qed
qed


lemma RegisterObservation_step:
  assumes "invar db" and "obs_count peek db (vh_name c) = int n" and "int n < 2 ^ 63 - 1"
    and "db' = fst (RegisterObservation S True c cid md db)"
  shows "invar db' \<and> obs_count peek db' (vh_name c) = int (Suc n) \<and>
    obs_list peek db' (vh_name c) = obs_list peek db (vh_name c) @ [(cid, md)]"
proof -
  note reg = RegisterObservation_spec [of db c cid md db' "snd (RegisterObservation S True c cid md db)"]
  have "length (obs_list peek db' (vh_name c)) = Suc n" using reg(2) assms by simp
  then show ?thesis using reg(1,2) assms by (simp add: nat_eq_iff split: if_splits)
qed

lemma RemoveAllClientObservations_spec:
  assumes "invar db" and "0 \<le> obs_count peek db (vh_name c)" and db': "db' = RemoveAllClientObservations S True c cid db"
  shows "invar db'"
    and "obs_list peek db' (vh_name c) = filter (\<lambda>e. fst e \<noteq> cid) (obs_list peek db (vh_name c))"
    and "\<And>p. \<not> prefix (obs_root (vh_name c)) p \<Longrightarrow> peek db' p = peek db p"
    and "0 \<le> obs_count peek db' (vh_name c)"
proof -
  let ?n = "obs_count peek db (vh_name c)"
  have "int64_range ?n" by (simp add: obs_count_def)
  then have "int64_range (?n - 1)" using assms(2) by (simp add: int64_range_def)
  then have "db' = remove_all_from S c cid (?n - 1) db"
    using assms(1) by (simp add: db' RemoveAllClientObservations_def runLocked_def getCount_obs)
  with remove_all_from_spec [of db c "?n - 1" cid] assms(1,2)
  show "invar db'"
    and "obs_list peek db' (vh_name c) = filter (\<lambda>e. fst e \<noteq> cid) (obs_list peek db (vh_name c))"
    and "\<And>p. \<not> prefix (obs_root (vh_name c)) p \<Longrightarrow> peek db' p = peek db p"
    and "0 \<le> obs_count peek db' (vh_name c)"
    by auto
qed

lemma GetAllObservingClients_spec:
  assumes "invar db"
  shows "GetAllObservingClients S True c db =
    map (\<lambda>(k, e). (strconv_Itoa (int k), e))
      (filter (\<lambda>(k, e). fst e \<noteq> []) (enumerate 0 (obs_list peek db (vh_name c))))"
proof -
  let ?n = "obs_count peek db (vh_name c)" and ?e = "\<lambda>i. obs_entry peek db (vh_name c) i"
  have enum: "enumerate 0 (obs_list peek db (vh_name c)) = map (\<lambda>k. (k, ?e (int k))) [0..<nat ?n]"
    by (rule nth_equalityI) (simp_all add: nth_enumerate_eq)
  have "GetAllObservingClients S True c db =
      List.map_filter (\<lambda>i. if fst (?e i) \<noteq> [] then Some (strconv_Itoa i, ?e i) else None) [0..?n - 1]"
    using assms by (simp add: GetAllObservingClients_def runLocked_def getCount_obs read_entry Let_def cong: if_cong)
  then show ?thesis
    unfolding enum upto_int by (simp add: List.map_filter_def filter_map comp_def cong: filter_cong)
qed

lemma RemoveAllObservations_spec:
  assumes "invar db"
  shows "invar (RemoveAllObservations S True c db)"
    and "obs_list peek (RemoveAllObservations S True c db) (vh_name c) = []"
    and "\<And>cid md. \<not> IsClientObserving S c cid md (RemoveAllObservations S True c db)"
proof -
  let ?d = "iDeleteValue S db (vh_name c @ ''._observers'') True"
  have key: "key_path (vh_name c @ ''._observers'') = obs_root (vh_name c)"
    using key_path_append_dot [of "''_observers''" "vh_name c"] by (simp add: obs_root_def path_simps)
  have db': "RemoveAllObservations S True c db = iSet S ?d (key_count c) (NewDynamicVar_int 0)"
    by (simp add: RemoveAllObservations_def runLocked_def)
  have inv: "invar ?d" using assms by (rule invar_delete)
  then show "invar (RemoveAllObservations S True c db)" by (simp add: db' invar_set)
  show "obs_list peek (RemoveAllObservations S True c db) (vh_name c) = []"
    using inv by (simp add: db' obs_list_def obs_count_def peek_set path_simps int64_range_def)
  show "\<not> IsClientObserving S c cid md (RemoveAllObservations S True c db)" for cid md
    using inv assms
    by (simp add: db' IsClientObserving_def has_value invar_set node_set node_delete key key_path_byMetadata path_simps)
qed

text \<open>The index below \<open>byId\<close> loses all the metadatas of the client, not only the removed one.\<close>

lemma removal_drops_index:
  assumes "invar db" and "0 \<le> i" and "i \<le> lst" and "getString S db (key_client c i) = cid"
    and "getString S db (key_metadata c i) = md"
  shows "\<not> IsClientObserving S c cid md' (remove_from S c cid md lst i db)"
proof -
  let ?d = "iSet S (iDeleteValue S (shift_left S c i lst db) (key_entry c lst) True) (key_count c) (NewDynamicVar_int lst)"
  have "remove_from S c cid md lst i db = iDeleteValue S ?d (key_byId c cid) True"
    using assms(2,4,5) by (simp add: remove_from.simps [of S c cid md lst i] Let_def)
  moreover have "invar ?d" using shift_left_spec [OF assms(1,2)] by (simp add: invar_set invar_delete)
  moreover have "prefix (key_path cid) (parts cid @ q)" for q
    using prefix_append [of "butlast (parts cid)" "[last (parts cid)]"]
    by (auto simp: key_path_parts butlast_conv_take take_is_prefix intro: prefix_order.trans)
  ultimately show ?thesis
    by (auto simp: IsClientObserving_def has_value invar_delete node_delete key_path_byMetadata key_path_byId)
qed

lemma GetMetadatasOfAClient_empty:
  assumes "invar db"
  shows "GetMetadatasOfAClient S c cid db = []"
proof -
  let ?k = "vh_name c @ ''._observers.byId.'' @ cid @ ''.byMetadata''"
  have "CHR ''.'' \<notin> set k" if "k \<in> set (iGetChilds S db ?k)" for k
  proof -
    have "has_node db (key_path ?k @ [k])" using that childs [OF assms, of ?k] by simp
    then show ?thesis using node_no_dot [OF assms, of "key_path ?k @ [k]" k] by simp
  qed
  then show ?thesis
    by (auto simp: GetMetadatasOfAClient_def List.map_filter_def filter_empty_conv strings_IndexByte_None)
qed

section \<open>The variable lock as a flag of the storage\<close>

lemma key_path_lock: "key_path (vh_name c @ ''.'' @ flag_name ''lock'') = parts (vh_name c) @ [''_lock'']"
  using key_path_append_dot [of "''_lock''" "vh_name c"] by (simp add: flag_name_def path_simps)

lemma IsLocked_peek:
  "invar db \<Longrightarrow> IsLocked S c db \<longleftrightarrow> peek db (parts (vh_name c) @ [''_lock'']) \<notin> {[], ''0''}"
  using key_path_lock [of c] peek_no_node [of db "parts (vh_name c) @ [''_lock'']"]
  by (auto simp: IsLocked_def GetFlag_def get_value Let_def)

lemma lock_flag_set:
  "invar db \<Longrightarrow> invar (SetFlag S c ''lock'' v db)"
  "invar db \<Longrightarrow> IsLocked S c (SetFlag S c ''lock'' v db) \<longleftrightarrow> GetString v \<notin> {[], ''0''}"
  "invar db \<Longrightarrow> p \<noteq> parts (vh_name c) @ [''_lock''] \<Longrightarrow> peek (SetFlag S c ''lock'' v db) p = peek db p"
  using key_path_lock [of c] by (simp_all add: IsLocked_peek SetFlag_def invar_set peek_set)

lemma tryLock_spec:
  "invar db \<Longrightarrow> tryLock S c db =
    (if IsLocked S c db then (False, db) else (True, SetFlag S c ''lock'' (NewDynamicVar_string ''1'') db))"
  by (simp add: tryLock_def lock_flag_set Let_def)

lemma lock_loop_spec:
  assumes "invar db" and "\<forall>t \<in> set sched. \<forall>d. invar d \<longrightarrow> invar (snd t d)"
    and "lock_loop S c m sched db = Some (err, db')"
  shows "invar db' \<and> IsLocked S c db' \<and> err \<in> {None, Some ''timeout reached''}"
  using assms
proof (induction sched arbitrary: db)
  case (Cons t sched)
  obtain e f where t: "t = (e, f)" by fastforce
  have "invar (f db)" using Cons.prems(1,2) by (simp add: t)
  with Cons show ?case
    by (auto simp: t tryLock_spec lock_flag_set split: if_splits)
qed simp

end

lemma lock_loop_returns:
  assumes "t \<in> set sched" and "m \<le> fst t"
  shows "\<exists>res. lock_loop S c m sched db = Some res"
  using assms
proof (induction sched arbitrary: db)
  case (Cons u sched)
  then show ?case by (cases u) (auto split: prod.splits)
qed simp

section \<open>Properties\<close>

text \<open>\<open>RegisterObservation\<close> appends the client and its metadata to the variable's list of observers,
  returns the index of the new entry, makes \<open>IsClientObserving\<close> true for it and touches nothing outside
  the variable's observer keys.\<close>

theorem RegisterObservation_appends:
  assumes "db_wf r" and "0 \<le> obs_count db_peek r (vh_name c)" and "obs_count db_peek r (vh_name c) < 2 ^ 63 - 1"
    and "RegisterObservation ramStorage True c cid md r = (r', oid)"
  shows "db_wf r' \<and> obs_list db_peek r' (vh_name c) = obs_list db_peek r (vh_name c) @ [(cid, md)] \<and>
    oid = strconv_Itoa (obs_count db_peek r (vh_name c)) \<and> IsClientObserving ramStorage c cid md r' \<and>
    (\<forall>p. \<not> prefix (obs_root (vh_name c)) p \<longrightarrow> db_peek r' p = db_peek r p)"
  using ram.RegisterObservation_spec [OF assms] by blast

definition var_a :: ControllerVarHelper where
  "var_a = SetControlledVarName ''a'' (NewControllerVarHelper False)"

text \<open>Client \<open>c1\<close> observes \<open>vars.a\<close> with the metadatas \<open>m\<close> and \<open>n\<close>, client \<open>c2\<close> with \<open>m\<close>.\<close>

definition observed_db :: RamCacheDB where
  "observed_db =
     fst (RegisterObservation ramStorage True var_a ''c1'' ''n''
       (fst (RegisterObservation ramStorage True var_a ''c2'' ''m''
         (fst (RegisterObservation ramStorage True var_a ''c1'' ''m'' one_var_db)))))"

lemma var_a_name [simp]: "vh_name var_a = ''vars.a''"
  by (simp add: var_a_def SetControlledVarName_def NewControllerVarHelper_def strings_HasPrefix_def)

lemma one_var_unobserved: "obs_count db_peek one_var_db ''vars.a'' = 0"
  by (simp add: obs_count_def db_peek_def obs_root_def one_var_db_def value_at_def parts_def)

lemma observed_db_props:
  "db_wf observed_db \<and> obs_count db_peek observed_db ''vars.a'' = 3 \<and>
   obs_list db_peek observed_db ''vars.a'' = [(''c1'', ''m''), (''c2'', ''m''), (''c1'', ''n'')]"
proof -
  let ?reg = "\<lambda>cid md r. fst (RegisterObservation ramStorage True var_a cid md r)"
  let ?r1 = "?reg ''c1'' ''m'' one_var_db"
  have r1: "db_wf ?r1 \<and> obs_count db_peek ?r1 ''vars.a'' = 1 \<and> obs_list db_peek ?r1 ''vars.a'' = [(''c1'', ''m'')]"
    using ram.RegisterObservation_step [OF one_var_db_wf _ _ refl, of var_a 0 "''c1''" "''m''"]
    by (simp add: one_var_unobserved obs_list_def [of _ one_var_db])
  let ?r2 = "?reg ''c2'' ''m'' ?r1"
  have r2: "db_wf ?r2 \<and> obs_count db_peek ?r2 ''vars.a'' = 2 \<and>
      obs_list db_peek ?r2 ''vars.a'' = [(''c1'', ''m''), (''c2'', ''m'')]"
    using ram.RegisterObservation_step [OF _ _ _ refl, of ?r1 var_a 1 "''c2''" "''m''"] r1 by simp
  show ?thesis
    using ram.RegisterObservation_step [OF _ _ _ refl, of ?r2 var_a 2 "''c1''" "''n''"] r2
    by (simp add: observed_db_def)
qed

lemma observed_db_wf [simp]: "db_wf observed_db"
  and observed_count: "obs_count db_peek observed_db ''vars.a'' = 3"
  and observed_list: "obs_list db_peek observed_db ''vars.a'' = [(''c1'', ''m''), (''c2'', ''m''), (''c1'', ''n'')]"
  using observed_db_props by blast+

theorem RegisterObservation_appends_witness:
  "obs_list db_peek (fst (RegisterObservation ramStorage True var_a ''c9'' ''z'' observed_db)) ''vars.a'' =
    [(''c1'', ''m''), (''c2'', ''m''), (''c1'', ''n''), (''c9'', ''z'')]"
  using RegisterObservation_appends [OF observed_db_wf, of var_a "''c9''" "''z''", OF _ _ prod.collapse [symmetric]]
  by (simp add: observed_list observed_count)

text \<open>C19. \<open>RemoveObservationByClientAndMetadata\<close> removes exactly the most recent observation of that client
  with that metadata from the variable's list and keeps the order of the others; without such an
  observation the list stays as it is. Nothing outside the variable's observer keys changes.\<close>

theorem RemoveObservation_removes_last:
  assumes "db_wf r" and "0 \<le> obs_count db_peek r (vh_name c)"
    and "r' = RemoveObservationByClientAndMetadata ramStorage True c cid md r"
  shows "db_wf r' \<and> obs_list db_peek r' (vh_name c) = remove_last (cid, md) (obs_list db_peek r (vh_name c)) \<and>
    (\<forall>p. \<not> prefix (obs_root (vh_name c)) p \<longrightarrow> db_peek r' p = db_peek r p)"
  using ram.internalRemoveObserving_spec [OF assms(1,2)] assms(3)
  by (simp add: RemoveObservationByClientAndMetadata_def runLocked_def)

theorem RemoveObservation_removes_last_witness:
  "obs_list db_peek (RemoveObservationByClientAndMetadata ramStorage True var_a ''c1'' ''m'' observed_db) ''vars.a'' =
    [(''c2'', ''m''), (''c1'', ''n'')]"
  using RemoveObservation_removes_last [OF observed_db_wf, of var_a _ "''c1''" "''m''", OF _ refl]
  by (simp add: observed_list observed_count remove_last_def)

text \<open>\<open>RemoveAllClientObservations\<close>, which removes entries while it walks the list from its end, leaves
  exactly the observations of the other clients, in their order.\<close>

theorem RemoveAllClientObservations_filters:
  assumes "db_wf r" and "0 \<le> obs_count db_peek r (vh_name c)"
    and "r' = RemoveAllClientObservations ramStorage True c cid r"
  shows "db_wf r' \<and> obs_list db_peek r' (vh_name c) = filter (\<lambda>e. fst e \<noteq> cid) (obs_list db_peek r (vh_name c)) \<and>
    (\<forall>p. \<not> prefix (obs_root (vh_name c)) p \<longrightarrow> db_peek r' p = db_peek r p)"
  using ram.RemoveAllClientObservations_spec [OF assms] by blast

theorem RemoveAllClientObservations_filters_witness:
  "obs_list db_peek (RemoveAllClientObservations ramStorage True var_a ''c1'' observed_db) ''vars.a'' = [(''c2'', ''m'')]"
  using RemoveAllClientObservations_filters [OF observed_db_wf, of var_a _ "''c1''", OF _ refl]
  by (simp add: observed_list observed_count)

text \<open>\<open>GetAllObservingClients\<close> returns one entry for each observation of the list, under its index in
  the list as observation id; only entries without a client id are left out.\<close>

theorem GetAllObservingClients_lists:
  assumes "db_wf r"
  shows "GetAllObservingClients ramStorage True c r =
    map (\<lambda>(k, e). (strconv_Itoa (int k), e))
      (filter (\<lambda>(k, e). fst e \<noteq> []) (enumerate 0 (obs_list db_peek r (vh_name c))))"
  using assms by (rule ram.GetAllObservingClients_spec)

theorem GetAllObservingClients_lists_witness:
  "map snd (GetAllObservingClients ramStorage True var_a observed_db) = [(''c1'', ''m''), (''c2'', ''m''), (''c1'', ''n'')]"
  using GetAllObservingClients_lists [OF observed_db_wf, of var_a] by (simp add: observed_list)

text \<open>The index by client forgets too much: removing one observation of a client (the last entry
  of the list here) makes \<open>IsClientObserving\<close> false for every metadata of this client, also for those it
  still observes with; and \<open>GetMetadatasOfAClient\<close> is empty in every database, because it expects full key
  names from \<open>GetChilds\<close>.\<close>

theorem client_index_loses_metadatas:
  assumes "db_wf r" and "obs_list db_peek r (vh_name c) = es @ [(cid, md)]"
  shows "(\<forall>md'. \<not> IsClientObserving ramStorage c cid md' (RemoveObservationByClientAndMetadata ramStorage True c cid md r)) \<and>
    GetMetadatasOfAClient ramStorage c cid r = []"
proof -
  let ?n = "obs_count db_peek r (vh_name c)" and ?l = "int (length es)"
  have "length (obs_list db_peek r (vh_name c)) = Suc (length es)" using assms(2) by simp
  then have n: "?n = ?l + 1" by simp
  then have "obs_list db_peek r (vh_name c) ! length es = obs_entry db_peek r (vh_name c) ?l" by simp
  then have e: "obs_entry db_peek r (vh_name c) ?l = (cid, md)" using assms(2) by simp
  have "int64_range ?n" by (simp add: obs_count_def)
  then have "int64_range ?l" using n by (simp add: int64_range_def)
  then have "RemoveObservationByClientAndMetadata ramStorage True c cid md r = remove_from ramStorage c cid md ?l ?l r"
    using assms(1) n
    by (simp add: RemoveObservationByClientAndMetadata_def runLocked_def internalRemoveObserving_def ram.getCount_obs Let_def)
  then show ?thesis
    using ram.removal_drops_index [OF assms(1), of ?l ?l c cid md] ram.read_entry [OF assms(1), of c ?l] e
      ram.GetMetadatasOfAClient_empty [OF assms(1)]
    by simp
qed

theorem client_index_loses_metadatas_witness:
  "(let r = RemoveObservationByClientAndMetadata ramStorage True var_a ''c1'' ''n'' observed_db
    in (''c1'', ''m'') \<in> set (obs_list db_peek r ''vars.a'') \<and> \<not> IsClientObserving ramStorage var_a ''c1'' ''m'' r)"
proof -
  have "(''c1'', ''m'') \<in> set (obs_list db_peek
      (RemoveObservationByClientAndMetadata ramStorage True var_a ''c1'' ''n'' observed_db) ''vars.a'')"
    using ram.internalRemoveObserving_spec(2) [OF observed_db_wf, of var_a]
    by (simp add: RemoveObservationByClientAndMetadata_def runLocked_def observed_list observed_count remove_last_def)
  moreover have "obs_list db_peek observed_db (vh_name var_a) = [(''c1'', ''m''), (''c2'', ''m'')] @ [(''c1'', ''n'')]"
    by (simp add: observed_list)
  ultimately show ?thesis
    using client_index_loses_metadatas [OF observed_db_wf, of var_a] by (simp add: Let_def)
qed

text \<open>The lock of a variable excludes: after a successful attempt the variable is locked and every further
  attempt fails and changes nothing, until \<open>Unlock\<close>, after which an attempt succeeds again. No other key
  changes.\<close>

theorem tryLock_excludes_until_Unlock:
  assumes "db_wf r" and "tryLock ramStorage c r = (True, r1)"
  shows "db_wf r1 \<and> \<not> IsLocked ramStorage c r \<and> IsLocked ramStorage c r1 \<and> tryLock ramStorage c r1 = (False, r1) \<and>
    \<not> IsLocked ramStorage c (vh_Unlock ramStorage c r1) \<and> fst (tryLock ramStorage c (vh_Unlock ramStorage c r1)) \<and>
    (\<forall>p. p \<noteq> parts (vh_name c) @ [''_lock''] \<longrightarrow> db_peek r1 p = db_peek r p)"
proof -
  have r1: "\<not> IsLocked ramStorage c r" "r1 = SetFlag ramStorage c ''lock'' (NewDynamicVar_string ''1'') r"
    using assms by (auto simp: ram.tryLock_spec split: if_splits)
  have "db_wf r1" and "IsLocked ramStorage c r1" using r1 assms(1) by (simp_all add: ram.lock_flag_set)
  then show ?thesis
    using r1 assms(1) by (auto simp: vh_Unlock_def ram.tryLock_spec ram.lock_flag_set)
qed

theorem tryLock_excludes_until_Unlock_witness:
  "\<not> fst (tryLock ramStorage var_a (snd (tryLock ramStorage var_a one_var_db)))"
proof -
  have "tryLock ramStorage var_a one_var_db = (True, snd (tryLock ramStorage var_a one_var_db))"
    by (simp add: prod_eq_iff) code_simp
  from tryLock_excludes_until_Unlock [OF one_var_db_wf this] show ?thesis by simp
qed

text \<open>C32. \<open>Lock\<close> returns: as soon as a failed attempt sees that the timeout has passed the call ends, whatever
  the other goroutines do to the database meanwhile; it ends with success or with the timeout error, and
  in both cases the variable is locked then.\<close>

theorem Lock_returns:
  assumes "db_wf r" and "\<forall>t \<in> set sched. \<forall>d. db_wf d \<longrightarrow> db_wf (snd t d)"
    and "t \<in> set sched" and "lock_max_timeout w \<le> fst t"
  shows "\<exists>err r'. vh_Lock ramStorage c w sched r = Some (err, r') \<and> db_wf r' \<and> IsLocked ramStorage c r' \<and>
    err \<in> {None, Some ''timeout reached''}"
proof -
  obtain err r' where res: "lock_loop ramStorage c (lock_max_timeout w) sched r = Some (err, r')"
    using lock_loop_returns [OF assms(3,4)] by force
  from ram.lock_loop_spec [OF assms(1,2) this] res show ?thesis by (simp add: vh_Lock_def)
qed

theorem Lock_returns_witness:
  "\<exists>err r'. vh_Lock ramStorage var_a 5 [(2000000, vh_Unlock ramStorage var_a), (7000000, \<lambda>d. d)]
      (snd (tryLock ramStorage var_a one_var_db)) = Some (err, r') \<and> IsLocked ramStorage var_a r'"
proof -
  have "db_wf (snd (tryLock ramStorage var_a one_var_db))"
    by (simp add: ram.tryLock_spec ram.lock_flag_set)
  then show ?thesis
    using Lock_returns [of "snd (tryLock ramStorage var_a one_var_db)"
        "[(2000000, vh_Unlock ramStorage var_a), (7000000, \<lambda>d. d)]" "(7000000, \<lambda>d. d)" 5 var_a]
    by (auto simp: vh_Unlock_def ram.lock_flag_set lock_max_timeout_def wrap64_def)
qed

text \<open>A lock request with the largest timeout, \<open>^uint(0)\<close>, which the protocol uses for \<open>no timeout\<close>,
  does not wait at all: the timeout becomes negative in the 64-bit arithmetic, and when the variable is
  locked the call fails after its first attempt.\<close>

theorem Lock_max_uint_does_not_wait:
  assumes "db_wf r" and "IsLocked ramStorage c r" and "0 \<le> elapsed"
  shows "vh_Lock ramStorage c (2 ^ 64 - 1) ((elapsed, others) # sched) r = Some (Some ''timeout reached'', r)"
proof -
  have "lock_max_timeout (2 ^ 64 - 1) = - 1000000" by (simp add: lock_max_timeout_def wrap64_def)
  then show ?thesis using assms by (simp add: vh_Lock_def ram.tryLock_spec)
qed

theorem Lock_max_uint_does_not_wait_witness:
  "vh_Lock ramStorage var_a (2 ^ 64 - 1) [(0, vh_Unlock ramStorage var_a), (1000000, \<lambda>d. d)]
     (snd (tryLock ramStorage var_a one_var_db)) =
   Some (Some ''timeout reached'', snd (tryLock ramStorage var_a one_var_db))"
proof -
  have "db_wf (snd (tryLock ramStorage var_a one_var_db))"
    by (simp add: ram.tryLock_spec ram.lock_flag_set)
  moreover have "IsLocked ramStorage var_a (snd (tryLock ramStorage var_a one_var_db))" by code_simp
  ultimately show ?thesis by (intro Lock_max_uint_does_not_wait) simp_all
qed
end
