(* ===== verification/ClientHelper.thy ===== *)
theory ClientHelper
  imports VarHelper
begin

text \<open>
  \<open>ControllerClientHelper\<close> (\<open>controller_clienthelper.go\<close>): the clients of the server, kept in the
  storage below \<open>internal.clients\<close>, with the API each one is connected through, the time it was last alive
  and the list of the variables it observes. The operations are defined over any storage \<open>S\<close>.
  \<open>now\<close> is the clock in seconds, \<open>acq\<close> tells whether the named lock \<open>db.intenal.clients\<close> was acquired
  in time (when not, the body of the operation is skipped and the error ignored).
\<close>

section \<open>The interface of an API\<close>

text \<open>\<open>IApi\<close> (\<open>IApi.go\<close>): the answers an API gives while an operation runs. A payload is a list of
  name, metadata and value. A call of \<open>NotifyClient\<close> may change the API, so \<open>aAliveAfter\<close> is what \<open>CheckAlive\<close>
  answers for the client when it is asked right after that call.\<close>

type_synonym payload = "(string \<times> string \<times> string) list"

record IApi =
  aGetApiId :: string
  aCheckAlive :: "string \<Rightarrow> bool"
  aNotifyClient :: "string \<Rightarrow> payload \<Rightarrow> bool"
  aAliveAfter :: "string \<Rightarrow> payload \<Rightarrow> bool"

record ControllerClientHelper =
  ch_clientId :: string
  ch_api :: "IApi option"

section \<open>Keys\<close>

definition cl_key :: "string \<Rightarrow> string" where
  "cl_key clientId = ''internal.clients.byId.'' @ clientId"

definition cl_list_key :: "string \<Rightarrow> string" where
  "cl_list_key k = ''internal.clients.list.'' @ k"

definition cl_obs_key :: "string \<Rightarrow> string \<Rightarrow> string" where
  "cl_obs_key clientId k = ''internal.clients.byId.'' @ clientId @ ''.observing.'' @ k"

section \<open>Operations\<close>

definition UpdateLiveTime :: "'db IStorage \<Rightarrow> int \<Rightarrow> ControllerClientHelper \<Rightarrow> 'db \<Rightarrow> 'db" where
  "UpdateLiveTime S now h db = iSet S db (cl_key (ch_clientId h) @ ''.lastLiveTime'') (NewDynamicVar_int now)"

definition initialize :: "'db IStorage \<Rightarrow> bool \<Rightarrow> int \<Rightarrow> ControllerClientHelper \<Rightarrow> 'db \<Rightarrow> 'db" where
  "initialize S acq now h db =
     runLocked acq (\<lambda>db.
       let cid = ch_clientId h;
           db1 = (if \<not> iHasValue S db (cl_key cid) then
                    let cnt = getCount S db (cl_list_key ''count'');
                        d1 = iSet S db (cl_list_key ''count'') (NewDynamicVar_int (wrap64 (cnt + 1)));
                        d2 = iSet S d1 (cl_list_key (strconv_Itoa cnt)) (NewDynamicVar_string cid)
                    in iSet S d2 (cl_key cid) (NewDynamicVar_int cnt)
                  else db);
           db2 = (case ch_api h of
                    Some api \<Rightarrow> iSet S db1 (cl_key cid @ ''.apiId'') (NewDynamicVar_string (aGetApiId api))
                  | None \<Rightarrow> db1)
       in UpdateLiveTime S now h db2) db"

definition NewControllerClientHelper ::
    "'db IStorage \<Rightarrow> bool \<Rightarrow> int \<Rightarrow> string \<Rightarrow> IApi option \<Rightarrow> 'db \<Rightarrow> ControllerClientHelper \<times> 'db" where
  "NewControllerClientHelper S acq now clientId api db =
     (let h = \<lparr>ch_clientId = clientId, ch_api = api\<rparr> in (h, initialize S acq now h db))"

text \<open>\<open>Inl\<close> is \<open>ErrAPIIdNotFound\<close>: the storage names no API for the client, or one that is not registered.\<close>

definition NewControllerClientHelperWithApis ::
    "'db IStorage \<Rightarrow> bool \<Rightarrow> int \<Rightarrow> string \<Rightarrow> (string \<times> IApi) list \<Rightarrow> 'db \<Rightarrow> (string + ControllerClientHelper) \<times> 'db" where
  "NewControllerClientHelperWithApis S acq now clientId apis db =
     (let apiId = getString S db (cl_key clientId @ ''.apiId'')
      in if apiId = [] then (Inl ''API_NOT_FOUND'', db)
         else case map_of apis apiId of
           None \<Rightarrow> (Inl ''API_NOT_FOUND'', db)
         | Some api \<Rightarrow> (let (h, db') = NewControllerClientHelper S acq now clientId (Some api) db in (Inr h, db')))"

definition SetControlledClientId ::
    "'db IStorage \<Rightarrow> string \<Rightarrow> string \<Rightarrow> ControllerClientHelper \<Rightarrow> 'db \<Rightarrow> ControllerClientHelper \<times> 'db" where
  "SetControlledClientId S clientId apiId h db =
     (let h' = h\<lparr>ch_clientId := clientId\<rparr>
      in (h', case ch_api h of
           Some api \<Rightarrow> iSet S db (cl_key clientId @ ''.apiId'') (NewDynamicVar_string (aGetApiId api))
         | None \<Rightarrow> if apiId \<noteq> [] then iSet S db (cl_key clientId @ ''.apiId'') (NewDynamicVar_string apiId) else db))"

definition GetLastLiveTime :: "'db IStorage \<Rightarrow> ControllerClientHelper \<Rightarrow> 'db \<Rightarrow> int" where
  "GetLastLiveTime S h db = getCount S db (cl_key (ch_clientId h) @ ''.lastLiveTime'')"

definition TimeSinceLastLiveTime :: "'db IStorage \<Rightarrow> int \<Rightarrow> ControllerClientHelper \<Rightarrow> 'db \<Rightarrow> int" where
  "TimeSinceLastLiveTime S now h db = wrap64 (now - GetLastLiveTime S h db)"

definition IsConnected :: "'db IStorage \<Rightarrow> int \<Rightarrow> ControllerClientHelper \<Rightarrow> 'db \<Rightarrow> bool \<times> 'db" where
  "IsConnected S now h db =
     (case ch_api h of
        None \<Rightarrow> (False, db)
      | Some api \<Rightarrow>
          (let ret = aCheckAlive api (ch_clientId h) in (ret, if ret then UpdateLiveTime S now h db else db)))"

definition GetObservingVarsCount :: "'db IStorage \<Rightarrow> ControllerClientHelper \<Rightarrow> 'db \<Rightarrow> int" where
  "GetObservingVarsCount S h db = getCount S db (cl_obs_key (ch_clientId h) ''count'')"

definition strip_vars :: "string \<Rightarrow> string" where
  "strip_vars cur = (if length cur > 5 \<and> strings_HasPrefix cur ''vars.'' then drop 5 cur else cur)"

definition GetObservingVars :: "'db IStorage \<Rightarrow> ControllerClientHelper \<Rightarrow> 'db \<Rightarrow> string list" where
  "GetObservingVars S h db =
     map (\<lambda>c. strip_vars (getString S db (cl_obs_key (ch_clientId h) c)))
       (filter (\<lambda>c. \<not> (strings_Contains c ''count'' \<or> strings_Contains c ''size''))
         (iGetChilds S db (cl_key (ch_clientId h) @ ''.observing'')))"

text \<open>The result of \<open>Notify\<close>, and the call of the API it makes, if any.\<close>

definition Notify ::
    "'db IStorage \<Rightarrow> int \<Rightarrow> ControllerClientHelper \<Rightarrow> payload \<Rightarrow> 'db \<Rightarrow> string \<times> 'db \<times> (string \<times> string \<times> payload) list" where
  "Notify S now h varsAndValues db =
     (case ch_api h of
        None \<Rightarrow> (''DISCONNECTED'', db, [])
      | Some api \<Rightarrow>
          (let sent = [(aGetApiId api, ch_clientId h, varsAndValues)]
           in if aNotifyClient api (ch_clientId h) varsAndValues
              then (''LIVE'', UpdateLiveTime S now h db, sent)
              else (''DISCONNECTED'', db, sent)))"

definition RegisterNewObservation ::
    "'db IStorage \<Rightarrow> bool \<Rightarrow> int \<Rightarrow> ControllerClientHelper \<Rightarrow> string \<Rightarrow> 'db \<Rightarrow> 'db" where
  "RegisterNewObservation S acq now h varName db =
     runLocked acq (\<lambda>db.
       let db1 = UpdateLiveTime S now h db;
           cur = getCount S db1 (cl_obs_key (ch_clientId h) ''count'');
           db2 = iSet S db1 (cl_obs_key (ch_clientId h) ''count'') (NewDynamicVar_int (wrap64 (cur + 1)))
       in iSet S db2 (cl_obs_key (ch_clientId h) (strconv_Itoa cur)) (NewDynamicVar_string (''vars.'' @ varName))) db"

text \<open>The search loop of \<open>findVarIndexOnObservingVars\<close>.\<close>

function find_from :: "'db IStorage \<Rightarrow> string \<Rightarrow> string \<Rightarrow> int \<Rightarrow> int \<Rightarrow> 'db \<Rightarrow> int" where
  "find_from S cid varName cnt i db =
     (if i < cnt then
        if getString S db (cl_obs_key cid (strconv_Itoa i)) = varName then i
        else find_from S cid varName cnt (i + 1) db
      else - 1)"
  by pat_completeness auto
termination
  by (relation "measure (\<lambda>(_, _, _, cnt, i, _). nat (cnt - i))") auto

declare find_from.simps [simp del]

definition findVarIndexOnObservingVars :: "'db IStorage \<Rightarrow> ControllerClientHelper \<Rightarrow> string \<Rightarrow> 'db \<Rightarrow> int" where
  "findVarIndexOnObservingVars S h varName db =
     find_from S (ch_clientId h) varName (getCount S db (cl_obs_key (ch_clientId h) ''count'')) 0 db"

text \<open>The loops that close a gap in the list stored below the keys \<open>key i\<close>; \<open>lim\<close> is the last index.\<close>

function close_gap :: "'db IStorage \<Rightarrow> (string \<Rightarrow> string) \<Rightarrow> int \<Rightarrow> int \<Rightarrow> 'db \<Rightarrow> 'db" where
  "close_gap S key c lim db =
     (if c < lim then
        let nxt = iGet S db (key (strconv_Itoa (c + 1))) (NewDynamicVar_string [])
        in close_gap S key (c + 1) lim (iSet S db (key (strconv_Itoa c)) nxt)
      else db)"
  by pat_completeness auto
termination
  by (relation "measure (\<lambda>(_, _, c, lim, _). nat (lim - c))") auto

declare close_gap.simps [simp del]

definition UnregisterObservation ::
    "'db IStorage \<Rightarrow> bool \<Rightarrow> int \<Rightarrow> ControllerClientHelper \<Rightarrow> string \<Rightarrow> 'db \<Rightarrow> 'db" where
  "UnregisterObservation S acq now h varName db =
     runLocked acq (\<lambda>db.
       let key = cl_obs_key (ch_clientId h);
           db1 = UpdateLiveTime S now h db;
           cur = getCount S db1 (key ''count'');
           idx = findVarIndexOnObservingVars S h (''vars.'' @ varName) db1
       in if - 1 < idx then
            let db2 = close_gap S key idx (wrap64 (cur - 1)) db1;
                db3 = iDeleteValue S db2 (key (strconv_Itoa (wrap64 (cur - 1)))) False
            in iSet S db3 (key ''count'') (NewDynamicVar_int (wrap64 (cur - 1)))
          else db1) db"

definition GetClientId :: "ControllerClientHelper \<Rightarrow> string" where
  "GetClientId h = ch_clientId h"

definition GetAPIId :: "'db IStorage \<Rightarrow> ControllerClientHelper \<Rightarrow> 'db \<Rightarrow> string" where
  "GetAPIId S h db = getString S db (cl_key (ch_clientId h) @ ''.apiId'')"

definition RemoveClientFromObservationSystem ::
    "'db IStorage \<Rightarrow> bool \<Rightarrow> ControllerClientHelper \<Rightarrow> 'db \<Rightarrow> 'db" where
  "RemoveClientFromObservationSystem S acq h db =
     runLocked acq (\<lambda>db.
       let clientIndex = GetInt64 (iGet S db (cl_key (ch_clientId h)) (NewDynamicVar_int (- 1)));
           db1 = (if - 1 < clientIndex then
                    let currentCount = getCount S db (cl_list_key ''count'');
                        d1 = close_gap S cl_list_key clientIndex (wrap64 (currentCount - 1)) db;
                        d2 = iDeleteValue S d1 (cl_list_key (strconv_Itoa (wrap64 (currentCount - 1)))) False
                    in iSet S d2 (cl_list_key ''count'') (NewDynamicVar_int (wrap64 (currentCount - 1)))
                  else db)
       in iDeleteValue S db1 (cl_key (ch_clientId h)) True) db"

section \<open>Paths of the client keys\<close>

definition cl_root :: "string \<Rightarrow> path" where
  "cl_root cid = [''internal'', ''clients'', ''byId''] @ parts cid"

definition list_root :: path where
  "list_root = [''internal'', ''clients'', ''list'']"

lemma parts_internal:
  "parts (''internal.clients.byId.'' @ cid) = cl_root cid"
  "parts ''internal.clients.list'' = list_root"
  using parts_append_dot [of "''internal.clients.byId''" cid]
  by (simp_all add: cl_root_def list_root_def parts_def)

lemmas parts_internal_simps = parts_internal [simplified]

lemma key_path_list [path_simps]:
  "k \<noteq> [] \<Longrightarrow> CHR ''.'' \<notin> set k \<Longrightarrow> key_path (cl_list_key k) = list_root @ [k]"
  using key_path_append_dot [of k "''internal.clients.list''"]
  by (simp add: cl_list_key_def parts_internal_simps path_simps)

lemma key_path_cl_obs [path_simps]:
  assumes "k \<noteq> []" and "CHR ''.'' \<notin> set k"
  shows "key_path (cl_obs_key cid k) = cl_root cid @ [''observing'', k]"
proof -
  have "parts (''internal.clients.byId.'' @ cid @ ''.observing'') = cl_root cid @ [''observing'']"
    using parts_append_dot [of "''internal.clients.byId.'' @ cid" "''observing''"]
    by (simp add: parts_internal_simps parts_no_dot)
  then show ?thesis
    using key_path_append_dot [of k "''internal.clients.byId.'' @ cid @ ''.observing''"] assms
    by (simp add: cl_obs_key_def path_simps)
qed

lemma key_path_cl_attr [path_simps]:
  "k \<noteq> [] \<Longrightarrow> CHR ''.'' \<notin> set k \<Longrightarrow> key_path (cl_key cid @ CHR ''.'' # k) = cl_root cid @ [k]"
  using key_path_append_dot [of k "cl_key cid"] by (simp add: cl_key_def parts_internal_simps path_simps)

lemma key_path_cl [path_simps]: "cid \<noteq> [] \<Longrightarrow> key_path (cl_key cid) = [''internal'', ''clients'', ''byId''] @ key_path cid"
  using key_path_append_dot [of cid "''internal.clients.byId''"] by (simp add: cl_key_def parts_def)

section \<open>Lists below a key\<close>

text \<open>Both the list of clients and the list of the variables a client observes are stored as a \<open>count\<close>
  and entries under their indices.\<close>

definition kcount :: "('db \<Rightarrow> path \<Rightarrow> string) \<Rightarrow> 'db \<Rightarrow> path \<Rightarrow> int" where
  "kcount pk db R = num_of (pk db (R @ [''count'']))"

definition klist :: "('db \<Rightarrow> path \<Rightarrow> string) \<Rightarrow> 'db \<Rightarrow> path \<Rightarrow> string list" where
  "klist pk db R = map (\<lambda>k. pk db (R @ [strconv_Itoa (int k)])) [0..<nat (kcount pk db R)]"

abbreviation client_list :: "('db \<Rightarrow> path \<Rightarrow> string) \<Rightarrow> 'db \<Rightarrow> string list" where
  "client_list pk db \<equiv> klist pk db list_root"

abbreviation observing_list :: "('db \<Rightarrow> path \<Rightarrow> string) \<Rightarrow> 'db \<Rightarrow> string \<Rightarrow> string list" where
  "observing_list pk db cid \<equiv> klist pk db (cl_root cid @ [''observing''])"

lemma length_klist [simp]: "length (klist pk db R) = nat (kcount pk db R)"
  by (simp add: klist_def)

lemma nth_klist [simp]: "k < nat (kcount pk db R) \<Longrightarrow> klist pk db R ! k = pk db (R @ [strconv_Itoa (int k)])"
  by (simp add: klist_def)

lemma kcount_range [simp]: "int64_range (kcount pk db R)"
  by (simp add: kcount_def)

lemma klist_cong:
  assumes "\<And>i. pk db' (R @ [strconv_Itoa i]) = pk db (R @ [strconv_Itoa i])"
    and "pk db' (R @ [''count'']) = pk db (R @ [''count''])"
  shows "klist pk db' R = klist pk db R" and "kcount pk db' R = kcount pk db R"
  using assms by (simp_all add: klist_def kcount_def)

text \<open>The keys of a list stored at \<open>R\<close>.\<close>

definition keys_at :: "(string \<Rightarrow> string) \<Rightarrow> path \<Rightarrow> bool" where
  "keys_at key R \<longleftrightarrow> (\<forall>k. k \<noteq> [] \<longrightarrow> CHR ''.'' \<notin> set k \<longrightarrow> key_path (key k) = R @ [k])"

lemma keys_at_Itoa:
  "keys_at key R \<Longrightarrow> key_path (key (strconv_Itoa i)) = R @ [strconv_Itoa i]"
  "keys_at key R \<Longrightarrow> key_path (key ''count'') = R @ [''count'']"
  by (simp_all add: keys_at_def)

lemma keys_at_client: "keys_at cl_list_key list_root" "keys_at (cl_obs_key cid) (cl_root cid @ [''observing''])"
  by (simp_all add: keys_at_def path_simps)

context storage
begin

lemma getCount_kcount: "invar db \<Longrightarrow> keys_at key R \<Longrightarrow> getCount S db (key ''count'') = kcount peek db R"
  by (simp add: db_simps kcount_def keys_at_Itoa)

lemma append_spec:
  assumes "invar db" and "keys_at key R" and "0 \<le> kcount peek db R" and "kcount peek db R < 2 ^ 63 - 1"
    and db': "db' = iSet S (iSet S db (key ''count'') (NewDynamicVar_int (wrap64 (kcount peek db R + 1))))
      (key (strconv_Itoa (kcount peek db R))) v"
  shows "invar db'" and "klist peek db' R = klist peek db R @ [GetString v]"
    and "\<And>p. (\<And>k. p \<noteq> R @ [k]) \<Longrightarrow> peek db' p = peek db p"
proof -
  let ?n = "kcount peek db R"
  show "invar db'" using assms(1) by (simp add: db' invar_set)
  have "int64_range (?n + 1)" using assms(3,4) by (simp add: int64_range_def)
  then have count: "kcount peek db' R = ?n + 1"
    using assms(1,2) by (simp add: db' kcount_def [of _ "iSet _ _ _ _"] peek_set invar_set keys_at_Itoa)
  have "peek db' (R @ [strconv_Itoa k]) = (if k = ?n then GetString v else peek db (R @ [strconv_Itoa k]))" for k
    using assms(1,2) by (simp add: db' peek_set invar_set keys_at_Itoa)
  moreover have "nat (?n + 1) = Suc (nat ?n)" using assms(3) by simp
  ultimately show "klist peek db' R = klist peek db R @ [GetString v]"
    using assms(3) by (auto simp: klist_def count)
  show "peek db' p = peek db p" if "\<And>k. p \<noteq> R @ [k]" for p
    using that assms(1,2) by (simp add: db' peek_set invar_set keys_at_Itoa)
qed

lemma close_gap_spec:
  assumes "keys_at key R"
  shows "invar db \<Longrightarrow> 0 \<le> c \<Longrightarrow>
   invar (close_gap S key c lim db) \<and>
   (\<forall>k. peek (close_gap S key c lim db) (R @ [strconv_Itoa k]) =
      (if c \<le> k \<and> k < lim then peek db (R @ [strconv_Itoa (k + 1)]) else peek db (R @ [strconv_Itoa k]))) \<and>
   (\<forall>p. (\<forall>k. p \<noteq> R @ [strconv_Itoa k]) \<longrightarrow> peek (close_gap S key c lim db) p = peek db p)"
proof (induction "nat (lim - c)" arbitrary: c db)
  case 0
  then show ?case by (auto simp: close_gap.simps [of S key c])
next
  case (Suc d)
  let ?v = "iGet S db (key (strconv_Itoa (c + 1))) (NewDynamicVar_string [])"
  let ?db = "iSet S db (key (strconv_Itoa c)) ?v"
  have lt: "c < lim" and d: "d = nat (lim - (c + 1))" using Suc.hyps(2) by auto
  have step: "close_gap S key c lim db = close_gap S key (c + 1) lim ?db"
    using lt by (simp add: close_gap.simps [of S key c] Let_def)
  have pk: "peek ?db p = (if p = R @ [strconv_Itoa c] then peek db (R @ [strconv_Itoa (c + 1)]) else peek db p)" for p
    using Suc.prems(1) assms by (simp add: peek_set get_string keys_at_Itoa)
  have "invar ?db" using Suc.prems(1) by (rule invar_set)
  note IH = Suc.hyps(1) [OF d this]
  show ?case unfolding step using IH Suc.prems(2) lt by (auto simp: pk)
qed

lemma remove_index_spec:
  assumes "invar db" and "keys_at key R" and "kcount peek db R = n" and "0 \<le> i" and "i < n"
    and db': "db' = iSet S (iDeleteValue S (close_gap S key i (n - 1) db) (key (strconv_Itoa (n - 1))) False)
      (key ''count'') (NewDynamicVar_int (n - 1))"
  shows "invar db'" and "klist peek db' R = take (nat i) (klist peek db R) @ drop (Suc (nat i)) (klist peek db R)"
    and "\<And>p. (\<And>k. p \<noteq> R @ [k]) \<Longrightarrow> peek db' p = peek db p"
    and "kcount peek db' R = n - 1"
proof -
  let ?g = "close_gap S key i (n - 1) db"
  note gap = close_gap_spec [OF assms(2,1,4), of "n - 1"]
  have inv: "invar ?g" using gap by blast
  then show "invar db'" by (simp add: db' invar_set invar_delete)
  have range: "int64_range (n - 1)" using assms(3,4,5) kcount_range [of peek db R] by (simp add: int64_range_def)
  show count: "kcount peek db' R = n - 1"
    using inv range assms(2) by (simp add: db' kcount_def peek_set invar_delete keys_at_Itoa)
  have entry: "peek db' (R @ [strconv_Itoa k]) =
      (if i \<le> k then peek db (R @ [strconv_Itoa (k + 1)]) else peek db (R @ [strconv_Itoa k]))" if "k < n - 1" for k
    using inv that gap assms(2) by (simp add: db' peek_set peek_delete invar_delete keys_at_Itoa)
  show "peek db' p = peek db p" if "\<And>k. p \<noteq> R @ [k]" for p
    using that inv gap assms(2) by (simp add: db' peek_set peek_delete invar_delete keys_at_Itoa)
  show "klist peek db' R = take (nat i) (klist peek db R) @ drop (Suc (nat i)) (klist peek db R)"
  proof (rule nth_equalityI)
    show "length (klist peek db' R) = length (take (nat i) (klist peek db R) @ drop (Suc (nat i)) (klist peek db R))"
      using assms(3,4,5) count by simp
    fix k
    assume "k < length (klist peek db' R)"
    then have k: "k < nat (n - 1)" using count by simp
    then show "klist peek db' R ! k = (take (nat i) (klist peek db R) @ drop (Suc (nat i)) (klist peek db R)) ! k"
      using assms(3,4,5) count entry [of "int k"] by (auto simp: nth_append min_def add.commute)
  qed
qed

end

lemma remove1_index:
  "v \<in> set xs \<Longrightarrow> k = length (takeWhile (\<lambda>x. x \<noteq> v) xs) \<Longrightarrow> k < length xs \<and> remove1 v xs = take k xs @ drop (Suc k) xs"
  by (induction xs arbitrary: k) auto

lemma key_path_live: "key_path (cl_key cid @ ''.lastLiveTime'') = cl_root cid @ [''lastLiveTime'']"
  "key_path (cl_key cid @ ''.apiId'') = cl_root cid @ [''apiId'']"
  using key_path_cl_attr [of "''lastLiveTime''" cid] key_path_cl_attr [of "''apiId''" cid] by simp_all

lemma cl_root_list_root: "list_root @ p \<noteq> cl_root cid @ q" "cl_root cid @ q \<noteq> list_root @ p"
  "\<not> prefix (cl_root cid) (list_root @ p)"
  by (auto simp: list_root_def cl_root_def)

lemma not_below_cl_root: "\<not> prefix (cl_root cid) p \<Longrightarrow> p \<noteq> cl_root cid @ q"
  by auto

lemma prefix_key_path_parts: "prefix (key_path s) (parts s)"
  by (simp add: key_path_parts butlast_conv_take take_is_prefix)

lemma Itoa_neq_attr: "strconv_Itoa i \<noteq> ''lastLiveTime''" "strconv_Itoa i \<noteq> ''apiId''"
  using strconv_Itoa_neq_word [of "CHR ''i''" _ i] by (simp_all add: digit_chars_def)

text \<open>A write to an attribute of a client, of which the name is no entry of a list, keeps all lists.\<close>

lemma klist_attr:
  assumes "\<And>p. last p \<notin> {''lastLiveTime'', ''apiId''} \<Longrightarrow> pk db' p = pk db p"
  shows "klist pk db' R = klist pk db R" and "kcount pk db' R = kcount pk db R"
  by (rule klist_cong; rule assms; simp add: Itoa_neq_attr)+

context storage
begin

lemma UpdateLiveTime_spec:
  assumes "invar db"
  shows "invar (UpdateLiveTime S now h db)"
    and "peek (UpdateLiveTime S now h db) p =
      (if p = cl_root (ch_clientId h) @ [''lastLiveTime''] then strconv_Itoa now else peek db p)"
    and "klist peek (UpdateLiveTime S now h db) R = klist peek db R"
    and "kcount peek (UpdateLiveTime S now h db) R = kcount peek db R"
proof -
  let ?db = "UpdateLiveTime S now h db"
  show "invar ?db" using assms by (simp add: UpdateLiveTime_def invar_set)
  have pk: "peek ?db p = (if p = cl_root (ch_clientId h) @ [''lastLiveTime''] then strconv_Itoa now else peek db p)" for p
    using assms by (simp add: UpdateLiveTime_def peek_set key_path_live)
  then show "peek ?db p = (if p = cl_root (ch_clientId h) @ [''lastLiveTime''] then strconv_Itoa now else peek db p)" .
  show "klist peek ?db R = klist peek db R" and "kcount peek ?db R = kcount peek db R"
    by (rule klist_attr; auto simp: pk)+
qed

lemma RegisterNewObservation_spec:
  assumes "invar db" and "0 \<le> kcount peek db (cl_root (ch_clientId h) @ [''observing''])"
    and "kcount peek db (cl_root (ch_clientId h) @ [''observing'']) < 2 ^ 63 - 1"
    and db': "db' = RegisterNewObservation S True now h v db"
  shows "invar db'"
    and "observing_list peek db' (ch_clientId h) = observing_list peek db (ch_clientId h) @ [''vars.'' @ v]"
    and "\<And>p. \<not> prefix (cl_root (ch_clientId h)) p \<Longrightarrow> peek db' p = peek db p"
proof -
  let ?live = "UpdateLiveTime S now h db" and ?R = "cl_root (ch_clientId h) @ [''observing'']"
  note live = UpdateLiveTime_spec [OF assms(1), of now h]
  note app = append_spec [OF live(1) keys_at_client(2), of "ch_clientId h", unfolded live(4)]
  have eq: "db' = iSet S (iSet S ?live (cl_obs_key (ch_clientId h) ''count'') (NewDynamicVar_int (wrap64 (kcount peek db ?R + 1))))
      (cl_obs_key (ch_clientId h) (strconv_Itoa (kcount peek db ?R))) (NewDynamicVar_string (''vars.'' @ v))"
    using live(1)
    by (simp add: db' RegisterNewObservation_def runLocked_def Let_def getCount_kcount [OF _ keys_at_client(2)] live(4))
  note res = app [OF assms(2,3) eq]
  show "invar db'" by (rule res(1))
  show "observing_list peek db' (ch_clientId h) = observing_list peek db (ch_clientId h) @ [''vars.'' @ v]"
    using res(2) live(3) by simp
  show "peek db' p = peek db p" if "\<not> prefix (cl_root (ch_clientId h)) p" for p
    using not_below_cl_root [OF that] res(3) [of p] live(2) [of p] by simp
qed

lemma find_from_spec:
  assumes "invar db" and "0 \<le> i" and "i \<le> kcount peek db (cl_root cid @ [''observing''])"
  shows "find_from S cid v (kcount peek db (cl_root cid @ [''observing''])) i db =
    (let ys = drop (nat i) (observing_list peek db cid)
     in if v \<in> set ys then i + int (length (takeWhile (\<lambda>x. x \<noteq> v) ys)) else - 1)"
  using assms(2,3)
proof (induction "nat (kcount peek db (cl_root cid @ [''observing'']) - i)" arbitrary: i)
  case 0
  then show ?case by (subst find_from.simps) simp
next
  case (Suc d)
  let ?xs = "observing_list peek db cid" and ?n = "kcount peek db (cl_root cid @ [''observing''])"
  have i: "i < ?n" "d = nat (?n - (i + 1))" "nat i < length ?xs" using Suc.hyps(2) Suc.prems(1) by auto
  have cons: "drop (nat i) ?xs = ?xs ! nat i # drop (nat (i + 1)) ?xs"
    using Cons_nth_drop_Suc [OF i(3)] Suc.prems(1) by (simp add: nat_add_distrib)
  have nth: "getString S db (cl_obs_key cid (strconv_Itoa i)) = ?xs ! nat i"
    using assms(1) Suc.prems(1) i by (simp add: db_simps path_simps)
  show ?case
    using Suc.hyps(1) [OF i(2)] i(1) Suc.prems(1) unfolding cons
    by (simp add: find_from.simps [of S cid v _ i] nth Let_def)
qed

lemma UnregisterObservation_spec:
  assumes "invar db" and "0 \<le> kcount peek db (cl_root (ch_clientId h) @ [''observing''])"
    and db': "db' = UnregisterObservation S True now h v db"
  shows "invar db'"
    and "observing_list peek db' (ch_clientId h) = remove1 (''vars.'' @ v) (observing_list peek db (ch_clientId h))"
    and "\<And>p. \<not> prefix (cl_root (ch_clientId h)) p \<Longrightarrow> peek db' p = peek db p"
proof -
  let ?live = "UpdateLiveTime S now h db" and ?R = "cl_root (ch_clientId h) @ [''observing'']"
    and ?key = "cl_obs_key (ch_clientId h)" and ?v = "''vars.'' @ v"
  let ?n = "kcount peek db ?R" and ?xs = "observing_list peek db (ch_clientId h)"
  let ?k = "length (takeWhile (\<lambda>x. x \<noteq> ?v) ?xs)"
  note live = UpdateLiveTime_spec [OF assms(1), of now h]
  have cnt: "getCount S ?live (?key ''count'') = ?n"
    using getCount_kcount [OF live(1) keys_at_client(2)] live(4) by simp
  have idx: "findVarIndexOnObservingVars S h ?v ?live = (if ?v \<in> set ?xs then int ?k else - 1)"
    using find_from_spec [OF live(1), of 0 "ch_clientId h" ?v] assms(2) live(3,4)
    by (simp add: findVarIndexOnObservingVars_def cnt)
  have "invar db' \<and> observing_list peek db' (ch_clientId h) = remove1 ?v ?xs \<and>
      (\<forall>p. \<not> prefix (cl_root (ch_clientId h)) p \<longrightarrow> peek db' p = peek db p)"
  proof (cases "?v \<in> set ?xs")
    case True
    note rem = remove1_index [OF True refl]
    have lt: "int ?k < ?n" using conjunct1 [OF rem] by (simp only: length_klist zless_nat_eq_int_zless)
    have "int64_range (?n - 1)"
      using kcount_range [of peek db ?R] lt by (simp add: int64_range_def)
    then have eq: "db' = iSet S (iDeleteValue S (close_gap S ?key (int ?k) (?n - 1) ?live) (?key (strconv_Itoa (?n - 1))) False)
        (?key ''count'') (NewDynamicVar_int (?n - 1))"
      using True idx cnt by (simp add: db' UnregisterObservation_def runLocked_def Let_def)
    note res = remove_index_spec [OF live(1) keys_at_client(2) live(4) _ lt eq]
    have "peek db' p = peek db p" if "\<not> prefix (cl_root (ch_clientId h)) p" for p
      using not_below_cl_root [OF that] res(3) [of p] live(2) [of p] by simp
    with res rem live(3) show ?thesis by auto
  next
    case False
    then have "db' = ?live" using idx by (simp add: db' UnregisterObservation_def runLocked_def Let_def)
    with False live show ?thesis by (auto simp: remove1_idem)
  qed
  then show "invar db'" and "observing_list peek db' (ch_clientId h) = remove1 ?v ?xs"
    and "\<And>p. \<not> prefix (cl_root (ch_clientId h)) p \<Longrightarrow> peek db' p = peek db p" by blast+
qed

end

section \<open>The nodes of a stored list\<close>

text \<open>Besides \<open>count\<close> a stored list has exactly the nodes of its entries, and nothing below them.\<close>

definition knodes :: "('db \<Rightarrow> path \<Rightarrow> bool) \<Rightarrow> ('db \<Rightarrow> path \<Rightarrow> string) \<Rightarrow> 'db \<Rightarrow> path \<Rightarrow> bool" where
  "knodes hn pk db R \<longleftrightarrow> 0 \<le> kcount pk db R \<and>
     (\<forall>k. k \<noteq> ''count'' \<longrightarrow> hn db (R @ [k]) = (\<exists>i. 0 \<le> i \<and> i < kcount pk db R \<and> k = strconv_Itoa i)) \<and>
     (\<forall>k j. \<not> hn db (R @ [k, j]))"

lemma prefix_snoc_same: "prefix (R @ [k]) (R @ [k']) \<longleftrightarrow> k = k'" "\<not> prefix (R @ [k, j]) (R @ [k'])"
  by auto

lemma Contains_Itoa: "\<not> strings_Contains (strconv_Itoa i) ''count''" "\<not> strings_Contains (strconv_Itoa i) ''size''"
proof -
  have *: "\<not> strings_Contains (strconv_Itoa i) w" if "c \<in> set w" "c \<notin> insert CHR ''-'' digit_chars" for c w
    using that strconv_Itoa_chars [of i] by (auto simp: strings_Contains_sublist)
  show "\<not> strings_Contains (strconv_Itoa i) ''count''" "\<not> strings_Contains (strconv_Itoa i) ''size''"
    using * [of "CHR ''o''" "''count''"] * [of "CHR ''s''" "''size''"] by (simp_all add: digit_chars_def)
qed

context storage
begin

lemma knodes_append:
  assumes "invar db" and "keys_at key R" and "knodes has_node peek db R" and "kcount peek db R < 2 ^ 63 - 1"
    and db': "db' = iSet S (iSet S db (key ''count'') (NewDynamicVar_int (wrap64 (kcount peek db R + 1))))
      (key (strconv_Itoa (kcount peek db R))) v"
  shows "knodes has_node peek db' R"
proof -
  let ?n = "kcount peek db R"
  have n: "0 \<le> ?n" using assms(3) by (simp add: knodes_def)
  have "int64_range (?n + 1)" using n assms(4) by (simp add: int64_range_def)
  then have count: "kcount peek db' R = ?n + 1"
    using assms(1,2) by (simp add: db' kcount_def [of _ "iSet _ _ _ _"] peek_set invar_set keys_at_Itoa)
  have nodes: "has_node db' p \<longleftrightarrow> has_node db p \<or> prefix p (R @ [''count'']) \<or> prefix p (R @ [strconv_Itoa ?n])" for p
    using assms(1,2) by (simp add: db' node_set invar_set keys_at_Itoa)
  have less: "i < ?n + 1 \<longleftrightarrow> i < ?n \<or> i = ?n" for i by auto
  show ?thesis
    using assms(3) n unfolding knodes_def count nodes less
    by (auto simp: prefix_snoc_same)
qed

lemma close_gap_nodes:
  assumes "keys_at key R"
  shows "invar db \<Longrightarrow> (\<And>k. c \<le> k \<Longrightarrow> k < lim \<Longrightarrow> has_node db (R @ [strconv_Itoa k])) \<Longrightarrow>
    has_node (close_gap S key c lim db) p \<longleftrightarrow> has_node db p"
proof (induction "nat (lim - c)" arbitrary: c db)
  case 0
  then show ?case by (simp add: close_gap.simps [of S key c])
next
  case (Suc d)
  let ?v = "iGet S db (key (strconv_Itoa (c + 1))) (NewDynamicVar_string [])"
  let ?db = "iSet S db (key (strconv_Itoa c)) ?v"
  have lt: "c < lim" and d: "d = nat (lim - (c + 1))" using Suc.hyps(2) by auto
  have "has_node db (R @ [strconv_Itoa c])" using lt by (intro Suc.prems(2)) simp_all
  then have nodes: "has_node ?db q \<longleftrightarrow> has_node db q" for q
    using Suc.prems(1) assms node_prefix [of db "R @ [strconv_Itoa c]" q] by (auto simp: node_set keys_at_Itoa)
  have "close_gap S key c lim db = close_gap S key (c + 1) lim ?db"
    using lt by (simp add: close_gap.simps [of S key c] Let_def)
  moreover have "has_node (close_gap S key (c + 1) lim ?db) p \<longleftrightarrow> has_node ?db p"
    using Suc.prems by (intro Suc.hyps(1) [OF d]) (simp_all add: nodes invar_set)
  ultimately show ?case by (simp add: nodes)
qed

lemma knodes_remove_index:
  assumes "invar db" and "keys_at key R" and "knodes has_node peek db R" and "kcount peek db R = n" and "0 \<le> i" and "i < n"
    and db': "db' = iSet S (iDeleteValue S (close_gap S key i (n - 1) db) (key (strconv_Itoa (n - 1))) False)
      (key ''count'') (NewDynamicVar_int (n - 1))"
  shows "knodes has_node peek db' R"
proof -
  let ?g = "close_gap S key i (n - 1) db"
  have count: "kcount peek db' R = n - 1" by (rule remove_index_spec(4) [OF assms(1,2,4,5,6) db'])
  have inv: "invar ?g" using close_gap_spec [OF assms(2,1,5)] by blast
  have "has_node ?g p \<longleftrightarrow> has_node db p" for p
    using assms(3,4,5) by (intro close_gap_nodes [OF assms(2,1)]) (auto simp: knodes_def)
  then have nodes: "has_node db' p \<longleftrightarrow> has_node db p \<and> p \<noteq> R @ [strconv_Itoa (n - 1)] \<or> prefix p (R @ [''count''])" for p
    using inv assms(2,3) by (simp add: db' node_set node_delete invar_delete keys_at_Itoa knodes_def)
  show ?thesis
    unfolding knodes_def count nodes prefix_snoc_same
  proof (intro conjI allI impI)
    fix k :: string
    assume k: "k \<noteq> ''count''"
    then have node: "has_node db (R @ [k]) \<longleftrightarrow> (\<exists>i. 0 \<le> i \<and> i < n \<and> k = strconv_Itoa i)"
      using assms(3,4) by (simp add: knodes_def)
    show "(has_node db (R @ [k]) \<and> R @ [k] \<noteq> R @ [strconv_Itoa (n - 1)] \<or> k = ''count'') \<longleftrightarrow>
        (\<exists>i. 0 \<le> i \<and> i < n - 1 \<and> k = strconv_Itoa i)"
    proof (cases "\<exists>i. k = strconv_Itoa i")
      case True
      then obtain i where "k = strconv_Itoa i" by blast
      with node show ?thesis by auto
    qed (use node k in auto)
  qed (use assms in \<open>auto simp: knodes_def\<close>)
qed

lemma knodes_live:
  "invar db \<Longrightarrow> knodes has_node peek db (cl_root (ch_clientId h) @ [''observing'']) \<Longrightarrow>
   knodes has_node peek (UpdateLiveTime S now h db) (cl_root (ch_clientId h) @ [''observing''])"
proof -
  assume inv: "invar db" and nodes: "knodes has_node peek db (cl_root (ch_clientId h) @ [''observing''])"
  have "has_node (UpdateLiveTime S now h db) (cl_root (ch_clientId h) @ ''observing'' # q) \<longleftrightarrow>
      has_node db (cl_root (ch_clientId h) @ ''observing'' # q)" for q
    using inv by (simp add: UpdateLiveTime_def node_set key_path_live)
  then show ?thesis using nodes inv by (simp add: knodes_def UpdateLiveTime_spec)
qed

lemma GetObservingVars_spec:
  assumes "invar db" and "knodes has_node peek db (cl_root (ch_clientId h) @ [''observing''])"
  shows "mset (GetObservingVars S h db) = mset (map strip_vars (observing_list peek db (ch_clientId h)))"
proof -
  let ?R = "cl_root (ch_clientId h) @ [''observing'']"
  let ?n = "kcount peek db ?R" and ?key = "cl_key (ch_clientId h) @ ''.observing''"
  let ?sel = "filter (\<lambda>c. \<not> (strings_Contains c ''count'' \<or> strings_Contains c ''size'')) (iGetChilds S db ?key)"
  have key: "key_path ?key = ?R" using key_path_cl_attr [of "''observing''"] by simp
  have "?key \<noteq> []" by simp
  then have ch: "set (iGetChilds S db ?key) = {k. has_node db (?R @ [k])}"
    using childs [OF assms(1)] key by simp
  have "k \<in> set ?sel \<longleftrightarrow> (\<exists>i. 0 \<le> i \<and> i < ?n \<and> k = strconv_Itoa i)" for k
  proof (cases "k = ''count''")
    case False
    then have "has_node db (?R @ [k]) \<longleftrightarrow> (\<exists>i. 0 \<le> i \<and> i < ?n \<and> k = strconv_Itoa i)"
      using assms(2) unfolding knodes_def by blast
    then show ?thesis unfolding set_filter ch using Contains_Itoa by blast
  qed simp
  then have "set ?sel = strconv_Itoa ` {0..<?n}" by (auto simp only: image_iff atLeastLessThan_iff set_eq_iff Bex_def)
  also have "\<dots> = set (map (\<lambda>k. strconv_Itoa (int k)) [0..<nat ?n])"
  proof -
    have "{0..<?n} = int ` {0..<nat ?n}"
      using assms(2) image_int_atLeastLessThan [of 0 "nat ?n"] by (simp add: knodes_def)
    then show ?thesis by (simp only: image_image set_map set_upt)
  qed
  finally have "mset ?sel = mset (map (\<lambda>k. strconv_Itoa (int k)) [0..<nat ?n])"
    using childs_distinct [OF assms(1)]
    by (subst set_eq_iff_mset_eq_distinct [symmetric]) (simp_all add: distinct_map inj_on_def)
  then have "mset (GetObservingVars S h db) =
      image_mset (\<lambda>c. strip_vars (getString S db (cl_obs_key (ch_clientId h) c))) (mset (map (\<lambda>k. strconv_Itoa (int k)) [0..<nat ?n]))"
    unfolding GetObservingVars_def by (simp only: mset_map [of _ ?sel])
  also have "\<dots> = mset (map strip_vars (observing_list peek db (ch_clientId h)))"
    using assms(1) by (simp add: klist_def db_simps path_simps image_mset.compositionality comp_def)
  finally show ?thesis .
qed

lemma knodes_register:
  assumes "invar db" and "knodes has_node peek db (cl_root (ch_clientId h) @ [''observing''])"
    and "kcount peek db (cl_root (ch_clientId h) @ [''observing'']) < 2 ^ 63 - 1"
    and "db' = RegisterNewObservation S True now h v db"
  shows "knodes has_node peek db' (cl_root (ch_clientId h) @ [''observing''])"
proof -
  note live = UpdateLiveTime_spec [OF assms(1), of now h]
  note cnt = getCount_kcount [OF live(1) keys_at_client(2), unfolded live(4)]
  show ?thesis
    by (rule knodes_append [OF live(1) keys_at_client(2) knodes_live [OF assms(1,2)]])
      (use assms(3,4) live(4) cnt in \<open>simp_all add: RegisterNewObservation_def runLocked_def Let_def\<close>)
qed

lemma knodes_unregister:
  assumes "invar db" and "knodes has_node peek db (cl_root (ch_clientId h) @ [''observing''])"
    and "db' = UnregisterObservation S True now h v db"
  shows "knodes has_node peek db' (cl_root (ch_clientId h) @ [''observing''])"
proof -
  let ?R = "cl_root (ch_clientId h) @ [''observing'']" and ?live = "UpdateLiveTime S now h db"
  let ?n = "kcount peek db ?R" and ?i = "findVarIndexOnObservingVars S h (''vars.'' @ v) ?live"
  note live = UpdateLiveTime_spec [OF assms(1), of now h]
  note cnt = getCount_kcount [OF live(1) keys_at_client(2), unfolded live(4)]
  have n: "0 \<le> ?n" using assms(2) by (simp add: knodes_def)
  show ?thesis
  proof (cases "- 1 < ?i")
    case True
    have "?i < ?n"
      using True find_from_spec [OF live(1), of 0 "ch_clientId h" "''vars.'' @ v"] n
        remove1_index [of "''vars.'' @ v" "observing_list peek db (ch_clientId h)", OF _ refl] live(3,4) cnt
      by (auto simp: findVarIndexOnObservingVars_def Let_def zless_nat_eq_int_zless split: if_splits)
    moreover have "int64_range (?n - 1)" using kcount_range [of peek db ?R] n by (simp add: int64_range_def)
    ultimately show ?thesis
      using True assms(3) cnt
      by (intro knodes_remove_index [OF live(1) keys_at_client(2) knodes_live [OF assms(1,2)] live(4), of ?i])
        (simp_all add: UnregisterObservation_def runLocked_def Let_def)
  next
    case False
    then show ?thesis
      using assms(3) knodes_live [OF assms(1,2)] by (simp add: UnregisterObservation_def runLocked_def Let_def)
  qed
qed

end

section \<open>Registering and removing clients\<close>

context storage
begin

lemma initialize_spec:
  assumes "invar db" and "cid \<noteq> []" and "0 \<le> kcount peek db list_root" and "kcount peek db list_root < 2 ^ 63 - 1"
    and db': "db' = initialize S True now \<lparr>ch_clientId = cid, ch_api = api\<rparr> db"
  shows "invar db'"
    and "client_list peek db' = client_list peek db @ (if iHasValue S db (cl_key cid) then [] else [cid])"
    and "has_node db' (key_path (cl_key cid))"
    and "\<not> iHasValue S db (cl_key cid) \<Longrightarrow> peek db' (key_path (cl_key cid)) = strconv_Itoa (kcount peek db list_root)"
    and "api = Some a \<Longrightarrow> peek db' (cl_root cid @ [''apiId'']) = aGetApiId a"
    and "\<And>p. \<not> prefix list_root p \<Longrightarrow> \<not> prefix (key_path (cl_key cid)) p \<Longrightarrow> peek db' p = peek db p"
proof -
  let ?h = "\<lparr>ch_clientId = cid, ch_api = api\<rparr>" and ?n = "kcount peek db list_root"
  let ?new = "iSet S (iSet S (iSet S db (cl_list_key ''count'') (NewDynamicVar_int (wrap64 (?n + 1))))
      (cl_list_key (strconv_Itoa ?n)) (NewDynamicVar_string cid)) (cl_key cid) (NewDynamicVar_int ?n)"
  define db1 where "db1 = (if iHasValue S db (cl_key cid) then db else ?new)"
  define db2 where "db2 = (case api of Some a \<Rightarrow> iSet S db1 (cl_key cid @ ''.apiId'') (NewDynamicVar_string (aGetApiId a)) | None \<Rightarrow> db1)"
  have eq: "db' = UpdateLiveTime S now ?h db2"
    using assms(1) unfolding db' initialize_def runLocked_def db2_def db1_def
    by (cases "iHasValue S db (cl_key cid)") (simp_all add: Let_def getCount_kcount [OF _ keys_at_client(1)] split: option.split)
  have kp: "prefix (key_path (cl_key cid)) (cl_root cid)" "\<not> prefix list_root (key_path (cl_key cid))"
    "list_root @ p \<noteq> key_path (cl_key cid)" for p
    using key_path_cl [OF assms(2)] prefix_key_path_parts [of cid] by (simp_all add: cl_root_def list_root_def)
  note app = append_spec [OF assms(1) keys_at_client(1) assms(3,4) refl, where v = "NewDynamicVar_string cid"]
  have inv1: "invar db1" using assms(1) by (simp add: db1_def invar_set)
  have inv2: "invar db2" using inv1 by (simp add: db2_def invar_set split: option.splits)
  note live = UpdateLiveTime_spec [OF inv2, of now ?h]
  show "invar db'" unfolding eq by (rule live(1))
  have pk2: "peek db2 p = (case api of Some a \<Rightarrow> if p = cl_root cid @ [''apiId''] then aGetApiId a else peek db1 p | None \<Rightarrow> peek db1 p)" for p
    using inv1 by (simp add: db2_def peek_set key_path_live split: option.splits)
  have l1: "client_list peek db1 = client_list peek db @ (if iHasValue S db (cl_key cid) then [] else [cid])"
  proof (cases "iHasValue S db (cl_key cid)")
    case False
    have "klist peek ?new list_root = klist peek (iSet S (iSet S db (cl_list_key ''count'') (NewDynamicVar_int (wrap64 (?n + 1))))
      (cl_list_key (strconv_Itoa ?n)) (NewDynamicVar_string cid)) list_root"
      using app(1) kp(3) by (intro klist_cong) (simp_all add: peek_set)
    then show ?thesis using False app(2) by (simp add: db1_def)
  qed (simp add: db1_def)
  have "client_list peek db2 = client_list peek db1"
    by (rule klist_attr) (auto simp: pk2 split: option.splits)
  then show "client_list peek db' = client_list peek db @ (if iHasValue S db (cl_key cid) then [] else [cid])"
    using l1 live(3) eq by simp
  show "has_node db' (key_path (cl_key cid))"
    using inv2 kp(1) by (simp add: eq UpdateLiveTime_def node_set key_path_live)
  show "api = Some a \<Longrightarrow> peek db' (cl_root cid @ [''apiId'']) = aGetApiId a"
    using live(2) by (simp add: eq pk2)
  have attr: "key_path (cl_key cid) \<noteq> cl_root cid @ [k]" for k
    using kp(1) by (auto dest: prefix_length_le)
  show "peek db' (key_path (cl_key cid)) = strconv_Itoa ?n" if "\<not> iHasValue S db (cl_key cid)"
    using that live(2) attr app(1) by (simp add: eq pk2 db1_def peek_set split: option.splits)
  show "peek db' p = peek db p" if "\<not> prefix list_root p" "\<not> prefix (key_path (cl_key cid)) p" for p
  proof -
    have "\<not> prefix (cl_root cid) p" using that(2) kp(1) prefix_order.trans by blast
    then have "p \<noteq> cl_root cid @ q" for q by auto
    moreover have "p \<noteq> list_root @ q" "p \<noteq> key_path (cl_key cid)" for q using that by auto
    ultimately show ?thesis
      using live(2) assms(1) by (simp add: eq pk2 db1_def peek_set invar_set path_simps split: option.splits)
  qed
qed

lemma RemoveClient_spec:
  assumes "invar db" and "ch_clientId h \<noteq> []" and "peek db (key_path (cl_key (ch_clientId h))) = strconv_Itoa i"
    and "0 \<le> i" and "i < kcount peek db list_root" and "kcount peek db list_root < 2 ^ 63"
    and db': "db' = RemoveClientFromObservationSystem S True h db"
  shows "invar db'"
    and "client_list peek db' = take (nat i) (client_list peek db) @ drop (Suc (nat i)) (client_list peek db)"
    and "kcount peek db' list_root = kcount peek db list_root - 1"
    and "\<And>p. prefix (key_path (cl_key (ch_clientId h))) p \<Longrightarrow> \<not> has_node db' p \<and> peek db' p = []"
    and "\<And>p. \<not> prefix list_root p \<Longrightarrow> \<not> prefix (key_path (cl_key (ch_clientId h))) p \<Longrightarrow> peek db' p = peek db p"
proof -
  let ?cid = "ch_clientId h" and ?n = "kcount peek db list_root"
  let ?rem = "iSet S (iDeleteValue S (close_gap S cl_list_key i (?n - 1) db) (cl_list_key (strconv_Itoa (?n - 1))) False)
      (cl_list_key ''count'') (NewDynamicVar_int (?n - 1))"
  have kp: "\<not> prefix (key_path (cl_key ?cid)) (list_root @ p)" "list_root @ p \<noteq> key_path (cl_key ?cid)" for p
    using assms(2) by (auto simp: path_simps list_root_def)
  have node: "has_node db (key_path (cl_key ?cid))" using peek_no_node [OF assms(1)] assms(3) strconv_Itoa_neq_Nil by metis
  have range: "int64_range i" "int64_range (?n - 1)" using assms(4,5,6) by (simp_all add: int64_range_def)
  have "GetInt64 (iGet S db (cl_key ?cid) (NewDynamicVar_int (- 1))) = i"
    using node assms(1,3) range(1) by (simp add: GetInt64_num_of get_value)
  then have eq: "db' = iDeleteValue S ?rem (cl_key ?cid) True"
    using assms(1,4) range(2)
    by (simp add: db' RemoveClientFromObservationSystem_def runLocked_def Let_def getCount_kcount [OF _ keys_at_client(1)])
  note rem = remove_index_spec [OF assms(1) keys_at_client(1) refl assms(4,5) refl]
  have pk: "peek db' (list_root @ p) = peek ?rem (list_root @ p)" for p
    using rem(1) kp [of p] by (simp add: eq peek_delete)
  show "invar db'" unfolding eq by (rule invar_delete [OF rem(1)])
  show "client_list peek db' = take (nat i) (client_list peek db) @ drop (Suc (nat i)) (client_list peek db)"
    using rem(2) klist_cong(1) [of peek db' list_root ?rem] pk by simp
  show "kcount peek db' list_root = ?n - 1"
    using rem(4) klist_cong(2) [of peek db' list_root ?rem] pk by simp
  show "\<not> has_node db' p \<and> peek db' p = []" if "prefix (key_path (cl_key ?cid)) p" for p
    using that rem(1) by (simp add: eq node_delete peek_delete)
  show "peek db' p = peek db p" if "\<not> prefix list_root p" "\<not> prefix (key_path (cl_key ?cid)) p" for p
  proof -
    have "p \<noteq> list_root @ [k]" "p \<noteq> key_path (cl_key ?cid)" for k using that by auto
    with that rem(1) rem(3) [of p] show ?thesis by (simp add: eq peek_delete)
  qed
qed

end

section \<open>Properties\<close>

text \<open>What \<open>NewControllerClientHelper\<close> stores about a client is found again: a later
  \<open>NewControllerClientHelperWithApis\<close> gives the helper bound to the API the client connected through, a client
  that was not known yet is appended to the list of clients, and a known one is not listed twice.\<close>

theorem client_found_after_registration:
  assumes "db_wf r" and "cid \<noteq> []" and "0 \<le> kcount db_peek r list_root" and "kcount db_peek r list_root < 2 ^ 63 - 1"
    and "NewControllerClientHelper ramStorage True now cid (Some api) r = (h, r')"
    and "aGetApiId api \<noteq> []" and "map_of apis (aGetApiId api) = Some api"
  shows "fst (NewControllerClientHelperWithApis ramStorage acq now' cid apis r') = Inr h \<and>
    client_list db_peek r' = client_list db_peek r @ (if HasValue r (cl_key cid) then [] else [cid]) \<and>
    HasValue r' (cl_key cid)"
proof -
  have h: "h = \<lparr>ch_clientId = cid, ch_api = Some api\<rparr>" "r' = initialize ramStorage True now \<lparr>ch_clientId = cid, ch_api = Some api\<rparr> r"
    using assms(5) by (auto simp: NewControllerClientHelper_def Let_def)
  note init = ram.initialize_spec [OF assms(1-4) h(2)]
  have "getString ramStorage r' (cl_key cid @ ''.apiId'') = aGetApiId api"
    using init(1) init(5) [OF refl] by (simp add: ram.getString_peek key_path_live)
  then have "fst (NewControllerClientHelperWithApis ramStorage acq now' cid apis r') = Inr h"
    using assms(6,7) by (simp add: NewControllerClientHelperWithApis_def NewControllerClientHelper_def Let_def h(1))
  then show ?thesis
    using init(2,3) ram.has_value [OF init(1), of "cl_key cid"] by simp
qed

definition demo_api :: IApi where
  "demo_api = \<lparr>aGetApiId = ''VSTP'', aCheckAlive = (\<lambda>_. True), aNotifyClient = (\<lambda>_ _. True), aAliveAfter = (\<lambda>_ _. True)\<rparr>"

lemma no_clients: "client_list db_peek one_var_db = []" "kcount db_peek one_var_db list_root = 0"
  by (simp_all add: klist_def kcount_def db_peek_def list_root_def one_var_db_def value_at_def)

theorem client_found_after_registration_witness:
  "fst (NewControllerClientHelperWithApis ramStorage True 7 ''c1'' [(''VSTP'', demo_api)]
     (snd (NewControllerClientHelper ramStorage True 5 ''c1'' (Some demo_api) one_var_db))) =
   Inr \<lparr>ch_clientId = ''c1'', ch_api = Some demo_api\<rparr>"
  using client_found_after_registration [OF one_var_db_wf, of "''c1''" 5 demo_api, OF _ _ _ prod.collapse [symmetric],
      of "[(''VSTP'', demo_api)]" True 7]
  by (simp add: no_clients) (simp add: demo_api_def NewControllerClientHelper_def Let_def)

text \<open>The variables a client observes: \<open>RegisterNewObservation\<close> adds one entry to what
  \<open>GetObservingVars\<close> returns, \<open>UnregisterObservation\<close> takes it away again, and both keep the stored list in
  the form in which \<open>GetObservingVars\<close> finds exactly its entries.\<close>

theorem observing_vars_register_unregister:
  assumes "db_wf r" and "knodes db_node db_peek r (cl_root (ch_clientId h) @ [''observing''])"
    and "kcount db_peek r (cl_root (ch_clientId h) @ [''observing'']) < 2 ^ 63 - 1" and "v \<noteq> []"
    and "r1 = RegisterNewObservation ramStorage True now h v r"
    and "r2 = UnregisterObservation ramStorage True now' h v r1"
  shows "mset (GetObservingVars ramStorage h r1) = add_mset v (mset (GetObservingVars ramStorage h r)) \<and>
    mset (GetObservingVars ramStorage h r2) = mset (GetObservingVars ramStorage h r) \<and>
    knodes db_node db_peek r1 (cl_root (ch_clientId h) @ [''observing'']) \<and>
    knodes db_node db_peek r2 (cl_root (ch_clientId h) @ [''observing''])"
proof -
  let ?R = "cl_root (ch_clientId h) @ [''observing'']"
  have n0: "0 \<le> kcount db_peek r ?R" using assms(2) by (simp add: knodes_def)
  note reg = ram.RegisterNewObservation_spec [OF assms(1) n0 assms(3,5)]
  have k1: "knodes db_node db_peek r1 ?R" by (rule ram.knodes_register [OF assms(1-3,5)])
  have n1: "0 \<le> kcount db_peek r1 ?R" using k1 by (simp add: knodes_def)
  note unreg = ram.UnregisterObservation_spec [OF reg(1) n1 assms(6)]
  have k2: "knodes db_node db_peek r2 ?R" by (rule ram.knodes_unregister [OF reg(1) k1 assms(6)])
  have strip: "strip_vars (''vars.'' @ v) = v" using assms(4) by (simp add: strip_vars_def strings_HasPrefix_def)
  note gets = ram.GetObservingVars_spec [OF assms(1,2)] ram.GetObservingVars_spec [OF reg(1) k1]
    ram.GetObservingVars_spec [OF unreg(1) k2]
  show ?thesis
    using k1 k2 strip unfolding gets mset_map unreg(2) mset_remove1 reg(2) by simp
qed

theorem observing_vars_register_unregister_witness:
  "mset (GetObservingVars ramStorage \<lparr>ch_clientId = ''c1'', ch_api = None\<rparr>
     (RegisterNewObservation ramStorage True 9 \<lparr>ch_clientId = ''c1'', ch_api = None\<rparr> ''a'' one_var_db)) = {#''a''#}"
proof -
  let ?h = "\<lparr>ch_clientId = ''c1'', ch_api = None\<rparr>"
  have "db_node one_var_db p \<Longrightarrow> length p \<le> 2" for p
    by (cases p rule: list.exhaust; cases "tl p"; cases "tl (tl p)")
      (auto simp: db_node_def one_var_db_def value_at_def split: if_splits)
  then have nodes: "\<not> db_node one_var_db (cl_root ''c1'' @ q)" for q by (force simp: cl_root_def)
  have count: "kcount db_peek one_var_db (cl_root ''c1'' @ [''observing'']) = 0"
    by (simp add: kcount_def db_peek_def cl_root_def one_var_db_def value_at_def)
  have k: "knodes db_node db_peek one_var_db (cl_root (ch_clientId ?h) @ [''observing''])"
    using nodes by (simp add: knodes_def count)
  have "GetObservingVars ramStorage ?h one_var_db = []"
    using ram.GetObservingVars_spec [OF one_var_db_wf k] by (simp add: klist_def count)
  then show ?thesis
    using observing_vars_register_unregister [OF one_var_db_wf k _ _ refl refl, of "''a''" 9] count by simp
qed

text \<open>Removing a client shifts the list of clients but not the indices stored with the clients, so later
  removals hit the wrong entry: after the clients \<open>a\<close> and \<open>b\<close> of the list \<open>a, b, c\<close> have been removed in this
  order, the list holds the removed client \<open>b\<close> and has lost the connected client \<open>c\<close>.\<close>

theorem client_removal_uses_stale_index:
  assumes "db_wf r" and "a \<noteq> []" and "b \<noteq> []" and "client_list db_peek r = [a, b, c]"
    and "db_peek r (key_path (cl_key a)) = strconv_Itoa 0" and "db_peek r (key_path (cl_key b)) = strconv_Itoa 1"
    and "\<not> prefix (key_path (cl_key a)) (key_path (cl_key b))"
  shows "client_list db_peek
      (RemoveClientFromObservationSystem ramStorage True \<lparr>ch_clientId = b, ch_api = api\<rparr>
        (RemoveClientFromObservationSystem ramStorage True \<lparr>ch_clientId = a, ch_api = api\<rparr> r)) = [b]"
proof -
  have "length (client_list db_peek r) = 3" using assms(4) by simp
  then have n: "kcount db_peek r list_root = 3" by simp
  have r1: "client_list db_peek r1 = [b, c] \<and> kcount db_peek r1 list_root = 2 \<and> db_wf r1 \<and>
      db_peek r1 (key_path (cl_key b)) = strconv_Itoa 1"
    if "r1 = RemoveClientFromObservationSystem ramStorage True \<lparr>ch_clientId = a, ch_api = api\<rparr> r" for r1
  proof -
    have "\<not> prefix list_root (key_path (cl_key b))" using assms(3) by (simp add: path_simps list_root_def)
    then show ?thesis
      using ram.RemoveClient_spec [of r "\<lparr>ch_clientId = a, ch_api = api\<rparr>" 0 r1] assms n that by simp
  qed
  then show ?thesis
    using ram.RemoveClient_spec(2) [of _ "\<lparr>ch_clientId = b, ch_api = api\<rparr>" 1, OF _ _ _ _ _ _ refl] assms(3) by simp
qed

definition leaf :: "string \<Rightarrow> string \<Rightarrow> string \<times> ramNode" where
  "leaf k v = (k, RamNode k (NewDynamicVar_string v) [])"

definition inner :: "string \<Rightarrow> (string \<times> ramNode) list \<Rightarrow> string \<times> ramNode" where
  "inner k cs = (k, RamNode k NewEmptyDynamicVar cs)"

text \<open>The database after three clients have connected.\<close>

definition three_clients :: RamCacheDB where
  "three_clients = one_var_db\<lparr>root := RamNode [] NewEmptyDynamicVar
     [inner ''internal'' [inner ''clients''
       [inner ''list'' [leaf ''count'' ''3'', leaf ''0'' ''c1'', leaf ''1'' ''c2'', leaf ''2'' ''c3''],
        inner ''byId'' [leaf ''c1'' ''0'', leaf ''c2'' ''1'', leaf ''c3'' ''2'']]]]\<rparr>"

lemma three_clients_wf: "db_wf three_clients"
  by (simp add: db_wf_def three_clients_def leaf_def inner_def)

lemma three_clients_props:
  "client_list db_peek three_clients = [''c1'', ''c2'', ''c3'']"
  "db_peek three_clients (key_path (cl_key ''c1'')) = strconv_Itoa 0"
  "db_peek three_clients (key_path (cl_key ''c2'')) = strconv_Itoa 1"
proof -
  have itoa: "strconv_Itoa 0 = ''0''" "strconv_Itoa 1 = ''1''" "strconv_Itoa 2 = ''2''" "strconv_Itoa 3 = ''3''"
    by code_simp+
  have "num_of (strconv_Itoa 3) = 3" by (rule num_of_Itoa) (simp add: int64_range_def)
  then have num: "num_of ''3'' = 3" by (simp only: itoa)
  have paths: "key_path (cl_key ''c1'') = [''internal'', ''clients'', ''byId'', ''c1'']"
    "key_path (cl_key ''c2'') = [''internal'', ''clients'', ''byId'', ''c2'']"
    by (simp_all add: path_simps)
  note defs = db_peek_def three_clients_def leaf_def inner_def value_at_def list_root_def
  have cnt: "kcount db_peek three_clients list_root = 3" by (simp add: kcount_def defs num)
  have "[0..<nat 3] = [0, 1, 2]" by (simp add: upt_rec)
  then show "client_list db_peek three_clients = [''c1'', ''c2'', ''c3'']"
    by (simp add: klist_def cnt itoa) (simp add: defs)
  show "db_peek three_clients (key_path (cl_key ''c1'')) = strconv_Itoa 0"
    "db_peek three_clients (key_path (cl_key ''c2'')) = strconv_Itoa 1"
    by (simp_all add: paths itoa defs)
qed

theorem client_removal_uses_stale_index_witness:
  "client_list db_peek
      (RemoveClientFromObservationSystem ramStorage True \<lparr>ch_clientId = ''c2'', ch_api = None\<rparr>
        (RemoveClientFromObservationSystem ramStorage True \<lparr>ch_clientId = ''c1'', ch_api = None\<rparr> three_clients)) = [''c2'']"
  by (rule client_removal_uses_stale_index [OF three_clients_wf _ _ three_clients_props]) (simp_all add: path_simps)

end
