(* ===== verification/Controller.thy ===== *)
theory Controller
  imports ClientHelper
begin

text \<open>
  \<open>TheController\<close> (\<open>controller.go\<close>): the operations the APIs call, on the tree storage. The goroutines
  an operation starts are values of \<open>task\<close> that it returns; running one is \<open>run_task\<close>, and
  \<open>sys_step\<close> is the system in which operations and pending tasks run in any order. The channels the
  operations return carry one result each, which is the result of the function here.
  \<open>env\<close> holds what an operation reads from its surroundings: the clock and whether each named lock is
  acquired before its timeout.
\<close>

section \<open>The controller\<close>

record TheController =
  apis :: "(string \<times> IApi) list"
  maxTimeWaitingClientSecond :: int
  systemVersion :: string
  maxKeyLength :: int
  maxKeyWordLength :: int
  maxValueSize :: int
  allowRawDbAccess :: bool

text \<open>\<open>NewController\<close>: \<open>conf\<close> gives the value of a configuration.\<close>

definition NewController :: "(string \<Rightarrow> DynamicVar) \<Rightarrow> string \<Rightarrow> TheController" where
  "NewController conf version =
     \<lparr>apis = [],
      maxTimeWaitingClientSecond =
        (if 0 < GetInt64 (conf ''maxTimeWaitingClient_seconds'') then GetInt64 (conf ''maxTimeWaitingClient_seconds'')
         else 12 * 60 * 60),
      systemVersion = version,
      maxKeyLength = GetInt64 (conf ''maxKeyLength''),
      maxKeyWordLength = GetInt64 (conf ''maxKeyWordLength''),
      maxValueSize = GetInt64 (conf ''maxValueSize''),
      allowRawDbAccess = GetBool (conf ''allowRawDbAccess'')\<rparr>"

record env =
  acq :: "string \<Rightarrow> bool"
  now :: int

text \<open>The goroutines the controller starts: the notification of a change, the delivery of one
  notification to one client, and the update of a client that has just connected.\<close>

datatype task =
  NotifyModification string DynamicVar
| NotifyClientTask string string string DynamicVar
| UpdateClientTask ControllerClientHelper

definition vh_for :: "TheController \<Rightarrow> string \<Rightarrow> ControllerVarHelper" where
  "vh_for c name = SetControlledVarName name (NewControllerVarHelper (allowRawDbAccess c))"

definition obs_acq :: "env \<Rightarrow> ControllerVarHelper \<Rightarrow> bool" where
  "obs_acq e vh = acq e (vh_name vh @ ''._observationLock'')"

definition cl_acq :: "env \<Rightarrow> bool" where
  "cl_acq e = acq e ''db.intenal.clients''"

section \<open>Variables\<close>

definition valid_name_chars :: string where
  "valid_name_chars =
     ''abcdefghijklmnopqrstuvwxyzABCDEFGHIJKLMNOPQRSTUVWXYZ0123456789._/'' @ [CHR 92] @ '',.-*''"

fun containsUnderscoreDot :: "string \<Rightarrow> bool" where
  "containsUnderscoreDot (a # b # s) \<longleftrightarrow> a = CHR ''.'' \<and> b = CHR ''_'' \<or> containsUnderscoreDot (b # s)"
| "containsUnderscoreDot _ \<longleftrightarrow> False"

text \<open>\<open>SetVar\<close>: the error if any, the database and the started goroutines. Go's \<open>&&\<close> binds tighter than
  \<open>||\<close>, so the second test of the underscore guard applies in raw mode too.\<close>

definition SetVar :: "TheController \<Rightarrow> string \<Rightarrow> DynamicVar \<Rightarrow> RamCacheDB \<Rightarrow> string option \<times> RamCacheDB \<times> task list" where
  "SetVar c name0 value db =
     (let name = GetOnly name0 valid_name_chars
      in if name = [] then (Some ''variable name cannot be empty'', db, [])
         else if \<not> allowRawDbAccess c \<and> hd name = CHR ''_'' \<or> containsUnderscoreDot name
         then (Some ''variables started with underscore are for internal use only'', db, [])
         else if int (length name) > maxKeyLength c
         then (Some (''variable name exceeds maximum length of '' @ strconv_Itoa (maxKeyLength c)), db, [])
         else if int (length (GetString value)) > maxValueSize c
         then (Some (''variable value exceeds maximum size of '' @ strconv_Itoa (maxValueSize c)), db, [])
         else if maxKeyWordLength c > 0 \<and> (\<exists>p \<in> set (strings_Split CHR ''.'' name). int (length p) > maxKeyWordLength c)
         then (Some (''a part of the variable name exceeds maximum length of '' @ strconv_Itoa (maxKeyWordLength c)), db, [])
         else if IsLocked ramStorage (vh_for c name) db then (Some ''variable is locked'', db, [])
         else let value' = SetString (GetString value) value
              in (None, SetValue ramStorage (vh_for c name) value' db, [NotifyModification name value']))"

text \<open>The depth of the recursion of \<open>readFromDb\<close> is bounded by the tree.\<close>

fun tree_height :: "ramNode \<Rightarrow> nat" where
  "tree_height (RamNode n v cs) = Suc (foldr (\<lambda>(k, c). max (tree_height c)) cs 0)"

lemma tree_height_child: "(k, c) \<in> set cs \<Longrightarrow> tree_height c < tree_height (RamNode n v cs)"
  by (induction cs) (auto simp: less_Suc_eq_le max_def split: if_splits)

lemma tree_height_path: "node_at t p \<noteq> None \<Longrightarrow> length p < tree_height t"
proof (induction p arbitrary: t)
  case Nil
  show ?case by (cases t) simp
next
  case (Cons k p)
  then obtain c where "map_of (childs t) k = Some c" "node_at c p \<noteq> None"
    by (auto split: option.splits)
  with Cons.IH [of c] tree_height_child [of k c "childs t" "imediateName t" "node_value t"] show ?case
    by (auto dest: map_of_SomeD)
qed

definition name_depth :: "string \<Rightarrow> nat" where
  "name_depth nname = (if nname = [] then 0 else length (parts nname))"

lemma length_parts_key_path: "length (parts s) \<le> Suc (length (key_path s))"
  by (simp add: key_path_parts)

lemma vh_name_for:
  "vh_name (vh_for c nname) =
     (if allowRawDbAccess c \<or> strings_HasPrefix nname ''vars.'' then nname else ''vars.'' @ nname)"
  by (simp add: vh_for_def SetControlledVarName_def NewControllerVarHelper_def)

lemma name_depth_bound:
  assumes "k \<in> set (GetChildNames ramStorage (vh_for c nname) db)"
  shows "name_depth nname < tree_height (root db)"
proof -
  let ?n = "vh_name (vh_for c nname)"
  have k: "k \<in> set (GetChilds db ?n)" using assms by (simp add: GetChildNames_def ramStorage_def)
  show ?thesis
  proof (cases "?n = []")
    case True
    then have "nname = []" by (simp add: vh_name_for split: if_splits)
    then show ?thesis by (cases "root db") (simp add: name_depth_def)
  next
    case False
    have "node_at (root db) (key_path ?n @ [k]) \<noteq> None"
      using k GetChilds_set [OF False, of db] by (auto simp: value_at_def)
    from tree_height_path [OF this] have "Suc (length (key_path ?n)) < tree_height (root db)" by simp
    moreover have "name_depth nname \<le> Suc (length (key_path ?n))"
      using length_parts_key_path [of nname] key_path_append_dot [of nname "''vars''"]
      by (auto simp: name_depth_def vh_name_for parts_no_dot)
    ultimately show ?thesis by simp
  qed
qed

lemma name_depth_child:
  "k \<noteq> [] \<Longrightarrow> name_depth nname < name_depth ((if nname \<noteq> [] then nname @ ''.'' else nname) @ k)"
  by (auto simp: name_depth_def parts_append_dot)

function readFromDb :: "TheController \<Rightarrow> string \<Rightarrow> bool \<Rightarrow> RamCacheDB \<Rightarrow> (string \<times> DynamicVar) list" where
  "readFromDb c nname childsToo db =
     (let vh = vh_for c nname;
          dv = GetValue ramStorage vh db;
          res = (if GetString dv \<noteq> [] then [(nname, dv)] else [])
      in if childsToo
         then let prefix = (if nname \<noteq> [] then nname @ ''.'' else nname)
              in foldl (\<lambda>res cur. readFromDb c (prefix @ cur) childsToo db @ res) res (GetChildNames ramStorage vh db)
         else res)"
  by pat_completeness auto
termination
proof (relation "measure (\<lambda>(_, nname, _, db). tree_height (root db) - name_depth nname)", goal_cases)
  case (2 c nname childsToo db vh dv res prefix acc cur)
  have k: "cur \<in> set (GetChildNames ramStorage (vh_for c nname) db)" using 2 by simp
  then have "cur \<noteq> []" by (simp add: GetChildNames_def)
  from name_depth_bound [OF k] name_depth_child [OF this, of nname] 2(5) show ?case by simp
qed simp

declare readFromDb.simps [simp del]

definition GetVars :: "TheController \<Rightarrow> string \<Rightarrow> DynamicVar \<Rightarrow> RamCacheDB \<Rightarrow> string + (string \<times> DynamicVar) list" where
  "GetVars c name defaultValue db =
     (if name = [] then Inl ''variable name cannot be empty''
      else if strings_Contains name ''*'' \<and> \<not> strings_HasSuffix name ''*''
      then Inl ''wildcard can only be used at the end of the var name''
      else let childsToo = strings_Contains name ''*'';
               namep = (if childsToo then
                          strings_TrimSuffix
                            (if strings_HasSuffix name ''.*'' then take (length name - 2) name else take (length name - 1) name) ''.''
                        else name);
               values = readFromDb c namep childsToo db
           in Inr (if values = [] then [(namep, defaultValue)] else values))"

definition DelVar :: "TheController \<Rightarrow> string \<Rightarrow> RamCacheDB \<Rightarrow> string option \<times> RamCacheDB \<times> task list" where
  "DelVar c varname db =
     (case GetVars c varname (NewDynamicVar_string []) db of
        Inl err \<Rightarrow> (Some err, db, [])
      | Inr vals \<Rightarrow>
          if vals = [] then (Some ''error deleting variable: maybe it doesn't exist'', db, [])
          else (None, foldl (\<lambda>db (nameStr, _). vh_DeleteValue ramStorage (vh_for c nameStr) db) db vals,
                map (\<lambda>(nameStr, _). NotifyModification nameStr (NewDynamicVar_string [])) vals))"

definition GetChildsOfVar :: "TheController \<Rightarrow> string \<Rightarrow> RamCacheDB \<Rightarrow> string list" where
  "GetChildsOfVar c parentName db =
     (if strings_Contains parentName ''*'' then [] else GetChildNames ramStorage (vh_for c parentName) db)"

definition LockVar ::
    "TheController \<Rightarrow> string \<Rightarrow> int \<Rightarrow> (int \<times> (RamCacheDB \<Rightarrow> RamCacheDB)) list \<Rightarrow> RamCacheDB \<Rightarrow> (string option \<times> RamCacheDB) option" where
  "LockVar c varName timeoutMs sched db = vh_Lock ramStorage (vh_for c varName) timeoutMs sched db"

definition UnlockVar :: "TheController \<Rightarrow> string \<Rightarrow> RamCacheDB \<Rightarrow> string option \<times> RamCacheDB" where
  "UnlockVar c varName db = (None, vh_Unlock ramStorage (vh_for c varName) db)"

definition IsVarLocked :: "TheController \<Rightarrow> string \<Rightarrow> RamCacheDB \<Rightarrow> bool" where
  "IsVarLocked c varName db = IsLocked ramStorage (vh_for c varName) db"

section \<open>Clients\<close>

text \<open>What an operation of the controller has to say to the outside: the API calls it made.\<close>

type_synonym sent = "(string \<times> string \<times> payload) list"

text \<open>\<open>getVarInternal\<close>: the variable, when it has a value, and its visible children.\<close>

definition getVarInternal :: "TheController \<Rightarrow> string \<Rightarrow> RamCacheDB \<Rightarrow> (string \<times> string) list" where
  "getVarInternal c name db =
     (let vh = vh_for c name;
          dv = GetString (GetValue ramStorage vh db)
      in (if dv \<noteq> [] then [(name, dv)] else []) @
         map (\<lambda>ch. let full = (if name \<noteq> [] then name @ ''.'' @ ch else ch)
                   in (full, GetString (GetValue ramStorage (vh_for c full) db)))
           (GetChildNames ramStorage vh db))"

definition deleteClient :: "TheController \<Rightarrow> env \<Rightarrow> ControllerClientHelper \<Rightarrow> RamCacheDB \<Rightarrow> RamCacheDB" where
  "deleteClient c e ch db =
     (let vars = GetObservingVars ramStorage ch db;
          db1 = RemoveClientFromObservationSystem ramStorage (cl_acq e) ch db
      in foldl (\<lambda>db currVar. let vh = vh_for c currVar
                 in RemoveAllClientObservations ramStorage (obs_acq e vh) vh (GetClientId ch) db) db1 vars)"

definition checkClientLiveTime :: "TheController \<Rightarrow> env \<Rightarrow> ControllerClientHelper \<Rightarrow> RamCacheDB \<Rightarrow> RamCacheDB" where
  "checkClientLiveTime c e ch db =
     (let (connected, db1) = IsConnected ramStorage (now e) ch db
      in if \<not> connected \<and> TimeSinceLastLiveTime ramStorage (now e) ch db1 \<ge> maxTimeWaitingClientSecond c
         then deleteClient c e ch db1 else db1)"

text \<open>The API as it is after it was asked to deliver \<open>pl\<close> to the client \<open>cid\<close>.\<close>

definition api_after :: "string \<Rightarrow> payload \<Rightarrow> IApi \<Rightarrow> IApi" where
  "api_after cid pl api = api\<lparr>aCheckAlive := (aCheckAlive api)(cid := aAliveAfter api cid pl)\<rparr>"

text \<open>\<open>Notify\<close> followed by the check its callers make when the client did not take the message. The check asks the API
  again, which may have lost the client in between.\<close>

definition notify_checked ::
    "TheController \<Rightarrow> env \<Rightarrow> ControllerClientHelper \<Rightarrow> payload \<Rightarrow> RamCacheDB \<Rightarrow> bool \<times> RamCacheDB \<times> sent" where
  "notify_checked c e ch pl db =
     (let (res, db1, out) = Notify ramStorage (now e) ch pl db
      in if res \<noteq> ''LIVE''
         then (False, checkClientLiveTime c e (ch\<lparr>ch_api := map_option (api_after (ch_clientId ch) pl) (ch_api ch)\<rparr>) db1, out)
         else (True, db1, out))"

definition ObserveVar ::
    "TheController \<Rightarrow> env \<Rightarrow> string \<Rightarrow> string \<Rightarrow> string \<Rightarrow> IApi option \<Rightarrow> RamCacheDB \<Rightarrow> RamCacheDB \<times> sent" where
  "ObserveVar c e varName clientId customIdsAndMetainfo api db =
     (let vh = vh_for c varName
      in if \<not> IsClientObserving ramStorage vh clientId customIdsAndMetainfo db then
           let (client, db1) = NewControllerClientHelper ramStorage (cl_acq e) (now e) clientId api db;
               db2 = fst (RegisterObservation ramStorage (obs_acq e vh) vh clientId customIdsAndMetainfo db1);
               db3 = RegisterNewObservation ramStorage (cl_acq e) (now e) client varName db2;
               pl = map (\<lambda>(n, v). (n, customIdsAndMetainfo, v)) (getVarInternal c varName db3);
               (_, db4, out) = notify_checked c e client pl db3
           in (db4, out)
         else (db, []))"

definition StopObservingVar ::
    "TheController \<Rightarrow> env \<Rightarrow> string \<Rightarrow> string \<Rightarrow> string \<Rightarrow> IApi option \<Rightarrow> RamCacheDB \<Rightarrow> RamCacheDB" where
  "StopObservingVar c e varName clientId customIdsAndMetainfo api db =
     (let vh = vh_for c varName;
          db1 = RemoveObservationByClientAndMetadata ramStorage (obs_acq e vh) vh clientId customIdsAndMetainfo db;
          (ch, db2) = NewControllerClientHelper ramStorage (cl_acq e) (now e) clientId api db1
      in UnregisterObservation ramStorage (cl_acq e) (now e) ch varName db2)"

definition ApiStarted :: "IApi \<Rightarrow> TheController \<Rightarrow> TheController" where
  "ApiStarted api c = c\<lparr>apis := AList.update (aGetApiId api) api (apis c)\<rparr>"

text \<open>\<open>ClientConnected\<close>: a client without an id gets the clock in nanoseconds (\<open>nanos\<close>) as its id.\<close>

definition ClientConnected ::
    "env \<Rightarrow> int \<Rightarrow> string \<Rightarrow> IApi \<Rightarrow> RamCacheDB \<Rightarrow> (string \<times> int) \<times> RamCacheDB \<times> task list" where
  "ClientConnected e nanos clientId0 api db =
     (let clientId = (if clientId0 = [] then strconv_Itoa nanos else clientId0);
          (client, db1) = NewControllerClientHelper ramStorage (cl_acq e) (now e) clientId (Some api) db
      in ((clientId, GetObservingVarsCount ramStorage client db1), db1, [UpdateClientTask client]))"

definition update_payload :: "TheController \<Rightarrow> ControllerClientHelper \<Rightarrow> string \<Rightarrow> RamCacheDB \<Rightarrow> payload" where
  "update_payload c ch v db =
     concat (map (\<lambda>(vName, vValue).
       let metadatas = GetMetadatasOfAClient ramStorage (vh_for c vName) (GetClientId ch) db
       in if metadatas = [] then [(vName, [], vValue)]
          else map (\<lambda>metadata. (vName, metadata, vValue)) metadatas) (getVarInternal c v db))"

fun update_loop ::
    "TheController \<Rightarrow> env \<Rightarrow> ControllerClientHelper \<Rightarrow> string list \<Rightarrow> RamCacheDB \<Rightarrow> RamCacheDB \<times> sent" where
  "update_loop c e ch [] db = (db, [])"
| "update_loop c e ch (v # vs) db =
     (let (live, db1, out) = notify_checked c e ch (update_payload c ch v db) db
      in if live then let (db2, out2) = update_loop c e ch vs db1 in (db2, out @ out2) else (db1, out))"

definition updateClientAboutObservatingVars ::
    "TheController \<Rightarrow> env \<Rightarrow> ControllerClientHelper \<Rightarrow> RamCacheDB \<Rightarrow> RamCacheDB \<times> sent" where
  "updateClientAboutObservatingVars c e ch db = update_loop c e ch (GetObservingVars ramStorage ch db) db"

section \<open>Notifications\<close>

definition notifyClientsAboutVarChange :: "(string \<times> string \<times> string) list \<Rightarrow> string \<Rightarrow> DynamicVar \<Rightarrow> task list" where
  "notifyClientsAboutVarChange observations changedVarName value =
     map (\<lambda>(_, clientId, metadata). NotifyClientTask clientId metadata changedVarName value) observations"

text \<open>The goroutine \<open>notifyClientsAboutVarChange\<close> starts for each observation.\<close>

definition notify_one ::
    "TheController \<Rightarrow> env \<Rightarrow> string \<Rightarrow> string \<Rightarrow> string \<Rightarrow> DynamicVar \<Rightarrow> RamCacheDB \<Rightarrow> RamCacheDB \<times> sent" where
  "notify_one c e clientId metadata changedVarName value db =
     (case NewControllerClientHelperWithApis ramStorage (cl_acq e) (now e) clientId (apis c) db of
        (Inl _, db1) \<Rightarrow>
          (let (ch2, db2) = NewControllerClientHelper ramStorage (cl_acq e) (now e) clientId None db1
           in (deleteClient c e ch2 db2, []))
      | (Inr ch, db1) \<Rightarrow>
          (let (_, db2, out) = notify_checked c e ch [(changedVarName, metadata, GetString value)] db1
           in (db2, out)))"

definition lastDotIndex :: "string \<Rightarrow> int" where
  "lastDotIndex s = (case strings_LastIndexByte s CHR ''.'' of None \<Rightarrow> - 1 | Some i \<Rightarrow> int i)"

definition observations_of :: "TheController \<Rightarrow> env \<Rightarrow> string \<Rightarrow> RamCacheDB \<Rightarrow> (string \<times> string \<times> string) list" where
  "observations_of c e pattern db =
     (let vh = vh_for c pattern in GetAllObservations ramStorage (obs_acq e vh) vh db)"

function notifyParentGenericObservers ::
    "TheController \<Rightarrow> env \<Rightarrow> string \<Rightarrow> string \<Rightarrow> DynamicVar \<Rightarrow> RamCacheDB \<Rightarrow> task list" where
  "notifyParentGenericObservers c e varName changedVarName value db =
     (let idx = lastDotIndex varName
      in if idx \<noteq> - 1 then
           let parent = take (nat idx) varName
           in notifyClientsAboutVarChange (observations_of c e (parent @ ''.*'') db) changedVarName value @
              notifyParentGenericObservers c e parent changedVarName value db
         else [])"
  by pat_completeness auto
termination
  by (relation "measure (\<lambda>(_, _, varName, _, _, _). length varName)")
    (auto simp: lastDotIndex_def dest: strings_LastIndexByte_Some split: option.splits)

declare notifyParentGenericObservers.simps [simp del]

definition notifyVarModification :: "TheController \<Rightarrow> env \<Rightarrow> string \<Rightarrow> DynamicVar \<Rightarrow> RamCacheDB \<Rightarrow> task list" where
  "notifyVarModification c e varName value db =
     notifyClientsAboutVarChange (observations_of c e varName db) varName value @
     notifyParentGenericObservers c e varName varName value db @
     notifyClientsAboutVarChange (observations_of c e (varName @ ''.*'') db) varName value"

definition GetSystemVersion :: "TheController \<Rightarrow> string" where
  "GetSystemVersion c = systemVersion c"

section \<open>Names and their paths\<close>

lemmas ram_rules = ram.invar_set [simplified] ram.invar_delete [simplified] ram.peek_set [simplified]
  ram.peek_delete [simplified] ram.has_value [simplified]

definition var_path :: "TheController \<Rightarrow> string \<Rightarrow> path" where
  "var_path c name = key_path (vh_name (vh_for c name))"

text \<open>A plain name is one that the controller does not take for an already prefixed one.\<close>

definition plain :: "TheController \<Rightarrow> string \<Rightarrow> bool" where
  "plain c name \<longleftrightarrow> \<not> allowRawDbAccess c \<and> \<not> strings_HasPrefix name ''vars.''"

lemma var_path_plain:
  "plain c name \<Longrightarrow> var_path c name = ''vars'' # (if name = [] then [] else key_path name)"
  using key_path_append_dot [of name "''vars''"] key_path_final_dot [of "''vars''"]
  by (simp add: var_path_def vh_name_for plain_def parts_no_dot)

lemma var_path_vars: "\<not> allowRawDbAccess c \<Longrightarrow> \<exists>q. var_path c name = ''vars'' # q"
proof (cases "strings_HasPrefix name ''vars.''")
  case True
  then obtain s where s: "name = ''vars'' @ CHR ''.'' # s" by (auto simp: strings_HasPrefix_def prefix_def)
  assume "\<not> allowRawDbAccess c"
  with True s show ?thesis
    using key_path_append_dot [of s "''vars''"] key_path_final_dot [of "''vars''"]
    by (cases "s = []") (simp_all add: var_path_def vh_name_for parts_no_dot)
qed (use var_path_plain plain_def in auto)

lemma containsUnderscoreDot_iff: "containsUnderscoreDot s \<longleftrightarrow> strings_Contains s ''._''"
proof (induction s rule: containsUnderscoreDot.induct)
  case (1 a b s)
  then show ?case by auto
qed auto

text \<open>A component of a name is its beginning or follows a dot.\<close>

lemma parts_elem_cases:
  assumes "k \<in> set (parts s)"
  shows "prefix k s \<or> strings_Contains s (CHR ''.'' # k)"
proof -
  obtain xs ys where p: "parts s = xs @ k # ys" using assms by (auto simp: in_set_conv_decomp)
  have s: "s = strings_Join (xs @ k # ys) ''.''" using p strings_Join_Split [of "CHR ''.''" s] by (simp add: parts_def)
  have tail: "\<exists>t. strings_Join (k # ys) ''.'' = k @ t" by (cases ys) auto
  show ?thesis
  proof (cases "xs = []")
    case True
    then show ?thesis using s tail by auto
  next
    case False
    then have "strings_Join (xs @ k # ys) ''.'' = strings_Join xs ''.'' @ ''.'' @ strings_Join (k # ys) ''.''"
      by (induction xs "''.''" rule: strings_Join.induct) auto
    with s tail show ?thesis unfolding strings_Contains_sublist by fastforce
  qed
qed

definition visible :: "path \<Rightarrow> bool" where
  "visible q \<longleftrightarrow> (\<forall>k \<in> set q. k = [] \<or> hd k \<noteq> CHR ''_'')"

lemma guarded_name_visible:
  assumes "hd name \<noteq> CHR ''_''" and "\<not> containsUnderscoreDot name"
  shows "visible (parts name)"
  unfolding visible_def
proof
  fix k assume "k \<in> set (parts name)"
  from parts_elem_cases [OF this] assms show "k = [] \<or> hd k \<noteq> CHR ''_''"
    by (cases k) (auto simp: containsUnderscoreDot_iff strings_Contains_sublist prefix_def)
qed

lemma visible_key_path: "visible (parts name) \<Longrightarrow> visible (key_path name)"
  by (auto simp: visible_def key_path_parts dest: in_set_butlastD split: if_splits)

lemma visible_Cons [simp]: "visible (k # q) \<longleftrightarrow> (k = [] \<or> hd k \<noteq> CHR ''_'') \<and> visible q"
  by (auto simp: visible_def)

lemma visible_append [simp]: "visible (p @ q) \<longleftrightarrow> visible p \<and> visible q"
  by (auto simp: visible_def)

lemma visible_Nil [simp]: "visible []"
  by (simp add: visible_def)

section \<open>Writing a variable\<close>

lemma SetValue_peek:
  "db_wf r \<Longrightarrow> db_peek (SetValue ramStorage (vh_for c name) v r) p =
    (if CHR ''*'' \<notin> set (vh_name (vh_for c name)) \<and> p = var_path c name then GetString v else db_peek r p)"
  by (simp add: SetValue_def var_path_def ram_rules)

lemma star_vh_name: "CHR ''*'' \<in> set (vh_name (vh_for c name)) \<longleftrightarrow> CHR ''*'' \<in> set name"
  by (simp add: vh_name_for)

lemma SetValue_wf: "db_wf r \<Longrightarrow> db_wf (SetValue ramStorage vh v r)"
  by (simp add: SetValue_def ram_rules)

definition accepts :: "TheController \<Rightarrow> string \<Rightarrow> DynamicVar \<Rightarrow> bool" where
  "accepts c name value \<longleftrightarrow> name \<noteq> [] \<and> (allowRawDbAccess c \<or> hd name \<noteq> CHR ''_'') \<and> \<not> strings_Contains name ''._'' \<and>
     int (length name) \<le> maxKeyLength c \<and> int (length (GetString value)) \<le> maxValueSize c \<and>
     (0 < maxKeyWordLength c \<longrightarrow> (\<forall>p \<in> set (parts name). int (length p) \<le> maxKeyWordLength c))"

lemma SetVar_cases:
  obtains err where "SetVar c n v db = (Some err, db, [])"
      and "\<not> accepts c (GetOnly n valid_name_chars) v \<or> IsLocked ramStorage (vh_for c (GetOnly n valid_name_chars)) db"
  | "SetVar c n v db = (None, SetValue ramStorage (vh_for c (GetOnly n valid_name_chars)) (SetString (GetString v) v) db,
        [NotifyModification (GetOnly n valid_name_chars) (SetString (GetString v) v)])"
      and "accepts c (GetOnly n valid_name_chars) v" and "\<not> IsLocked ramStorage (vh_for c (GetOnly n valid_name_chars)) db"
proof (cases "accepts c (GetOnly n valid_name_chars) v \<and> \<not> IsLocked ramStorage (vh_for c (GetOnly n valid_name_chars)) db")
  case True
  then have "SetVar c n v db = (None, SetValue ramStorage (vh_for c (GetOnly n valid_name_chars)) (SetString (GetString v) v) db,
        [NotifyModification (GetOnly n valid_name_chars) (SetString (GetString v) v)])"
    by (auto simp: SetVar_def Let_def accepts_def containsUnderscoreDot_iff parts_def [symmetric])
  with True that(2) show thesis by blast
next
  case False
  then have "\<exists>err. SetVar c n v db = (Some err, db, [])"
    by (auto simp: SetVar_def Let_def accepts_def containsUnderscoreDot_iff parts_def [symmetric])
  with False that(1) show thesis by blast
qed

lemma SetString_self [simp]: "SetString (GetString v) v = v"
  by (simp add: SetString_def GetString_def)

lemma GetString_inject [simp]: "GetString (a :: DynamicVar) = GetString b \<longleftrightarrow> a = b"
  by (cases a; cases b) (simp add: GetString_def)

lemma SetVar_resultD:
  assumes "SetVar c n v r = (err, r', ts)"
  shows "err \<noteq> None \<and> r' = r \<and> ts = [] \<and>
      (\<not> accepts c (GetOnly n valid_name_chars) v \<or> IsLocked ramStorage (vh_for c (GetOnly n valid_name_chars)) r) \<or>
    err = None \<and> r' = SetValue ramStorage (vh_for c (GetOnly n valid_name_chars)) v r \<and>
      ts = [NotifyModification (GetOnly n valid_name_chars) v] \<and> accepts c (GetOnly n valid_name_chars) v \<and>
      \<not> IsLocked ramStorage (vh_for c (GetOnly n valid_name_chars)) r"
  using assms by (cases rule: SetVar_cases [of c n v r]) auto


section \<open>Reading variables\<close>

lemma GetValue_peek: "db_wf r \<Longrightarrow> GetString (GetValue ramStorage (vh_for c n) r) = db_peek r (var_path c n)"
  using ram.get_string [of r "vh_name (vh_for c n)"] by (simp add: GetValue_def var_path_def)

text \<open>A tidy name: plain, with a value of its own in the tree, that is without a final dot, and not the
  name \<open>vars\<close>, whose children the controller looks up without the prefix.\<close>

definition tidy :: "TheController \<Rightarrow> string \<Rightarrow> bool" where
  "tidy c n \<longleftrightarrow> plain c n \<and> n \<noteq> ''vars'' \<and> (n = [] \<or> last (parts n) \<noteq> [])"

definition child_name :: "string \<Rightarrow> string \<Rightarrow> string" where
  "child_name n k = (if n \<noteq> [] then n @ ''.'' else n) @ k"

lemma HasPrefix_vars: "strings_HasPrefix n ''vars.'' \<longleftrightarrow> (\<exists>q. q \<noteq> [] \<and> parts n = ''vars'' # q)"
proof
  assume "strings_HasPrefix n ''vars.''"
  then obtain s where "n = ''vars'' @ CHR ''.'' # s" by (auto simp: strings_HasPrefix_def prefix_def)
  then have "parts n = ''vars'' # parts s" by (simp only: parts_append_dot) (simp add: parts_no_dot)
  then show "\<exists>q. q \<noteq> [] \<and> parts n = ''vars'' # q" by simp
next
  assume "\<exists>q. q \<noteq> [] \<and> parts n = ''vars'' # q"
  then obtain q where q: "q \<noteq> []" "parts n = ''vars'' # q" by blast
  have "n = strings_Join (parts n) ''.''" using strings_Join_Split [of "CHR ''.''" n] by (simp add: parts_def)
  then show "strings_HasPrefix n ''vars.''" using q by (cases q) (auto simp: strings_HasPrefix_def)
qed

lemma parts_child_name: "CHR ''.'' \<notin> set k \<Longrightarrow> parts (child_name n k) = (if n = [] then [] else parts n) @ [k]"
  by (auto simp: child_name_def parts_append_dot parts_no_dot)

lemma tidy_child:
  assumes "tidy c n" and "k \<noteq> []" and "CHR ''.'' \<notin> set k" and "n \<noteq> [] \<or> k \<noteq> ''vars''"
  shows "tidy c (child_name n k)" and "var_path c (child_name n k) = var_path c n @ [k]"
proof -
  have ne: "child_name n k \<noteq> []" using assms(2) by (simp add: child_name_def)
  have p: "parts (child_name n k) = (if n = [] then [] else parts n) @ [k]" using assms(3) by (rule parts_child_name)
  have "\<not> strings_HasPrefix (child_name n k) ''vars.''"
  proof (cases "n = []")
    case False
    obtain x q where xq: "parts n = x # q" by (cases "parts n") auto
    have "n = ''vars''" if "x = ''vars''" "q = []"
      using that xq parts_inj [of n "''vars''"] by (simp add: parts_no_dot)
    then show ?thesis
      using assms(1) False xq p unfolding tidy_def plain_def HasPrefix_vars by auto
  qed (use p in \<open>simp add: HasPrefix_vars\<close>)
  then have pl: "plain c (child_name n k)" using assms(1) by (simp add: tidy_def plain_def)
  have "child_name n k \<noteq> ''vars''"
  proof
    assume "child_name n k = ''vars''"
    then have "(if n = [] then [] else parts n) @ [k] = [''vars'']" using p by (simp add: parts_no_dot)
    then show False using assms(4) by (simp split: if_splits)
  qed
  then show t: "tidy c (child_name n k)" using pl p assms(2) by (simp add: tidy_def)
  have "key_path (child_name n k) = parts (child_name n k)" using p assms(2) by (simp add: key_path_parts)
  moreover have "n \<noteq> [] \<Longrightarrow> key_path n = parts n" using assms(1) by (simp add: tidy_def key_path_parts)
  ultimately show "var_path c (child_name n k) = var_path c n @ [k]"
    using assms(1) pl ne p by (auto simp: var_path_plain tidy_def)
qed

lemma readFromDb_unfold:
  "readFromDb c n b r =
     (if b then concat (map (\<lambda>k. readFromDb c (child_name n k) b r) (rev (GetChildNames ramStorage (vh_for c n) r))) else []) @
     (let dv = GetValue ramStorage (vh_for c n) r in if GetString dv \<noteq> [] then [(n, dv)] else [])"
  by (subst readFromDb.simps) (simp add: Let_def foldl_prepend child_name_def)

lemma GetChildNames_plain:
  assumes "db_wf r" and "plain c n"
  shows "set (GetChildNames ramStorage (vh_for c n) r) = {k. k \<noteq> [] \<and> hd k \<noteq> CHR ''_'' \<and> db_node r (var_path c n @ [k])}"
    and "distinct (GetChildNames ramStorage (vh_for c n) r)"
proof -
  have raw: "\<not> vh_raw (vh_for c n)" and ne: "vh_name (vh_for c n) \<noteq> []"
    using assms(2) by (simp_all add: plain_def vh_for_def SetControlledVarName_def NewControllerVarHelper_def)
  then show "set (GetChildNames ramStorage (vh_for c n) r) = {k. k \<noteq> [] \<and> hd k \<noteq> CHR ''_'' \<and> db_node r (var_path c n @ [k])}"
    using ram.childs [OF assms(1) ne] by (auto simp: GetChildNames_def var_path_def)
  show "distinct (GetChildNames ramStorage (vh_for c n) r)"
    using ram.childs_distinct [OF assms(1)] by (simp add: GetChildNames_def)
qed

text \<open>The components below a variable that \<open>GetVars\<close> shows.\<close>

definition shown :: "path \<Rightarrow> bool" where
  "shown q \<longleftrightarrow> (\<forall>k \<in> set q. k \<noteq> [] \<and> hd k \<noteq> CHR ''_'')"

lemma shown_simps [simp]: "shown []" "shown (k # q) \<longleftrightarrow> k \<noteq> [] \<and> hd k \<noteq> CHR ''_'' \<and> shown q"
  by (auto simp: shown_def)

definition no_vars_var :: "string \<Rightarrow> RamCacheDB \<Rightarrow> bool" where
  "no_vars_var n r \<longleftrightarrow> n \<noteq> [] \<or> \<not> db_node r [''vars'', ''vars'']"

lemma tidy_child_node:
  assumes "db_wf r" and "tidy c n" and "no_vars_var n r" and "k \<in> set (GetChildNames ramStorage (vh_for c n) r)"
  shows "tidy c (child_name n k)" and "var_path c (child_name n k) = var_path c n @ [k]" and "no_vars_var (child_name n k) r"
    and "k \<noteq> []" and "hd k \<noteq> CHR ''_''" and "CHR ''.'' \<notin> set k"
proof -
  have pl: "plain c n" using assms(2) by (simp add: tidy_def)
  have k: "k \<noteq> []" "hd k \<noteq> CHR ''_''" "db_node r (var_path c n @ [k])"
    using assms(4) GetChildNames_plain(1) [OF assms(1) pl] by simp_all
  then have dot: "CHR ''.'' \<notin> set k" using ram.node_no_dot [OF assms(1)] by simp
  have "n \<noteq> [] \<or> k \<noteq> ''vars''" using assms(3) k(3) pl by (auto simp: no_vars_var_def var_path_plain)
  from tidy_child [OF assms(2) k(1) dot this]
  show "tidy c (child_name n k)" "var_path c (child_name n k) = var_path c n @ [k]" .
  show "no_vars_var (child_name n k) r" using k(1) by (simp add: no_vars_var_def child_name_def)
  show "k \<noteq> []" "hd k \<noteq> CHR ''_''" "CHR ''.'' \<notin> set k" using k dot by simp_all
qed

lemma readFromDb_all:
  assumes "db_wf r" and "tidy c n" and "no_vars_var n r"
  shows "(m, v) \<in> set (readFromDb c n True r) \<longleftrightarrow>
    (\<exists>q. shown q \<and> m = foldl child_name n q \<and> GetString v = db_peek r (var_path c n @ q) \<and> GetString v \<noteq> [])"
  using assms(2,3)
proof (induction "tree_height (root r) - name_depth n" arbitrary: n rule: less_induct)
  case less
  let ?ch = "GetChildNames ramStorage (vh_for c n) r"
  have pl: "plain c n" using less.prems(1) by (simp add: tidy_def)
  have IH: "(m, v) \<in> set (readFromDb c (child_name n k) True r) \<longleftrightarrow>
      (\<exists>q. shown q \<and> m = foldl child_name n (k # q) \<and> GetString v = db_peek r (var_path c n @ k # q) \<and> GetString v \<noteq> [])"
    if "k \<in> set ?ch" for k
  proof -
    note t = tidy_child_node [OF assms(1) less.prems that]
    have "name_depth n < name_depth (child_name n k)"
      using name_depth_child [OF t(4), of n] by (simp add: child_name_def)
    then have "tree_height (root r) - name_depth (child_name n k) < tree_height (root r) - name_depth n"
      using name_depth_bound [OF that] by simp
    from less.hyps [OF this t(1,3)] t(2) show ?thesis by simp
  qed
  have own: "(m, v) \<in> set (let dv = GetValue ramStorage (vh_for c n) r in if GetString dv \<noteq> [] then [(n, dv)] else []) \<longleftrightarrow>
      m = n \<and> GetString v = db_peek r (var_path c n) \<and> GetString v \<noteq> []"
    using GetValue_peek [OF assms(1), of c n] by (auto simp: Let_def simp del: GetString_inject) (simp_all flip: GetString_inject)
  have child: "k \<in> set ?ch" if "shown (k # q)" "db_peek r (var_path c n @ k # q) \<noteq> []" for k q
  proof -
    have "db_node r (var_path c n @ k # q)" using that(2) ram.peek_no_node [OF assms(1)] by blast
    then have "db_node r (var_path c n @ [k])" by (rule ram.node_prefix [OF assms(1)]) simp
    then show ?thesis using that(1) GetChildNames_plain(1) [OF assms(1) pl] by simp
  qed
  show ?case
  proof
    assume "(m, v) \<in> set (readFromDb c n True r)"
    then consider k where "k \<in> set ?ch" "(m, v) \<in> set (readFromDb c (child_name n k) True r)"
      | "m = n" "GetString v = db_peek r (var_path c n)" "GetString v \<noteq> []"
      unfolding readFromDb_unfold [of c n] set_append own Un_iff by auto
    then show "\<exists>q. shown q \<and> m = foldl child_name n q \<and> GetString v = db_peek r (var_path c n @ q) \<and> GetString v \<noteq> []"
    proof cases
      case (1 k)
      then obtain q where "shown q" "m = foldl child_name n (k # q)" "GetString v = db_peek r (var_path c n @ k # q)"
        "GetString v \<noteq> []" using IH by blast
      moreover have "shown (k # q)" using tidy_child_node(4,5) [OF assms(1) less.prems 1(1)] \<open>shown q\<close> by simp
      ultimately show ?thesis by blast
    next
      case 2
      then show ?thesis by (intro exI [of _ "[]"]) simp
    qed
  next
    assume "\<exists>q. shown q \<and> m = foldl child_name n q \<and> GetString v = db_peek r (var_path c n @ q) \<and> GetString v \<noteq> []"
    then obtain q where q: "shown q" "m = foldl child_name n q" "GetString v = db_peek r (var_path c n @ q)" "GetString v \<noteq> []"
      by blast
    show "(m, v) \<in> set (readFromDb c n True r)"
    proof (cases q)
      case Nil
      then show ?thesis unfolding readFromDb_unfold [of c n] set_append own Un_iff using q by simp
    next
      case (Cons k q')
      then have k: "k \<in> set ?ch" using child [of k q'] q by simp
      have "shown q'" using q(1) Cons by simp
      then have "(m, v) \<in> set (readFromDb c (child_name n k) True r)" using IH [OF k] q Cons by blast
      then show ?thesis unfolding readFromDb_unfold [of c n] using k by auto
    qed
  qed
qed

lemma readFromDb_single:
  "db_wf r \<Longrightarrow> readFromDb c n False r =
    (let dv = GetValue ramStorage (vh_for c n) r in if db_peek r (var_path c n) \<noteq> [] then [(n, dv)] else [])"
  by (subst readFromDb_unfold) (simp add: Let_def GetValue_peek)

section \<open>Which part of the tree an operation writes\<close>

text \<open>\<open>db'\<close> is well formed and differs from \<open>db\<close> only in the subtree of the first component \<open>t\<close>.\<close>

definition within ::
    "('db \<Rightarrow> bool) \<Rightarrow> ('db \<Rightarrow> path \<Rightarrow> string) \<Rightarrow> ('db \<Rightarrow> path \<Rightarrow> bool) \<Rightarrow> string \<Rightarrow> 'db \<Rightarrow> 'db \<Rightarrow> bool" where
  "within iv pk hn t db db' \<longleftrightarrow>
     iv db' \<and> (\<forall>p. p \<noteq> [] \<longrightarrow> hd p \<noteq> t \<longrightarrow> pk db' p = pk db p \<and> hn db' p = hn db p)"

lemma hd_key_path: "hd (key_path n) = hd (parts n)"
  by (cases "parts n") (auto simp: key_path_parts)

lemma hd_parts_append: "hd (parts (a @ CHR ''.'' # b)) = hd (parts a)"
  by (simp add: parts_append_dot)

lemma hd_obs_keys:
  "hd (key_path (key_count c)) = hd (parts (vh_name c))" "hd (key_path (key_entry c i)) = hd (parts (vh_name c))"
  "hd (key_path (key_client c i)) = hd (parts (vh_name c))" "hd (key_path (key_metadata c i)) = hd (parts (vh_name c))"
  "hd (key_path (key_byId c x)) = hd (parts (vh_name c))" "hd (key_path (key_byMetadata c x y)) = hd (parts (vh_name c))"
  "hd (key_path (vh_name c @ CHR ''.'' # k)) = hd (parts (vh_name c))" "hd (key_path (vh_name c)) = hd (parts (vh_name c))"
  by (simp_all add: hd_key_path hd_parts_append key_count_def key_entry_def key_client_def key_metadata_def
      key_byId_def key_byMetadata_def)

lemma hd_client_keys:
  "hd (key_path (cl_key x)) = ''internal''" "hd (key_path (cl_key x @ y)) = ''internal''"
  "hd (key_path (cl_list_key x)) = ''internal''" "hd (key_path (cl_obs_key x y)) = ''internal''"
proof -
  have "hd (parts (''internal.'' @ s)) = ''internal''" for s
    using hd_parts_append [of "''internal''" s] by (simp add: parts_no_dot)
  from this [of "''clients.byId.'' @ x"] this [of "''clients.byId.'' @ x @ y"] this [of "''clients.list.'' @ x"]
    this [of "''clients.byId.'' @ x @ ''.observing.'' @ y"]
  show "hd (key_path (cl_key x)) = ''internal''" "hd (key_path (cl_key x @ y)) = ''internal''"
    "hd (key_path (cl_list_key x)) = ''internal''" "hd (key_path (cl_obs_key x y)) = ''internal''"
    by (simp_all add: hd_key_path cl_key_def cl_list_key_def cl_obs_key_def)
qed

lemma nat_diff_pos: "Suc d = nat (b - a) \<Longrightarrow> a < b" for a b :: int
  by simp

lemma nat_succ_pos: "Suc d = nat (i + 1) \<Longrightarrow> \<not> i < 0" for i :: int
  by simp

context storage
begin

abbreviation stays :: "string \<Rightarrow> 'db \<Rightarrow> 'db \<Rightarrow> bool" where
  "stays \<equiv> within invar peek has_node"

lemma stays_refl: "invar db \<Longrightarrow> stays t db db"
  by (simp add: within_def)

lemma stays_trans: "stays t db db' \<Longrightarrow> stays t db' db'' \<Longrightarrow> stays t db db''"
  by (simp add: within_def)

lemma stays_invar: "stays t db db' \<Longrightarrow> invar db'"
  by (simp add: within_def)

lemma stays_set: "invar db \<Longrightarrow> hd (key_path n) = t \<Longrightarrow> stays t db (iSet S db n v)"
  by (auto simp: within_def invar_set peek_set node_set prefix_def hd_append)

lemma stays_delete: "invar db \<Longrightarrow> hd (key_path n) = t \<Longrightarrow> stays t db (iDeleteValue S db n casc)"
  by (auto simp: within_def invar_delete peek_delete node_delete prefix_def hd_append)

lemma stays_set_trans: "stays t db db' \<Longrightarrow> hd (key_path n) = t \<Longrightarrow> stays t db (iSet S db' n v)"
  using stays_trans stays_set stays_invar by blast

lemma stays_delete_trans: "stays t db db' \<Longrightarrow> hd (key_path n) = t \<Longrightarrow> stays t db (iDeleteValue S db' n casc)"
  using stays_trans stays_delete stays_invar by blast

lemmas stays_intros = stays_refl stays_set_trans stays_delete_trans

lemma stays_shift_left: "invar db \<Longrightarrow> stays (hd (parts (vh_name c))) db (shift_left S c j lim db)"
proof (induction "nat (lim - j)" arbitrary: j db)
  case 0
  then show ?case by (simp add: shift_left.simps [of S c j] stays_refl)
next
  case (Suc d)
  let ?cl = "getString S db (key_client c (j + 1))" and ?md = "getString S db (key_metadata c (j + 1))"
  let ?db = "iSet S (iSet S (iSet S db (key_client c j) (NewDynamicVar_string ?cl)) (key_metadata c j) (NewDynamicVar_string ?md))
      (key_byMetadata c ?cl ?md) (NewDynamicVar_int j)"
  have step: "shift_left S c j lim db = shift_left S c (j + 1) lim ?db"
    using nat_diff_pos [OF Suc.hyps(2)] by (simp add: shift_left.simps [of S c j] Let_def)
  have st: "stays (hd (parts (vh_name c))) db ?db"
    using Suc.prems by (intro stays_intros) (simp_all add: hd_obs_keys)
  have "stays (hd (parts (vh_name c))) ?db (shift_left S c (j + 1) lim ?db)"
    using Suc.hyps(2) stays_invar [OF st] by (intro Suc.hyps(1)) auto
  then show ?case unfolding step by (rule stays_trans [OF st])
qed

lemma stays_remove_from: "invar db \<Longrightarrow> stays (hd (parts (vh_name c))) db (remove_from S c cid md l i db)"
proof (induction "nat (i + 1)" arbitrary: i)
  case 0
  then show ?case by (simp add: remove_from.simps [of S c cid md l i] stays_refl)
next
  case (Suc d)
  show ?case
  proof (cases "getString S db (key_client c i) = cid \<and> getString S db (key_metadata c i) = md")
    case True
    with Suc.hyps(2) stays_shift_left [OF Suc.prems, of c i l] show ?thesis
      by (subst remove_from.simps) (auto simp: Let_def hd_obs_keys intro!: stays_intros)
  next
    case False
    then have "remove_from S c cid md l i db = remove_from S c cid md l (i - 1) db"
      using Suc.hyps(2) by (subst remove_from.simps) auto
    moreover have "stays (hd (parts (vh_name c))) db (remove_from S c cid md l (i - 1) db)"
      using Suc.hyps(2) Suc.prems by (intro Suc.hyps(1)) simp_all
    ultimately show ?thesis by simp
  qed
qed

lemma stays_internalRemoveObserving: "invar db \<Longrightarrow> stays (hd (parts (vh_name c))) db (internalRemoveObserving S c cid md db)"
  by (simp add: internalRemoveObserving_def Let_def stays_remove_from)

lemma stays_remove_all_from: "invar db \<Longrightarrow> stays (hd (parts (vh_name c))) db (remove_all_from S c cid i db)"
proof (induction "nat (i + 1)" arbitrary: i db)
  case 0
  then show ?case by (simp add: remove_all_from.simps [of S c cid i] stays_refl)
next
  case (Suc d)
  let ?db = "if getString S db (key_client c i) = cid
    then internalRemoveObserving S c (getString S db (key_client c i)) (getString S db (key_metadata c i)) db else db"
  have step: "remove_all_from S c cid i db = remove_all_from S c cid (i - 1) ?db"
    using nat_succ_pos [OF Suc.hyps(2)] by (subst remove_all_from.simps) (simp add: Let_def)
  have st: "stays (hd (parts (vh_name c))) db ?db"
    using Suc.prems by (simp add: stays_internalRemoveObserving stays_refl)
  have "stays (hd (parts (vh_name c))) ?db (remove_all_from S c cid (i - 1) ?db)"
    using Suc.hyps(2) stays_invar [OF st] by (intro Suc.hyps(1)) auto
  then show ?case unfolding step by (rule stays_trans [OF st])
qed

lemma stays_var_ops:
  assumes "invar db"
  shows "stays (hd (parts (vh_name c))) db (fst (RegisterObservation S a c cid md db))"
    and "stays (hd (parts (vh_name c))) db (RemoveObservationByClientAndMetadata S a c cid md db)"
    and "stays (hd (parts (vh_name c))) db (RemoveAllClientObservations S a c cid db)"
    and "stays (hd (parts (vh_name c))) db (SetValue S c v db)"
    and "stays (hd (parts (vh_name c))) db (SetFlag S c f v db)"
    and "stays (hd (parts (vh_name c))) db (vh_DeleteValue S c db)"
    and "stays (hd (parts (vh_name c))) db (snd (tryLock S c db))"
    and "stays (hd (parts (vh_name c))) db (vh_Unlock S c db)"
proof -
  show "stays (hd (parts (vh_name c))) db (fst (RegisterObservation S a c cid md db))"
    using assms by (auto simp: RegisterObservation_def runLocked_def Let_def hd_obs_keys intro!: stays_intros)
  show "stays (hd (parts (vh_name c))) db (RemoveObservationByClientAndMetadata S a c cid md db)"
    using assms by (simp add: RemoveObservationByClientAndMetadata_def runLocked_def stays_internalRemoveObserving stays_refl)
  show "stays (hd (parts (vh_name c))) db (RemoveAllClientObservations S a c cid db)"
    using assms by (simp add: RemoveAllClientObservations_def runLocked_def stays_remove_all_from stays_refl)
  show "stays (hd (parts (vh_name c))) db (SetValue S c v db)"
    using assms by (simp add: SetValue_def stays_set stays_refl hd_obs_keys)
  show flag: "stays (hd (parts (vh_name c))) db (SetFlag S c f v db)" for f v
    using assms by (simp add: SetFlag_def stays_set stays_refl hd_obs_keys)
  show "stays (hd (parts (vh_name c))) db (vh_DeleteValue S c db)"
    using assms by (simp add: vh_DeleteValue_def stays_delete hd_obs_keys)
  show "stays (hd (parts (vh_name c))) db (snd (tryLock S c db))"
    using assms flag by (simp add: tryLock_def Let_def stays_refl)
  show "stays (hd (parts (vh_name c))) db (vh_Unlock S c db)"
    unfolding vh_Unlock_def by (rule flag)
qed

lemma stays_close_gap:
  "invar db \<Longrightarrow> (\<And>k. hd (key_path (key k)) = ''internal'') \<Longrightarrow> stays ''internal'' db (close_gap S key j lim db)"
proof (induction "nat (lim - j)" arbitrary: j db)
  case 0
  then show ?case by (simp add: close_gap.simps [of S key j] stays_refl)
next
  case (Suc d)
  let ?db = "iSet S db (key (strconv_Itoa j)) (iGet S db (key (strconv_Itoa (j + 1))) (NewDynamicVar_string []))"
  have step: "close_gap S key j lim db = close_gap S key (j + 1) lim ?db"
    using nat_diff_pos [OF Suc.hyps(2)] by (simp add: close_gap.simps [of S key j] Let_def)
  have st: "stays ''internal'' db ?db" using Suc.prems by (intro stays_set) simp_all
  have "stays ''internal'' ?db (close_gap S key (j + 1) lim ?db)"
    using Suc.hyps(2) Suc.prems(2) stays_invar [OF st] by (intro Suc.hyps(1)) auto
  then show ?case unfolding step by (rule stays_trans [OF st])
qed

lemma stays_close_gap_trans:
  "stays ''internal'' db db' \<Longrightarrow> (\<And>k. hd (key_path (key k)) = ''internal'') \<Longrightarrow> stays ''internal'' db (close_gap S key j lim db')"
  using stays_trans stays_close_gap stays_invar by blast

lemma stays_client_ops:
  assumes "invar db"
  shows "stays ''internal'' db (UpdateLiveTime S t h db)"
    and "stays ''internal'' db (initialize S a t h db)"
    and "stays ''internal'' db (RegisterNewObservation S a t h v db)"
    and "stays ''internal'' db (UnregisterObservation S a t h v db)"
    and "stays ''internal'' db (RemoveClientFromObservationSystem S a h db)"
proof -
  show live: "stays ''internal'' db (UpdateLiveTime S t h db)"
    using assms by (simp add: UpdateLiveTime_def stays_set hd_client_keys)
  show "stays ''internal'' db (initialize S a t h db)"
    using assms
    by (auto simp: initialize_def runLocked_def Let_def UpdateLiveTime_def hd_client_keys intro!: stays_intros split: option.split)
  show "stays ''internal'' db (RegisterNewObservation S a t h v db)"
    using assms live by (auto simp: RegisterNewObservation_def runLocked_def Let_def hd_client_keys intro!: stays_intros)
  show "stays ''internal'' db (UnregisterObservation S a t h v db)"
    using assms live
    by (auto simp: UnregisterObservation_def runLocked_def Let_def hd_client_keys intro!: stays_intros stays_close_gap_trans)
  show "stays ''internal'' db (RemoveClientFromObservationSystem S a h db)"
    using assms
    by (auto simp: RemoveClientFromObservationSystem_def runLocked_def Let_def hd_client_keys
        intro!: stays_intros stays_close_gap_trans)
qed

lemma RemoveClient_node:
  "invar db \<Longrightarrow> \<not> has_node (RemoveClientFromObservationSystem S True h db) (key_path (cl_key (ch_clientId h)))"
  by (auto simp: RemoveClientFromObservationSystem_def runLocked_def Let_def node_delete invar_set invar_delete
      stays_invar [OF stays_close_gap] hd_client_keys)

end

section \<open>Names found by a wildcard\<close>

lemma parts_foldl_child:
  assumes "shown q" and "\<forall>k \<in> set q. CHR ''.'' \<notin> set k" and "q \<noteq> []"
  shows "parts (foldl child_name n q) = (if n = [] then [] else parts n) @ q"
  using assms
proof (induction q arbitrary: n)
  case (Cons k q)
  have ne: "child_name n k \<noteq> []" using Cons.prems(1) by (simp add: child_name_def)
  show ?case
    using Cons ne parts_child_name [of k n] by (cases "q = []") simp_all
qed simp

lemma peek_no_dot:
  "db_wf r \<Longrightarrow> db_peek r (p @ q) \<noteq> [] \<Longrightarrow> \<forall>k \<in> set q. CHR ''.'' \<notin> set k"
  using ram.peek_no_node [of r "p @ q"] ram.node_no_dot [of r "p @ q"] by auto

lemma found_name_path:
  assumes "db_wf r" and "tidy c n" and "no_vars_var n r" and "shown q" and "db_node r (var_path c n @ q)"
  shows "var_path c (foldl child_name n q) = var_path c n @ q"
  using assms(2-)
proof (induction q arbitrary: n)
  case (Cons k q)
  have "db_node r (var_path c n @ [k])" by (rule ram.node_prefix [OF assms(1) Cons.prems(4)]) simp
  then have "k \<in> set (GetChildNames ramStorage (vh_for c n) r)"
    using Cons.prems(1,3) GetChildNames_plain(1) [OF assms(1)] by (simp add: tidy_def)
  note t = tidy_child_node [OF assms(1) Cons.prems(1,2) this]
  show ?case using Cons.IH [OF t(1,3)] Cons.prems(3,4) t(2) by simp
qed simp

lemma found_parts:
  assumes "db_wf r" and "tidy c n" and "no_vars_var n r" and "(m, v) \<in> set (readFromDb c n True r)"
  shows "\<exists>q. shown q \<and> m = foldl child_name n q \<and> (q \<noteq> [] \<longrightarrow> parts m = (if n = [] then [] else parts n) @ q)"
  using readFromDb_all [OF assms(1-3)] assms(4) peek_no_dot [OF assms(1)] parts_foldl_child by metis

lemma readFromDb_distinct:
  assumes "db_wf r" and "tidy c n" and "no_vars_var n r"
  shows "distinct (map fst (readFromDb c n True r))"
  using assms(2,3)
proof (induction "tree_height (root r) - name_depth n" arbitrary: n rule: less_induct)
  case less
  let ?ch = "GetChildNames ramStorage (vh_for c n) r" and ?pre = "if n = [] then [] else parts n"
  let ?f = "\<lambda>k. map fst (readFromDb c (child_name n k) True r)"
  have under: "parts m = ?pre @ k # q" if "k \<in> set ?ch" "m = foldl child_name (child_name n k) q"
      "q \<noteq> [] \<longrightarrow> parts m = (if child_name n k = [] then [] else parts (child_name n k)) @ q" for k m q
    using that tidy_child_node(4,6) [OF assms(1) less.prems that(1)] parts_child_name [of k n]
    by (cases "q = []") (auto simp: child_name_def)
  have below: "\<exists>q. parts m = ?pre @ k # q" if "k \<in> set ?ch" "m \<in> set (?f k)" for k m
  proof -
    note t = tidy_child_node [OF assms(1) less.prems that(1)]
    from that(2) obtain v where "(m, v) \<in> set (readFromDb c (child_name n k) True r)" by auto
    from found_parts [OF assms(1) t(1,3) this] under [OF that(1)] show ?thesis by blast
  qed
  have "distinct (concat (map ?f (rev ?ch)))"
  proof (rule distinct_concat_map)
    show "distinct (rev ?ch)" using GetChildNames_plain(2) [OF assms(1)] less.prems(1) by (simp add: tidy_def)
    show "distinct (?f k)" if "k \<in> set (rev ?ch)" for k
    proof -
      have k: "k \<in> set ?ch" using that by simp
      note t = tidy_child_node [OF assms(1) less.prems k]
      have "name_depth n < name_depth (child_name n k)"
        using name_depth_child [OF t(4), of n] by (simp add: child_name_def)
      then show ?thesis using name_depth_bound [OF k] by (intro less.hyps t(1,3)) simp
    qed
    show "set (?f k) \<inter> set (?f k') = {}" if "k \<in> set (rev ?ch)" "k' \<in> set (rev ?ch)" "k \<noteq> k'" for k k'
      using below [of k] below [of k'] that by (metis (no_types, lifting) disjoint_iff list.inject same_append_eq set_rev)
  qed
  moreover have "n \<notin> set (concat (map ?f (rev ?ch)))"
  proof
    assume "n \<in> set (concat (map ?f (rev ?ch)))"
    then obtain k where k: "k \<in> set ?ch" "n \<in> set (?f k)" by auto
    from below [OF k] obtain q where "parts n = ?pre @ k # q" by blast
    then show False
      using tidy_child_node(4) [OF assms(1) less.prems k(1)] by (cases "n = []") (simp_all add: parts_no_dot)
  qed
  ultimately show ?case
    by (subst readFromDb_unfold) (auto simp: map_concat comp_def Let_def)
qed

lemma GetVars_wild:
  assumes "tidy c n" and "CHR ''*'' \<notin> set n" and "name = (if n = [] then ''*'' else n @ ''.*'')"
  shows "GetVars c name d r = Inr (if readFromDb c n True r = [] then [(n, d)] else readFromDb c n True r)"
proof -
  have star: "strings_Contains name ''*''" "strings_HasSuffix name ''*''" "name \<noteq> []"
    using assms(3) by (auto simp: strings_HasSuffix_def suffix_def)
  have cut: "(if strings_HasSuffix name ''.*'' then take (length name - 2) name else take (length name - 1) name) = n"
    using assms(3) by (auto simp: strings_HasSuffix_def suffix_def)
  have "strings_TrimSuffix n ''.'' = n"
  proof (cases "suffix ''.'' n")
    case True
    then obtain a where "n = a @ CHR ''.'' # []" by (auto simp: suffix_def)
    then have "last (parts n) = []" "n \<noteq> []" by (simp_all only: parts_append_dot) (simp_all add: parts_no_dot)
    then show ?thesis using assms(1) by (simp add: tidy_def)
  qed (simp add: strings_TrimSuffix_def)
  then show ?thesis using star cut by (simp add: GetVars_def Let_def)
qed

section \<open>Deleting variables\<close>

lemma delete_names_peek:
  "db_wf r \<Longrightarrow>
   db_wf (foldl (\<lambda>db (n, _). vh_DeleteValue ramStorage (vh_for c n) db) r vals) \<and>
   db_peek (foldl (\<lambda>db (n, _). vh_DeleteValue ramStorage (vh_for c n) db) r vals) p =
     (if p \<in> var_path c ` fst ` set vals then [] else db_peek r p)"
proof (induction vals arbitrary: r)
  case (Cons x vals)
  obtain n v where x: "x = (n, v)" by fastforce
  have "db_wf (vh_DeleteValue ramStorage (vh_for c n) r)" using Cons.prems by (simp add: vh_DeleteValue_def ram_rules)
  from Cons.IH [OF this] show ?case
    using Cons.prems by (auto simp: x vh_DeleteValue_def ram_rules var_path_def)
qed simp

section \<open>Who is notified\<close>

lemma lastDotIndex_append: "CHR ''.'' \<notin> set b \<Longrightarrow> lastDotIndex (a @ CHR ''.'' # b) = int (length a)"
  by (simp add: lastDotIndex_def strings_LastIndexByte_append)

definition tasks_for :: "TheController \<Rightarrow> env \<Rightarrow> string \<Rightarrow> string \<Rightarrow> DynamicVar \<Rightarrow> RamCacheDB \<Rightarrow> task list" where
  "tasks_for c e v changed value r =
     map (\<lambda>(_, cid, md). NotifyClientTask cid md changed value) (observations_of c e v r)"

text \<open>The ancestors of a name, the nearest first.\<close>

definition ancestors :: "string \<Rightarrow> string list" where
  "ancestors v = map (\<lambda>i. strings_Join (take i (parts v)) ''.'') (rev [1..<length (parts v)])"

lemma ancestors_no_dot: "CHR ''.'' \<notin> set v \<Longrightarrow> ancestors v = []"
  by (simp add: ancestors_def parts_no_dot)

lemma ancestors_dot:
  assumes "CHR ''.'' \<notin> set b"
  shows "ancestors (a @ CHR ''.'' # b) = a # ancestors a"
proof -
  have p: "parts (a @ CHR ''.'' # b) = parts a @ [b]" using assms by (simp add: parts_append_dot parts_no_dot)
  have join: "strings_Join (parts a) ''.'' = a" using strings_Join_Split [of "CHR ''.''" a] by (simp add: parts_def)
  have "1 \<le> length (parts a)" using parts_neq_Nil [of a] by (cases "parts a") auto
  then have upt: "[1..<Suc (length (parts a))] = [1..<length (parts a)] @ [length (parts a)]" by (rule upt_Suc_append)
  have "take i (parts a @ [b]) = take i (parts a)" if "i \<in> set [1..<length (parts a)]" for i using that by simp
  then show ?thesis unfolding ancestors_def p length_append_singleton upt by (simp add: join)
qed

lemma notifyParent_ancestors:
  "notifyParentGenericObservers c e v changed value r =
     concat (map (\<lambda>a. tasks_for c e (a @ ''.*'') changed value r) (ancestors v))"
proof (induction "length v" arbitrary: v rule: less_induct)
  case less
  show ?case
  proof (cases "CHR ''.'' \<in> set v")
    case False
    then have "strings_LastIndexByte v CHR ''.'' = None" by simp
    then have "lastDotIndex v = - 1" by (simp only: lastDotIndex_def option.case)
    then show ?thesis using False by (simp add: notifyParentGenericObservers.simps [of c e v] ancestors_no_dot)
  next
    case True
    then obtain a b where v: "v = a @ CHR ''.'' # b" "CHR ''.'' \<notin> set b" by (metis split_list_last)
    have "notifyParentGenericObservers c e v changed value r =
        tasks_for c e (a @ ''.*'') changed value r @ notifyParentGenericObservers c e a changed value r"
      using v(2) lastDotIndex_append [of b a] unfolding v(1)
      by (subst notifyParentGenericObservers.simps) (simp add: Let_def tasks_for_def notifyClientsAboutVarChange_def)
    then show ?thesis using less.hyps [of a] v ancestors_dot [of b a] by simp
  qed
qed

lemma notifyVarModification_tasks:
  "notifyVarModification c e v value r =
     concat (map (\<lambda>pat. tasks_for c e pat v value r) ([v] @ map (\<lambda>a. a @ ''.*'') (ancestors v) @ [v @ ''.*'']))"
  by (simp add: notifyVarModification_def notifyParent_ancestors notifyClientsAboutVarChange_def tasks_for_def comp_def)

section \<open>Forgetting a client\<close>

lemma obs_cong:
  assumes "\<And>q. pk db' (obs_root nm @ q) = pk db (obs_root nm @ q)"
  shows "obs_list pk db' nm = obs_list pk db nm" and "obs_count pk db' nm = obs_count pk db nm"
  using assms by (simp_all add: obs_list_def obs_count_def obs_entry_def)

lemma obs_root_apart:
  assumes "''_observers'' \<notin> set (parts a)" and "''_observers'' \<notin> set (parts b)" and "a \<noteq> b"
  shows "\<not> prefix (obs_root a) (obs_root b @ q)"
proof
  let ?P = "\<lambda>k. k \<noteq> ''_observers''"
  assume "prefix (obs_root a) (obs_root b @ q)"
  then obtain z where "parts b @ ''_observers'' # q = parts a @ ''_observers'' # z"
    by (auto simp: prefix_def obs_root_def)
  then have "takeWhile ?P (parts b @ ''_observers'' # q) = takeWhile ?P (parts a @ ''_observers'' # z)" by simp
  moreover have "takeWhile ?P (parts b @ ''_observers'' # q) = parts b"
    using assms(2) by (subst takeWhile_append2) auto
  moreover have "takeWhile ?P (parts a @ ''_observers'' # z) = parts a"
    using assms(1) by (subst takeWhile_append2) auto
  ultimately show False using assms(3) by simp
qed

abbreviation remove_client_from :: "TheController \<Rightarrow> env \<Rightarrow> string \<Rightarrow> RamCacheDB \<Rightarrow> string \<Rightarrow> RamCacheDB" where
  "remove_client_from c e cid db v \<equiv>
     RemoveAllClientObservations ramStorage (obs_acq e (vh_for c v)) (vh_for c v) cid db"

lemma remove_client_from_vars:
  assumes "db_wf r" and "acq e = (\<lambda>_. True)" and "nm = vh_name (vh_for c v)" and "''_observers'' \<notin> set (parts nm)" and "0 \<le> obs_count db_peek r nm"
    and "\<forall>w \<in> set ws. ''_observers'' \<notin> set (parts (vh_name (vh_for c w))) \<and> 0 \<le> obs_count db_peek r (vh_name (vh_for c w))"
  shows "db_wf (foldl (remove_client_from c e cid) r ws) \<and> 0 \<le> obs_count db_peek (foldl (remove_client_from c e cid) r ws) nm \<and>
    obs_list db_peek (foldl (remove_client_from c e cid) r ws) nm =
      (if nm \<in> (\<lambda>w. vh_name (vh_for c w)) ` set ws then filter (\<lambda>x. fst x \<noteq> cid) (obs_list db_peek r nm) else obs_list db_peek r nm)"
  using assms(1,5,6)
proof (induction ws arbitrary: r)
  case (Cons w ws)
  let ?wn = "vh_name (vh_for c w)" and ?r = "remove_client_from c e cid r w"
  have a: "obs_acq e (vh_for c w) = True" using assms(2) by (simp add: obs_acq_def)
  have w: "''_observers'' \<notin> set (parts ?wn)" "0 \<le> obs_count db_peek r ?wn" using Cons.prems(3) by simp_all
  note rem = ram.RemoveAllClientObservations_spec [OF Cons.prems(1) w(2) refl, where cid = cid]
  have other: "obs_list db_peek ?r x = obs_list db_peek r x \<and> obs_count db_peek ?r x = obs_count db_peek r x"
    if "''_observers'' \<notin> set (parts x)" "x \<noteq> ?wn" for x
    using rem(3) obs_root_apart [OF w(1) that(1)] that(2) a by (metis obs_cong)
  have counts: "0 \<le> obs_count db_peek ?r x" if "''_observers'' \<notin> set (parts x)" "0 \<le> obs_count db_peek r x" for x
    using that other [of x] rem(4) a by (cases "x = ?wn") auto
  have "db_wf ?r" using rem(1) a by simp
  moreover have "0 \<le> obs_count db_peek ?r nm" using counts assms(4) Cons.prems(2) by blast
  moreover have "\<forall>x \<in> set ws. ''_observers'' \<notin> set (parts (vh_name (vh_for c x))) \<and> 0 \<le> obs_count db_peek ?r (vh_name (vh_for c x))"
    using Cons.prems(3) counts by simp
  ultimately have IH: "db_wf (foldl (remove_client_from c e cid) ?r ws) \<and> 0 \<le> obs_count db_peek (foldl (remove_client_from c e cid) ?r ws) nm \<and>
    obs_list db_peek (foldl (remove_client_from c e cid) ?r ws) nm =
      (if nm \<in> (\<lambda>w. vh_name (vh_for c w)) ` set ws then filter (\<lambda>x. fst x \<noteq> cid) (obs_list db_peek ?r nm) else obs_list db_peek ?r nm)"
    by (rule Cons.IH)
  have "obs_list db_peek ?r nm = (if nm = ?wn then filter (\<lambda>x. fst x \<noteq> cid) (obs_list db_peek r nm) else obs_list db_peek r nm)"
    using rem(2) a other [of nm] assms(4) by auto
  with IH show ?case by auto
qed (use assms(4) in simp)

text \<open>Nothing outside the lists of observers changes.\<close>

lemma remove_client_from_frame:
  assumes "db_wf r" and "acq e = (\<lambda>_. True)" and "''_observers'' \<notin> set p"
    and "\<forall>w \<in> set ws. ''_observers'' \<notin> set (parts (vh_name (vh_for c w))) \<and> 0 \<le> obs_count db_peek r (vh_name (vh_for c w))"
  shows "db_peek (foldl (remove_client_from c e cid) r ws) p = db_peek r p"
  using assms(4)
proof (induction ws rule: rev_induct)
  case (snoc w ws)
  let ?r = "foldl (remove_client_from c e cid) r ws" and ?wn = "vh_name (vh_for c w)"
  have r: "db_wf ?r" "0 \<le> obs_count db_peek ?r ?wn"
    using remove_client_from_vars [OF assms(1,2) refl, of c w ws cid] snoc.prems by auto
  have "\<not> prefix (obs_root ?wn) p" using assms(3) by (auto simp: obs_root_def prefix_def)
  then have "db_peek (remove_client_from c e cid ?r w) p = db_peek ?r p"
    using ram.RemoveAllClientObservations_spec(3) [OF r refl] assms(2) by (simp add: obs_acq_def)
  then show ?case using snoc by simp
qed simp

lemma hd_vars: "\<not> allowRawDbAccess c \<Longrightarrow> hd (parts (vh_name (vh_for c n))) = ''vars''"
  using var_path_vars [of c n] hd_key_path [of "vh_name (vh_for c n)"] by (auto simp: var_path_def)

section \<open>The system of operations and goroutines\<close>

text \<open>The storage holds variables and client data only, unless raw access is configured; \<open>X\<close> are further subtrees a
  storage may have had before.\<close>

definition confined :: "string set \<Rightarrow> TheController \<Rightarrow> RamCacheDB \<Rightarrow> bool" where
  "confined X c r \<longleftrightarrow> allowRawDbAccess c \<or> (\<forall>p. p \<noteq> [] \<longrightarrow> hd p \<notin> {''vars'', ''internal''} \<union> X \<longrightarrow> \<not> db_node r p)"

definition sys_ok :: "TheController \<Rightarrow> RamCacheDB \<Rightarrow> bool" where
  "sys_ok c r \<longleftrightarrow> db_wf r \<and> confined {} c r"

lemma sys_ok_wf [intro]: "sys_ok c r \<Longrightarrow> db_wf r"
  by (simp add: sys_ok_def)

record sys =
  sy_db :: RamCacheDB
  sy_tasks :: "task list"
  sy_sent :: sent

fun run_task :: "TheController \<Rightarrow> env \<Rightarrow> task \<Rightarrow> RamCacheDB \<Rightarrow> RamCacheDB \<times> task list \<times> sent" where
  "run_task c e (NotifyModification n v) db = (db, notifyVarModification c e n v db, [])"
| "run_task c e (NotifyClientTask cid md n v) db = (let (db', out) = notify_one c e cid md n v db in (db', [], out))"
| "run_task c e (UpdateClientTask ch) db = (let (db', out) = updateClientAboutObservatingVars c e ch db in (db', [], out))"

text \<open>The steps: a call of an API (with any surroundings \<open>e\<close>) or one of the pending goroutines. A lock
  request is one attempt of its retry loop.\<close>

inductive sys_step :: "TheController \<Rightarrow> sys \<Rightarrow> sys \<Rightarrow> bool" for c where
  set_var: "SetVar c n v (sy_db s) = (err, db', ts) \<Longrightarrow> sys_step c s (s\<lparr>sy_db := db', sy_tasks := sy_tasks s @ ts\<rparr>)"
| del_var: "DelVar c n (sy_db s) = (err, db', ts) \<Longrightarrow> sys_step c s (s\<lparr>sy_db := db', sy_tasks := sy_tasks s @ ts\<rparr>)"
| lock_var: "sys_step c s (s\<lparr>sy_db := snd (tryLock ramStorage (vh_for c n) (sy_db s))\<rparr>)"
| unlock_var: "sys_step c s (s\<lparr>sy_db := snd (UnlockVar c n (sy_db s))\<rparr>)"
| observe_var: "ObserveVar c e n cid md api (sy_db s) = (db', out) \<Longrightarrow>
    sys_step c s (s\<lparr>sy_db := db', sy_sent := sy_sent s @ out\<rparr>)"
| stop_observing: "sys_step c s (s\<lparr>sy_db := StopObservingVar c e n cid md api (sy_db s)\<rparr>)"
| client_connected: "ClientConnected e nanos cid api (sy_db s) = (res, db', ts) \<Longrightarrow>
    sys_step c s (s\<lparr>sy_db := db', sy_tasks := sy_tasks s @ ts\<rparr>)"
| goroutine: "sy_tasks s = ts1 @ t # ts2 \<Longrightarrow> run_task c e t (sy_db s) = (db', ts, out) \<Longrightarrow>
    sys_step c s (s\<lparr>sy_db := db', sy_tasks := ts1 @ ts2 @ ts, sy_sent := sy_sent s @ out\<rparr>)"

text \<open>What the storage needs so that an invariant \<open>iv\<close> of it survives all operations of the controller: the laws of
  \<open>storage\<close> under \<open>iv\<close>. Everything below holds for every such invariant.\<close>

locale ram_invariant = storage ramStorage iv db_peek db_node for iv
begin

definition ok :: "string set \<Rightarrow> TheController \<Rightarrow> RamCacheDB \<Rightarrow> bool" where
  "ok X c r \<longleftrightarrow> iv r \<and> confined X c r"

lemma ok_iv [intro]: "ok X c r \<Longrightarrow> iv r"
  by (simp add: ok_def)

lemma ok_stays:
  "stays t r r' \<Longrightarrow> allowRawDbAccess c \<or> t \<in> {''vars'', ''internal''} \<Longrightarrow> ok X c r \<Longrightarrow> ok X c r'"
  unfolding ok_def confined_def within_def by auto

lemma ok_var:
  "stays (hd (parts (vh_name (vh_for c n)))) r r' \<Longrightarrow> ok X c r \<Longrightarrow> ok X c r'"
  using hd_vars [of c n] ok_stays by blast

lemma ok_client: "stays ''internal'' r r' \<Longrightarrow> ok X c r \<Longrightarrow> ok X c r'"
  using ok_stays [of "''internal''"] by blast

lemmas ok_ops =
  ok_var [OF stays_var_ops(1)] ok_var [OF stays_var_ops(2)] ok_var [OF stays_var_ops(3)]
  ok_var [OF stays_var_ops(4)] ok_var [OF stays_var_ops(6)] ok_var [OF stays_var_ops(7)]
  ok_var [OF stays_var_ops(8)] ok_client [OF stays_client_ops(1)] ok_client [OF stays_client_ops(2)]
  ok_client [OF stays_client_ops(3)] ok_client [OF stays_client_ops(4)] ok_client [OF stays_client_ops(5)]

lemma ok_SetVar: "ok X c r \<Longrightarrow> SetVar c n v r = (err, r', ts) \<Longrightarrow> ok X c r'"
  by (drule SetVar_resultD) (auto intro: ok_ops)

lemma ok_DelVar: "ok X c r \<Longrightarrow> DelVar c n r = (err, r', ts) \<Longrightarrow> ok X c r'"
proof -
  have "ok X c (foldl (\<lambda>db (n, _). vh_DeleteValue ramStorage (vh_for c n) db) r vals)" if "ok X c r" for r and vals :: "(string \<times> DynamicVar) list"
    using that by (induction vals arbitrary: r) (auto intro: ok_ops)
  then show "ok X c r \<Longrightarrow> DelVar c n r = (err, r', ts) \<Longrightarrow> ok X c r'"
    by (auto simp: DelVar_def split: sum.splits if_splits)
qed

lemma ok_deleteClient: "ok X c r \<Longrightarrow> ok X c (deleteClient c e ch r)"
proof -
  have "ok X c (foldl (remove_client_from c e cid) r vs)" if "ok X c r" for r vs cid
    using that by (induction vs arbitrary: r) (auto intro: ok_ops)
  moreover have "ok X c r \<Longrightarrow> ok X c (RemoveClientFromObservationSystem ramStorage (cl_acq e) ch r)"
    by (auto intro: ok_ops)
  ultimately show "ok X c r \<Longrightarrow> ok X c (deleteClient c e ch r)"
    by (simp add: deleteClient_def Let_def)
qed

lemma ok_checkClientLiveTime: "ok X c r \<Longrightarrow> ok X c (checkClientLiveTime c e ch r)"
  by (auto simp: checkClientLiveTime_def IsConnected_def Let_def intro: ok_ops ok_deleteClient split: option.splits)

lemma ok_notify_checked: "ok X c r \<Longrightarrow> notify_checked c e ch pl r = (b, r', out) \<Longrightarrow> ok X c r'"
  by (auto simp: notify_checked_def Notify_def Let_def intro: ok_ops ok_checkClientLiveTime
      split: option.splits if_splits prod.splits)

lemma ok_update_loop: "ok X c r \<Longrightarrow> update_loop c e ch vs r = (r', out) \<Longrightarrow> ok X c r'"
proof (induction vs arbitrary: r r' out)
  case (Cons v vs)
  obtain b r1 o1 where n: "notify_checked c e ch (update_payload c ch v r) r = (b, r1, o1)" by (metis prod_cases3)
  from Cons.prems(2) n Cons.IH [OF ok_notify_checked [OF Cons.prems(1) n]] ok_notify_checked [OF Cons.prems(1) n]
  show ?case by (auto split: if_splits prod.splits)
qed simp

lemma ok_NewControllerClientHelper:
  "ok X c r \<Longrightarrow> NewControllerClientHelper ramStorage a t cid api r = (h, r') \<Longrightarrow> ok X c r'"
  by (auto simp: NewControllerClientHelper_def Let_def intro: ok_ops)

lemma ok_notify_one:
  assumes "ok X c r" and "notify_one c e cid md n v r = (r', out)"
  shows "ok X c r'"
proof -
  obtain res r1 where w: "NewControllerClientHelperWithApis ramStorage (cl_acq e) (now e) cid (apis c) r = (res, r1)" by fastforce
  have "ok X c r1"
    using w assms(1)
    by (auto simp: NewControllerClientHelperWithApis_def Let_def intro: ok_NewControllerClientHelper
        split: if_splits option.splits prod.splits)
  with assms(2) w show ?thesis
    by (cases res) (auto simp: notify_one_def intro: ok_NewControllerClientHelper ok_deleteClient ok_notify_checked
        split: prod.splits)
qed

lemma ok_ObserveVar: "ok X c r \<Longrightarrow> ObserveVar c e v cid md api r = (r', out) \<Longrightarrow> ok X c r'"
  unfolding ObserveVar_def Let_def
  by (auto intro!: ok_ops elim!: ok_notify_checked [rotated] intro: ok_NewControllerClientHelper split: if_splits prod.splits)

lemma ok_StopObservingVar: "ok X c r \<Longrightarrow> ok X c (StopObservingVar c e v cid md api r)"
  unfolding StopObservingVar_def NewControllerClientHelper_def Let_def by (auto intro!: ok_ops)

lemma ok_run_task: "ok X c r \<Longrightarrow> run_task c e t r = (r', ts, out) \<Longrightarrow> ok X c r'"
  by (cases t) (auto simp: updateClientAboutObservatingVars_def intro: ok_notify_one ok_update_loop split: prod.splits)

lemma ok_step: "sys_step c s s' \<Longrightarrow> ok X c (sy_db s) \<Longrightarrow> ok X c (sy_db s')"
proof (induction rule: sys_step.induct)
  case (client_connected e nanos cid api s res db' ts)
  then show ?case
    by (auto simp: ClientConnected_def Let_def intro: ok_NewControllerClientHelper split: prod.splits)
qed (auto simp: UnlockVar_def intro: ok_SetVar ok_DelVar ok_ObserveVar ok_StopObservingVar ok_run_task ok_ops)

lemma ok_steps: "(sys_step c)\<^sup>*\<^sup>* s s' \<Longrightarrow> ok X c (sy_db s) \<Longrightarrow> ok X c (sy_db s')"
  by (induction rule: rtranclp_induct) (auto intro: ok_step)

end

interpretation wf: ram_invariant db_wf
  by unfold_locales

lemma wf_ok: "wf.ok {} c r = sys_ok c r"
  by (simp add: wf.ok_def sys_ok_def)

text \<open>Reading one variable, and writing and reading back.\<close>

lemma GetVars_single:
  assumes "db_wf r" and "name \<noteq> []" and "CHR ''*'' \<notin> set name" and "db_peek r (var_path c name) \<noteq> []"
  shows "GetVars c name d r = Inr [(name, NewDynamicVar_string (db_peek r (var_path c name)))]"
proof -
  have "GetValue ramStorage (vh_for c name) r = NewDynamicVar_string (db_peek r (var_path c name))"
    using GetValue_peek [OF assms(1), of c name] by (simp flip: GetString_inject)
  then show ?thesis using assms readFromDb_single [OF assms(1), of c name] by (simp add: GetVars_def Let_def)
qed

lemma SetVar_then_GetVars:
  assumes "db_wf r" and "SetVar c n v r = (None, r', ts)" and "name = GetOnly n valid_name_chars"
    and "CHR ''*'' \<notin> set name" and "GetString v \<noteq> []"
  shows "GetVars c name d r' = Inr [(name, v)]"
proof -
  have name: "name \<noteq> []" and r': "r' = SetValue ramStorage (vh_for c name) v r"
    using SetVar_resultD [OF assms(2)] unfolding assms(3) by (simp_all add: accepts_def)
  have wf: "db_wf r'" unfolding r' by (rule SetValue_wf [OF assms(1)])
  have "db_peek r' (var_path c name) = GetString v"
    using assms(4) SetValue_peek [OF assms(1), of c name v] by (simp add: r' star_vh_name)
  then show ?thesis using GetVars_single [OF wf name assms(4)] assms(5) by (simp flip: GetString_inject)
qed

section \<open>The life of a client\<close>

text \<open>These operations look only at the id of the helper they are given.\<close>

lemma client_of_helper [simp]:
  "UpdateLiveTime S t (ch\<lparr>ch_api := x\<rparr>) db = UpdateLiveTime S t ch db"
  "TimeSinceLastLiveTime S t (ch\<lparr>ch_api := x\<rparr>) db = TimeSinceLastLiveTime S t ch db"
  "deleteClient c e (ch\<lparr>ch_api := x\<rparr>) r = deleteClient c e ch r"
  by (simp_all add: UpdateLiveTime_def TimeSinceLastLiveTime_def GetLastLiveTime_def deleteClient_def GetObservingVars_def
      RemoveClientFromObservationSystem_def GetClientId_def)

text \<open>What the controller relies on in an API: a client that took a notification is known after it, and a notification
  makes no client known.\<close>

locale client_api =
  fixes api :: IApi
  assumes notified_is_alive: "aNotifyClient api cid pl \<Longrightarrow> aAliveAfter api cid pl"
    and alive_before: "aAliveAfter api cid pl \<Longrightarrow> aCheckAlive api cid"
begin

text \<open>A client the API still knows after the attempt is kept, and its time of life is set; any other client is forgotten
  once its time is over, and left alone before.\<close>

lemma notify_checked_lifetime:
  assumes "ch_api ch = Some api"
  shows "fst (snd (notify_checked c e ch pl db)) =
    (if aAliveAfter api (ch_clientId ch) pl then UpdateLiveTime ramStorage (now e) ch db
     else if maxTimeWaitingClientSecond c \<le> TimeSinceLastLiveTime ramStorage (now e) ch db then deleteClient c e ch db
     else db)"
  using assms notified_is_alive [of "ch_clientId ch" pl]
  by (auto simp: notify_checked_def Notify_def checkClientLiveTime_def IsConnected_def Let_def api_after_def)

lemma notify_checked_dead:
  "ch_api ch = Some api \<Longrightarrow> \<not> aAliveAfter api (ch_clientId ch) pl \<Longrightarrow> \<not> fst (notify_checked c e ch pl db)"
  using notified_is_alive [of "ch_clientId ch" pl] by (auto simp: notify_checked_def Notify_def Let_def)

lemma unknown_stays_unknown:
  "ch_api ch = Some api \<Longrightarrow> \<not> aCheckAlive api (ch_clientId ch) \<Longrightarrow> \<not> fst (notify_checked c e ch pl db)"
  using notify_checked_dead alive_before by blast

end

text \<open>\<open>deleteClient\<close> forgets a client: its own entry disappears, and of every variable it observed exactly its
  observations are removed while those of the other clients stay, in their order. No variable
  changes its value.\<close>

lemma deleteClient_forgets:
  assumes "db_wf r" and "acq e = (\<lambda>_. True)" and "\<not> allowRawDbAccess c"
    and "\<forall>w \<in> set (GetObservingVars ramStorage ch r). ''_observers'' \<notin> set (parts (vh_name (vh_for c w))) \<and>
      0 \<le> obs_count db_peek r (vh_name (vh_for c w))"
    and "r' = deleteClient c e ch r"
  shows "db_wf r' \<and> \<not> HasValue r' (cl_key (ch_clientId ch)) \<and>
    (\<forall>w \<in> set (GetObservingVars ramStorage ch r).
       obs_list db_peek r' (vh_name (vh_for c w)) =
         filter (\<lambda>x. fst x \<noteq> ch_clientId ch) (obs_list db_peek r (vh_name (vh_for c w)))) \<and>
    (\<forall>p. p \<noteq> [] \<longrightarrow> hd p \<noteq> ''internal'' \<longrightarrow> ''_observers'' \<notin> set p \<longrightarrow> db_peek r' p = db_peek r p)"
proof -
  let ?vs = "GetObservingVars ramStorage ch r" and ?cid = "ch_clientId ch"
  define r1 where "r1 = RemoveClientFromObservationSystem ramStorage True ch r"
  have st1: "ram.stays ''internal'' r r1" unfolding r1_def by (rule ram.stays_client_ops(5) [OF assms(1)])
  have wf1: "db_wf r1" by (rule ram.stays_invar [OF st1])
  have r': "r' = foldl (remove_client_from c e ?cid) r1 ?vs"
    using assms(2) by (simp add: assms(5) deleteClient_def Let_def cl_acq_def r1_def GetClientId_def)
  have same: "obs_list db_peek r1 nm = obs_list db_peek r nm" "obs_count db_peek r1 nm = obs_count db_peek r nm"
    if "nm = vh_name (vh_for c w)" for nm w
    using st1 hd_vars [OF assms(3), of w] that by (intro obs_cong; simp add: within_def obs_root_def hd_append)+
  have pre: "\<forall>w \<in> set ?vs. ''_observers'' \<notin> set (parts (vh_name (vh_for c w))) \<and> 0 \<le> obs_count db_peek r1 (vh_name (vh_for c w))"
    using assms(4) same(2) by simp
  have "obs_list db_peek r' (vh_name (vh_for c w)) = filter (\<lambda>x. fst x \<noteq> ?cid) (obs_list db_peek r (vh_name (vh_for c w)))"
    if "w \<in> set ?vs" for w
    using remove_client_from_vars [OF wf1 assms(2) refl _ _ pre, of w ?cid] pre that same(1) r' by auto
  moreover have "db_peek r' p = db_peek r p" if "p \<noteq> []" "hd p \<noteq> ''internal''" "''_observers'' \<notin> set p" for p
    using remove_client_from_frame [OF wf1 assms(2) that(3) pre] st1 that(1,2) by (simp add: r' within_def)
  moreover have st: "ram.stays ''vars'' r1 r'"
  proof -
    have "ram.stays ''vars'' x (foldl (remove_client_from c e ?cid) x ws)" if "db_wf x" for x ws
      using that
    proof (induction ws arbitrary: x)
      case (Cons w ws)
      have "ram.stays ''vars'' x (remove_client_from c e ?cid x w)"
        using ram.stays_var_ops(3) [OF Cons.prems, of "vh_for c w"] hd_vars [OF assms(3)] by simp
      then show ?case using Cons.IH ram.stays_trans ram.stays_invar by fastforce
    qed (simp add: ram.stays_refl)
    then show ?thesis unfolding r' using wf1 .
  qed
  moreover have "\<not> db_node r' (key_path (cl_key ?cid))"
  proof -
    have "\<not> db_node r1 (key_path (cl_key ?cid))" unfolding r1_def by (rule ram.RemoveClient_node [OF assms(1)])
    then show ?thesis using st hd_client_keys(1) [of ?cid] by (simp add: within_def)
  qed
  ultimately show ?thesis using ram.stays_invar [OF st] by (simp add: ram_rules)
qed

section \<open>Properties\<close>

text \<open>C1. \<open>SetVar\<close> on every branch: it succeeds exactly when the sanitised name passes the guards (not empty, not
  internal, name, value and words within the configured limits) and the variable is not locked; on any
  error nothing is written and nobody is notified; on success the value is stored at the variable's path,
  nothing else changes and one notification is started. A name with a \<open>*\<close> is accepted but not stored.\<close>

theorem SetVar_outcome:
  assumes "db_wf r" and "SetVar c n v r = (err, r', ts)" and "name = GetOnly n valid_name_chars"
  shows "(err = None \<longleftrightarrow> accepts c name v \<and> \<not> IsLocked ramStorage (vh_for c name) r) \<and>
    (err \<noteq> None \<longrightarrow> r' = r \<and> ts = []) \<and>
    (err = None \<longrightarrow> ts = [NotifyModification name v] \<and> db_wf r' \<and>
       (\<forall>p. db_peek r' p = (if CHR ''*'' \<notin> set name \<and> p = var_path c name then GetString v else db_peek r p)))"
  using SetVar_resultD [OF assms(2)] assms(1) unfolding assms(3)
  by (elim disjE) (auto simp: SetValue_peek SetValue_wf star_vh_name)

definition demo_ctl :: TheController where
  "demo_ctl = \<lparr>apis = [(''VSTP'', demo_api)], maxTimeWaitingClientSecond = 43200, systemVersion = ''1'',
     maxKeyLength = 255, maxKeyWordLength = 64, maxValueSize = 1000, allowRawDbAccess = False\<rparr>"

definition demo_env :: env where
  "demo_env = \<lparr>acq = (\<lambda>_. True), now = 1000\<rparr>"

lemma demo_simps [simp]: "allowRawDbAccess demo_ctl = False" "acq demo_env = (\<lambda>_. True)" "apis demo_ctl = [(''VSTP'', demo_api)]"
  by (simp_all add: demo_ctl_def demo_env_def)

lemma one_var_node: "db_node one_var_db p \<longleftrightarrow> p \<in> {[], [''vars''], [''vars'', ''a'']}"
  by (cases p; cases "tl p"; cases "tl (tl p)") (auto simp: db_node_def one_var_db_def value_at_def)

lemma one_var_peek: "db_peek one_var_db p = (if p = [''vars'', ''a''] then ''1'' else [])"
  by (cases p; cases "tl p"; cases "tl (tl p)") (auto simp: db_peek_def one_var_db_def value_at_def)

lemma demo_paths: "var_path demo_ctl ''a'' = [''vars'', ''a'']" "vh_name (vh_for demo_ctl ''a'') = ''vars.a''"
  "key_path ''vars.a'' = [''vars'', ''a'']"
  by (simp_all add: var_path_def vh_name_for strings_HasPrefix_def key_path.simps split_key_def)

lemma demo_SetVar: "\<exists>r' ts. SetVar demo_ctl ''a'' (NewDynamicVar_string ''5'') one_var_db = (None, r', ts)"
proof -
  have "GetOnly ''a'' valid_name_chars = ''a''" by (simp add: GetOnly_def valid_name_chars_def)
  moreover have "\<not> IsLocked ramStorage (vh_for demo_ctl ''a'') one_var_db"
    by (simp add: ram.IsLocked_peek one_var_peek)
  moreover have "accepts demo_ctl ''a'' (NewDynamicVar_string ''5'')"
    by (simp add: accepts_def demo_ctl_def parts_def)
  ultimately show ?thesis by (cases rule: SetVar_cases [of demo_ctl "''a''" "NewDynamicVar_string ''5''" one_var_db]) auto
qed

theorem SetVar_outcome_witness:
  "db_peek (fst (snd (SetVar demo_ctl ''a'' (NewDynamicVar_string ''5'') one_var_db))) [''vars'', ''a''] = ''5''"
proof -
  obtain r' ts where s: "SetVar demo_ctl ''a'' (NewDynamicVar_string ''5'') one_var_db = (None, r', ts)" using demo_SetVar by blast
  have "GetOnly ''a'' valid_name_chars = ''a''" by (simp add: GetOnly_def valid_name_chars_def)
  then show ?thesis using SetVar_outcome [OF one_var_db_wf s refl] s by (simp add: demo_paths)
qed

text \<open>C5. Without raw access a client cannot write internal data with \<open>SetVar\<close>: every path whose text changes is
  below \<open>vars\<close> and has no component that starts with an underscore, so locks, observers and the client
  registry are out of reach.\<close>

theorem SetVar_never_writes_internal:
  assumes "db_wf r" and "\<not> allowRawDbAccess c" and "SetVar c n v r = (err, r', ts)" and "db_peek r' p \<noteq> db_peek r p"
  shows "\<exists>q. p = ''vars'' # q \<and> visible q"
proof -
  let ?name = "GetOnly n valid_name_chars"
  have "p = var_path c ?name" and acc: "accepts c ?name v"
    using SetVar_resultD [OF assms(3)] assms(1,4) by (auto simp: SetValue_peek split: if_splits)
  have vis: "visible (key_path ?name)"
    using acc assms(2) by (intro visible_key_path guarded_name_visible) (auto simp: accepts_def containsUnderscoreDot_iff)
  show ?thesis
  proof (cases "strings_HasPrefix ?name ''vars.''")
    case True
    then have "var_path c ?name = key_path ?name" by (simp add: var_path_def vh_name_for)
    with \<open>p = _\<close> vis var_path_vars [OF assms(2), of ?name] show ?thesis by auto
  next
    case False
    then have "plain c ?name" using assms(2) by (simp add: plain_def)
    with \<open>p = _\<close> vis acc show ?thesis by (simp add: var_path_plain accepts_def)
  qed
qed

theorem SetVar_never_writes_internal_witness: "\<exists>q. [''vars'', ''a''] = ''vars'' # q \<and> visible q"
proof -
  obtain r' ts where s: "SetVar demo_ctl ''a'' (NewDynamicVar_string ''5'') one_var_db = (None, r', ts)" using demo_SetVar by blast
  then have "r' = SetValue ramStorage (vh_for demo_ctl ''a'') (NewDynamicVar_string ''5'') one_var_db"
    using SetVar_resultD [OF s] by (simp add: GetOnly_def valid_name_chars_def)
  then have "db_peek r' [''vars'', ''a''] \<noteq> db_peek one_var_db [''vars'', ''a'']"
    using SetValue_peek [OF one_var_db_wf, of demo_ctl "''a''"] by (simp add: demo_paths one_var_peek)
  from SetVar_never_writes_internal [OF one_var_db_wf _ s this] show ?thesis by simp
qed

text \<open>C16. \<open>GetVars\<close> with a wildcard: \<open>n.*\<close> returns, each once, exactly the variables with a non-empty value
  that are \<open>n\<close> or lie below it through components that are not empty and do not start with an underscore,
  under their full names; when there is none it returns \<open>n\<close> with the default. The recursion over
  the tree ends for every database. This is for a server without raw access, for a name \<open>n\<close> that is not \<open>vars\<close>, does not
  begin with \<open>vars.\<close>, does not end in a dot and contains no \<open>*\<close>, and, when \<open>n\<close> is empty, for a database without a
  variable called \<open>vars\<close> or below that name (these names are taken for already prefixed ones).\<close>

theorem GetVars_wildcard:
  assumes "db_wf r" and "tidy c n" and "no_vars_var n r" and "CHR ''*'' \<notin> set n"
    and "name = (if n = [] then ''*'' else n @ ''.*'')"
    and "found = {(foldl child_name n q, v) | q v. shown q \<and> GetString v = db_peek r (var_path c n @ q) \<and> GetString v \<noteq> []}"
  shows "\<exists>vals. GetVars c name d r = Inr vals \<and> distinct (map fst vals) \<and> set vals = (if found = {} then {(n, d)} else found)"
proof -
  let ?vals = "readFromDb c n True r"
  have set: "set ?vals = found"
    using readFromDb_all [OF assms(1-3)] unfolding assms(6) by auto
  have "GetVars c name d r = Inr (if ?vals = [] then [(n, d)] else ?vals)" by (rule GetVars_wild [OF assms(2,4,5)])
  moreover have "?vals = [] \<longleftrightarrow> found = {}" using set by auto
  ultimately show ?thesis using set readFromDb_distinct [OF assms(1-3)] by auto
qed

lemma demo_tidy: "tidy demo_ctl ''a''" "no_vars_var ''a'' r"
  by (simp_all add: tidy_def plain_def strings_HasPrefix_def parts_def no_vars_var_def)

theorem GetVars_wildcard_witness:
  "\<exists>vals. GetVars demo_ctl ''a.*'' NewEmptyDynamicVar one_var_db = Inr vals \<and> (''a'', NewDynamicVar_string ''1'') \<in> set vals"
proof -
  let ?found = "{(foldl child_name ''a'' q, v) | q v. shown q \<and>
    GetString v = db_peek one_var_db (var_path demo_ctl ''a'' @ q) \<and> GetString v \<noteq> []}"
  have in_found: "(''a'', NewDynamicVar_string ''1'') \<in> ?found"
    by (auto simp: demo_paths one_var_peek intro!: exI [of _ "[]"])
  obtain vals where "GetVars demo_ctl ''a.*'' NewEmptyDynamicVar one_var_db = Inr vals"
    "set vals = (if ?found = {} then {(''a'', NewEmptyDynamicVar)} else ?found)"
    using GetVars_wildcard [OF one_var_db_wf demo_tidy _ _ refl, of "''a.*''" NewEmptyDynamicVar] by auto
  moreover have "?found \<noteq> {}" using in_found by blast
  ultimately show ?thesis using in_found by auto
qed

text \<open>The names a wildcard finds, and what deleting them leaves.\<close>

abbreviation found_names :: "TheController \<Rightarrow> string \<Rightarrow> RamCacheDB \<Rightarrow> string set" where
  "found_names c n r \<equiv> {foldl child_name n q | q. shown q \<and> db_peek r (var_path c n @ q) \<noteq> []}"

lemma wildcard_names:
  assumes "db_wf r" and "tidy c n" and "no_vars_var n r"
  shows "fst ` set (if readFromDb c n True r = [] then [(n, v)] else readFromDb c n True r) =
    (if found_names c n r = {} then {n} else found_names c n r)"
proof -
  have "fst ` set (readFromDb c n True r) = found_names c n r"
  proof -
    have "(\<exists>v. (m, v) \<in> set (readFromDb c n True r)) \<longleftrightarrow> m \<in> found_names c n r" for m
      unfolding readFromDb_all [OF assms] mem_Collect_eq by (metis GetString_simps(1))
    then show ?thesis by (auto simp only: set_eq_iff image_iff Bex_def split_paired_Ex fst_conv) blast+
  qed
  moreover from this have "readFromDb c n True r = [] \<longleftrightarrow> found_names c n r = {}" by (metis image_is_empty set_empty)
  ultimately show ?thesis by auto
qed

lemma wildcard_paths:
  assumes "db_wf r" and "tidy c n" and "no_vars_var n r"
  defines "ps \<equiv> var_path c ` (if found_names c n r = {} then {n} else found_names c n r)"
  shows "(if p \<in> ps then [] else db_peek r p) = (if \<exists>q. shown q \<and> p = var_path c n @ q then [] else db_peek r p)"
proof -
  have path: "var_path c (foldl child_name n q) = var_path c n @ q" if "shown q" "db_peek r (var_path c n @ q) \<noteq> []" for q
    using that ram.peek_no_node [OF assms(1)] by (intro found_name_path [OF assms(1-3)]) blast+
  have "\<exists>q. shown q \<and> p = var_path c n @ q" if "p \<in> ps"
  proof -
    from that consider "p = var_path c n" | q where "shown q" "p = var_path c (foldl child_name n q)" "db_peek r (var_path c n @ q) \<noteq> []"
      unfolding ps_def by (auto split: if_splits)
    then show ?thesis
    proof cases
      case 1
      then show ?thesis by (intro exI [of _ "[]"]) simp
    next
      case (2 q)
      then show ?thesis using path by metis
    qed
  qed
  moreover have "p \<in> ps" if "shown q" "p = var_path c n @ q" "db_peek r p \<noteq> []" for q
  proof -
    have p: "p = var_path c (foldl child_name n q)" using path [OF that(1)] that(2,3) by metis
    have m: "foldl child_name n q \<in> found_names c n r" using that(1) that(3) [unfolded that(2)] by blast
    then have "found_names c n r \<noteq> {}" by blast
    then have "ps = var_path c ` found_names c n r" unfolding ps_def by (simp only: if_False)
    then show ?thesis using imageI [OF m, of "var_path c"] by (simp only: p [symmetric])
  qed
  ultimately show ?thesis by metis
qed

text \<open>C24. \<open>DelVar\<close> with a wildcard empties exactly what \<open>GetVars\<close> shows: afterwards every visible path at or below
  the name has no value, every other path keeps its own, one notification is started for each variable
  found, and no error is reported, whether the variables exist and are locked or not. This is for a server without raw
  access, for a name that is not \<open>vars\<close>, does not begin with \<open>vars.\<close>, does not end in a dot and contains no \<open>*\<close> before
  the wildcard, and, when the name is \<open>*\<close> alone, for a database without a variable called \<open>vars\<close> or below that name.\<close>

theorem DelVar_erases:
  assumes "db_wf r" and "tidy c n" and "no_vars_var n r" and "CHR ''*'' \<notin> set n"
    and "name = (if n = [] then ''*'' else n @ ''.*'')"
  shows "\<exists>r' ts. DelVar c name r = (None, r', ts) \<and> db_wf r' \<and>
    (\<forall>p. db_peek r' p = (if \<exists>q. shown q \<and> p = var_path c n @ q then [] else db_peek r p)) \<and>
    set ts = (\<lambda>m. NotifyModification m (NewDynamicVar_string [])) `
      (let ms = {foldl child_name n q | q. shown q \<and> db_peek r (var_path c n @ q) \<noteq> []} in if ms = {} then {n} else ms)"
proof -
  let ?vals = "if readFromDb c n True r = [] then [(n, NewDynamicVar_string [])] else readFromDb c n True r"
  let ?r = "foldl (\<lambda>db (n, _). vh_DeleteValue ramStorage (vh_for c n) db) r ?vals"
  note del = delete_names_peek [OF assms(1), of c ?vals]
  note names = wildcard_names [OF assms(1-3), of "NewDynamicVar_string []"]
  have "db_peek ?r p = (if \<exists>q. shown q \<and> p = var_path c n @ q then [] else db_peek r p)" for p
    by (rule trans [OF del [THEN conjunct2] wildcard_paths [OF assms(1-3), of p, folded names]])
  moreover have "DelVar c name r = (None, ?r, map (\<lambda>(m, _). NotifyModification m (NewDynamicVar_string [])) ?vals)"
    using GetVars_wild [OF assms(2,4,5)] by (simp add: DelVar_def)
  moreover have "set (map (\<lambda>(m, _). NotifyModification m (NewDynamicVar_string [])) ?vals) =
      (\<lambda>m. NotifyModification m (NewDynamicVar_string [])) ` fst ` set ?vals"
    by (simp only: set_map image_image split_def)
  ultimately show ?thesis using del names by (auto simp: Let_def)
qed

theorem DelVar_erases_witness:
  "\<exists>r' ts. DelVar demo_ctl ''a.*'' (snd (tryLock ramStorage (vh_for demo_ctl ''a'') one_var_db)) = (None, r', ts) \<and>
     db_peek r' [''vars'', ''a''] = []"
proof -
  let ?r = "snd (tryLock ramStorage (vh_for demo_ctl ''a'') one_var_db)"
  have wf: "db_wf ?r" by (simp add: ram.tryLock_spec ram.lock_flag_set)
  from DelVar_erases [OF wf demo_tidy, of "''a.*''"] obtain r' ts where
    "DelVar demo_ctl ''a.*'' ?r = (None, r', ts)"
    "\<forall>p. db_peek r' p = (if \<exists>q. shown q \<and> p = var_path demo_ctl ''a'' @ q then [] else db_peek ?r p)" by auto
  moreover have "shown [] \<and> [''vars'', ''a''] = var_path demo_ctl ''a'' @ []" by (simp add: demo_paths)
  ultimately show ?thesis by metis
qed

text \<open>Who hears of a change: the observers of the variable itself, of \<open>p.*\<close> for each of its ancestors \<open>p\<close>, the
  nearest first, and of \<open>v.*\<close>, one goroutine for each observation and none for anybody else. The
  pattern \<open>*\<close> is not among them.\<close>

theorem change_notifies_patterns:
  "notifyVarModification c e v value r =
     concat (map (\<lambda>pat. map (\<lambda>(_, cid, md). NotifyClientTask cid md v value) (observations_of c e pat r))
       ([v] @ map (\<lambda>a. a @ ''.*'') (ancestors v) @ [v @ ''.*'']))"
  unfolding notifyVarModification_tasks by (simp only: tasks_for_def)

lemma observer_gets_task:
  assumes "db_wf r" and "acq e = (\<lambda>_. True)" and "pat \<in> set ([v] @ map (\<lambda>a. a @ ''.*'') (ancestors v) @ [v @ ''.*''])"
    and "(cid, md) \<in> set (obs_list db_peek r (vh_name (vh_for c pat)))" and "cid \<noteq> []"
  shows "NotifyClientTask cid md v val \<in> set (notifyVarModification c e v val r)"
proof -
  let ?l = "obs_list db_peek r (vh_name (vh_for c pat))"
  obtain k where k: "k < length ?l" "?l ! k = (cid, md)" using assms(4) by (auto simp: in_set_conv_nth)
  have obs: "observations_of c e pat r =
      map (\<lambda>(k, e). (strconv_Itoa (int k), e)) (filter (\<lambda>(k, e). fst e \<noteq> []) (enumerate 0 ?l))"
    using ram.GetAllObservingClients_spec [OF assms(1), of "vh_for c pat"] assms(2)
    by (simp add: observations_of_def GetAllObservations_def obs_acq_def Let_def)
  have "(k, cid, md) \<in> set (enumerate 0 ?l)" using k by (simp add: in_set_enumerate_eq)
  then have "(strconv_Itoa (int k), cid, md) \<in> set (observations_of c e pat r)"
    using assms(5) unfolding obs by force
  then have "NotifyClientTask cid md v val \<in> set (tasks_for c e pat v val r)" by (force simp: tasks_for_def)
  then show ?thesis
    using assms(3) unfolding notifyVarModification_tasks set_concat set_map by blast
qed

lemma task_delivers:
  assumes "db_wf r" and "db_peek r (cl_root cid @ [''apiId'']) = aGetApiId api" and "aGetApiId api \<noteq> []"
    and "map_of (apis c) (aGetApiId api) = Some api"
  shows "snd (notify_one c e cid md v val r) = [(aGetApiId api, cid, [(v, md, GetString val)])]"
proof -
  have "getString ramStorage r (cl_key cid @ ''.apiId'') = aGetApiId api"
    using assms(1,2) by (simp add: ram.getString_peek key_path_live)
  then show ?thesis
    using assms(3,4)
    by (simp add: notify_one_def NewControllerClientHelperWithApis_def NewControllerClientHelper_def Let_def
        notify_checked_def Notify_def)
qed

text \<open>C17. A change reaches its observers: a client that observes the variable, one of its ancestors' wildcards or its
  own wildcard gets a delivery goroutine, and whenever that goroutine runs while the client's API is known, the API is
  asked to send that client the variable's name, the metadata of the observation and the new value.\<close>

theorem change_reaches_observers:
  assumes "db_wf r" and "acq e = (\<lambda>_. True)" and "pat \<in> set ([v] @ map (\<lambda>a. a @ ''.*'') (ancestors v) @ [v @ ''.*''])"
    and "(cid, md) \<in> set (obs_list db_peek r (vh_name (vh_for c pat)))" and "cid \<noteq> []"
    and "db_wf r1" and "db_peek r1 (cl_root cid @ [''apiId'']) = aGetApiId api" and "aGetApiId api \<noteq> []"
    and "map_of (apis c) (aGetApiId api) = Some api"
  shows "NotifyClientTask cid md v val \<in> set (notifyVarModification c e v val r) \<and>
    snd (notify_one c e' cid md v val r1) = [(aGetApiId api, cid, [(v, md, GetString val)])]"
  using observer_gets_task [OF assms(1-5)] task_delivers [OF assms(6-9)] by blast

text \<open>The database in which client \<open>c1\<close> is registered with the API \<open>VSTP\<close>.\<close>

definition registered_db :: RamCacheDB where
  "registered_db = Set one_var_db ''internal.clients.byId.c1.apiId'' (NewDynamicVar_string ''VSTP'')"

lemma registered_db_props: "db_wf registered_db" "db_peek registered_db (cl_root ''c1'' @ [''apiId'']) = ''VSTP''"
proof -
  have "key_path ''internal.clients.byId.c1.apiId'' = cl_root ''c1'' @ [''apiId'']"
    using key_path_live(2) [of "''c1''"] by (simp add: cl_key_def)
  then show "db_wf registered_db" "db_peek registered_db (cl_root ''c1'' @ [''apiId'']) = ''VSTP''"
    by (simp_all add: registered_db_def ram_rules)
qed

theorem change_reaches_observers_witness:
  "NotifyClientTask ''c1'' ''m'' ''a'' (NewDynamicVar_string ''7'') \<in>
     set (notifyVarModification demo_ctl demo_env ''a'' (NewDynamicVar_string ''7'') observed_db) \<and>
   snd (notify_one demo_ctl demo_env ''c1'' ''m'' ''a'' (NewDynamicVar_string ''7'') registered_db) =
     [(''VSTP'', ''c1'', [(''a'', ''m'', ''7'')])]"
  using change_reaches_observers [OF observed_db_wf, of demo_env "''a''" "''a''" "''c1''" "''m''" demo_ctl registered_db
      demo_api "NewDynamicVar_string ''7''" demo_env]
  by (simp add: demo_paths observed_list registered_db_props demo_api_def)

lemma IsLocked_SetValue:
  assumes "db_wf r"
  shows "IsLocked ramStorage (vh_for c n) (SetValue ramStorage (vh_for c n) v r) = IsLocked ramStorage (vh_for c n) r"
proof -
  have "var_path c n \<noteq> parts (vh_name (vh_for c n)) @ [''_lock'']"
    by (auto simp: var_path_def key_path_parts dest: arg_cong [of _ _ length])
  then show ?thesis
    using SetValue_peek [OF assms, of c n v "parts (vh_name (vh_for c n)) @ [''_lock'']"]
    by (simp add: ram.IsLocked_peek assms SetValue_wf)
qed

text \<open>Registering an observation of a client that has just been initialised.\<close>

lemma hd_obs: "\<not> allowRawDbAccess c \<Longrightarrow> hd (obs_root (vh_name (vh_for c v)) @ q) = ''vars''"
  using hd_vars [of c v] by (simp add: obs_root_def hd_append)

lemma hd_var_path: "\<not> allowRawDbAccess c \<Longrightarrow> var_path c v \<noteq> [] \<and> hd (var_path c v) = ''vars''"
  using hd_vars [of c v] by (simp add: var_path_def hd_key_path)

lemma observation_stays:
  assumes "ram.stays ''internal'' r r'" and "db_wf r" and "\<not> allowRawDbAccess c"
  shows "obs_list db_peek r' (vh_name (vh_for c v)) = obs_list db_peek r (vh_name (vh_for c v))"
    and "obs_count db_peek r' (vh_name (vh_for c v)) = obs_count db_peek r (vh_name (vh_for c v))"
    and "IsClientObserving ramStorage (vh_for c v) cid md r \<Longrightarrow> IsClientObserving ramStorage (vh_for c v) cid md r'"
    and "db_peek r' (var_path c v) = db_peek r (var_path c v)"
proof -
  have same: "db_peek r' (obs_root (vh_name (vh_for c v)) @ q) = db_peek r (obs_root (vh_name (vh_for c v)) @ q)" for q
    using assms(1) hd_obs [OF assms(3)] by (simp add: within_def obs_root_def)
  show "obs_list db_peek r' (vh_name (vh_for c v)) = obs_list db_peek r (vh_name (vh_for c v))"
    and "obs_count db_peek r' (vh_name (vh_for c v)) = obs_count db_peek r (vh_name (vh_for c v))"
    using obs_cong(1,2) [of db_peek r' "vh_name (vh_for c v)" r] same by simp_all
  show "IsClientObserving ramStorage (vh_for c v) cid md r'" if "IsClientObserving ramStorage (vh_for c v) cid md r"
    using that assms(1) hd_vars [OF assms(3), of v] hd_obs_keys(6) [of "vh_for c v" cid md] ram.has_value [OF assms(2)]
      ram.has_value [OF ram.stays_invar [OF assms(1)]] by (simp add: IsClientObserving_def within_def)
  show "db_peek r' (var_path c v) = db_peek r (var_path c v)"
    using assms(1) hd_var_path [OF assms(3), of v] by (simp add: within_def)
qed

lemma register_keeps_value: "\<not> prefix (obs_root (vh_name (vh_for c v))) (var_path c v)"
proof
  assume "prefix (obs_root (vh_name (vh_for c v))) (var_path c v)"
  moreover have "prefix (var_path c v) (parts (vh_name (vh_for c v)))" unfolding var_path_def by (rule prefix_key_path_parts)
  ultimately show False by (auto simp: obs_root_def dest!: prefix_length_le)
qed

text \<open>C18. \<open>ObserveVar\<close> registers a new observation once: the client is appended to the variable's observers, is told the
  variable's current value with its metadata, and repeating the request does nothing.\<close>

theorem ObserveVar_registers_once:
  assumes "db_wf r" and "acq e = (\<lambda>_. True)" and "\<not> allowRawDbAccess c" and "nm = vh_name (vh_for c v)"
    and "0 \<le> obs_count db_peek r nm" and "obs_count db_peek r nm < 2 ^ 63 - 1"
    and "\<not> IsClientObserving ramStorage (vh_for c v) cid md r" and "\<And>pl. aNotifyClient api cid pl"
    and "ObserveVar c e v cid md (Some api) r = (r', out)"
  shows "obs_list db_peek r' nm = obs_list db_peek r nm @ [(cid, md)] \<and> IsClientObserving ramStorage (vh_for c v) cid md r' \<and>
    ObserveVar c e v cid md (Some api) r' = (r', []) \<and>
    (\<exists>pl. out = [(aGetApiId api, cid, pl)] \<and> (\<forall>x \<in> set pl. fst (snd x) = md) \<and>
       (db_peek r (var_path c v) \<noteq> [] \<longrightarrow> (v, md, db_peek r (var_path c v)) \<in> set pl))"
proof -
  let ?h = "\<lparr>ch_clientId = cid, ch_api = Some api\<rparr>" and ?vh = "vh_for c v"
  define r1 where "r1 = initialize ramStorage True (now e) ?h r"
  define r2 where "r2 = fst (RegisterObservation ramStorage True ?vh cid md r1)"
  define r3 where "r3 = RegisterNewObservation ramStorage True (now e) ?h v r2"
  define pl where "pl = map (\<lambda>(n, x). (n, md, x)) (getVarInternal c v r3)"
  have r': "r' = UpdateLiveTime ramStorage (now e) ?h r3" and out: "out = [(aGetApiId api, cid, pl)]"
    using assms(2,7,8,9)
    by (auto simp: ObserveVar_def Let_def NewControllerClientHelper_def notify_checked_def Notify_def cl_acq_def obs_acq_def
        r1_def r2_def r3_def pl_def split: prod.splits)
  have st1: "ram.stays ''internal'' r r1" unfolding r1_def by (rule ram.stays_client_ops(2) [OF assms(1)])
  note o1 = observation_stays [OF st1 assms(1,3), of v]
  have cnt: "0 \<le> obs_count db_peek r1 (vh_name ?vh)" "obs_count db_peek r1 (vh_name ?vh) < 2 ^ 63 - 1"
    using assms(4,5,6) o1(2) by simp_all
  note reg = ram.RegisterObservation_spec [OF ram.stays_invar [OF st1] cnt prod.collapse [symmetric], where cid = cid and md = md, folded r2_def]
  have st3: "ram.stays ''internal'' r2 r3" unfolding r3_def by (rule ram.stays_client_ops(3) [OF reg(1)])
  have st': "ram.stays ''internal'' r2 r'"
    unfolding r' by (rule ram.stays_trans [OF st3 ram.stays_client_ops(1) [OF ram.stays_invar [OF st3]]])
  note o' = observation_stays [OF st' reg(1) assms(3), of v]
  have "db_peek r3 (var_path c v) = db_peek r (var_path c v)"
    using observation_stays(4) [OF st3 reg(1) assms(3), of v] reg(4) [OF register_keeps_value] o1(4) by simp
  then have "db_peek r (var_path c v) \<noteq> [] \<longrightarrow> (v, md, db_peek r (var_path c v)) \<in> set pl"
    using GetValue_peek [OF ram.stays_invar [OF st3], of c v] by (force simp: pl_def getVarInternal_def Let_def)
  moreover have "\<forall>x \<in> set pl. fst (snd x) = md" by (auto simp: pl_def)
  ultimately show ?thesis
    using o'(1) o'(3) [OF reg(5)] reg(2) o1(1) out assms(4) by (simp add: ObserveVar_def Let_def)
qed

theorem ObserveVar_registers_once_witness:
  "obs_list db_peek (fst (ObserveVar demo_ctl demo_env ''a'' ''c1'' ''m'' (Some demo_api) one_var_db)) ''vars.a'' = [(''c1'', ''m'')]"
proof -
  have "\<not> db_node one_var_db (key_path (key_byMetadata (vh_for demo_ctl ''a'') ''c1'' ''m''))"
    by (simp add: key_path_byMetadata one_var_node obs_root_def demo_paths parts_def)
  then have "\<not> IsClientObserving ramStorage (vh_for demo_ctl ''a'') ''c1'' ''m'' one_var_db"
    using ram.has_value [OF one_var_db_wf] by (simp add: IsClientObserving_def)
  then show ?thesis
    using ObserveVar_registers_once [OF one_var_db_wf _ _ _ _ _ _ _ prod.collapse [symmetric],
        of demo_env demo_ctl "''vars.a''" "''a''" "''c1''" "''m''" demo_api]
    by (simp add: demo_paths one_var_unobserved obs_list_def [of _ one_var_db] demo_api_def)
qed

text \<open>Invariant of the whole controller: whatever sequence of API calls and goroutines runs, in whatever order, the
  storage stays a well-formed tree, and without raw access it holds nothing but variables and client data.\<close>

theorem controller_keeps_storage:
  assumes "(sys_step c)\<^sup>*\<^sup>* s s'" and "sys_ok c (sy_db s)"
  shows "sys_ok c (sy_db s')"
  using wf.ok_steps [OF assms(1), of "{}"] assms(2) by (simp add: wf_ok)

theorem controller_keeps_storage_witness:
  "sys_ok demo_ctl (snd (UnlockVar demo_ctl ''a'' one_var_db))"
proof -
  let ?s = "\<lparr>sy_db = one_var_db, sy_tasks = [], sy_sent = []\<rparr>"
  have "sys_ok demo_ctl (sy_db ?s)" by (auto simp: sys_ok_def confined_def one_var_node)
  moreover have "(sys_step demo_ctl)\<^sup>*\<^sup>* ?s (?s\<lparr>sy_db := snd (UnlockVar demo_ctl ''a'' (sy_db ?s))\<rparr>)"
    by (rule r_into_rtranclp [of "sys_step demo_ctl"]) (rule sys_step.unlock_var)
  ultimately show ?thesis using controller_keeps_storage by fastforce
qed

end
