(* ===== verification/VSTP.thy ===== *)
theory VSTP
  imports Controller
begin

text \<open>
  The VSTP text protocol (\<open>vstp.go\<close>): the clients of the server, the cutting of the received bytes into
  lines, and the commands. A connection (\<open>ITCPClient\<close>) is a number; what the server writes to the
  connections is the list of lines an operation returns. The goroutine started for a received line is the
  function \<open>processReceivedMessage\<close>; it also returns the goroutines the controller starts.
  \<open>sendOk\<close> tells on which connections \<open>SendString\<close> succeeds while an operation runs.
\<close>

section \<open>State\<close>

type_synonym conn = nat

type_synonym wire = "(conn \<times> string) list"

record VSTP =
  ctrl :: "TheController option"
  clientsById :: "(string \<times> conn) list"
  clientsByTcpCli :: "(conn \<times> string) list"
  incomingDataBuffer :: "(conn \<times> string) list"
  cliIdCount :: int

definition NewVSTP :: "TheController option \<Rightarrow> VSTP" where
  "NewVSTP c = \<lparr>ctrl = c, clientsById = [], clientsByTcpCli = [], incomingDataBuffer = [], cliIdCount = 0\<rparr>"

definition protocolWrite :: "conn \<Rightarrow> string \<Rightarrow> string \<Rightarrow> conn \<times> string" where
  "protocolWrite cli cmd dat = (cli, cmd @ '':'' @ dat @ [CHR 10])"

definition sendBeginHeaderToClient :: "conn \<Rightarrow> conn \<times> string" where
  [simp]: "sendBeginHeaderToClient cli = protocolWrite cli ''beginserverheaders'' []"

definition sendEndHeaderToClient :: "conn \<Rightarrow> conn \<times> string" where
  [simp]: "sendEndHeaderToClient cli = protocolWrite cli ''endserverheaders'' []"

definition sendIdToClient :: "conn \<Rightarrow> string \<Rightarrow> conn \<times> string" where
  [simp]: "sendIdToClient cli i = protocolWrite cli ''sugestednewid'' i"

section \<open>Connections\<close>

definition sendInfoAndConfToClient :: "VSTP \<Rightarrow> conn \<Rightarrow> wire" where
  "sendInfoAndConfToClient v cli =
     protocolWrite cli ''serverinfo'' ''PROTOCOL VERSION=1.2.0'' #
     (case ctrl v of None \<Rightarrow> [] | Some c \<Rightarrow> [protocolWrite cli ''serverinfo'' (''VSS VERSION='' @ GetSystemVersion c)])"

text \<open>\<open>onConnect\<close> is the callback of \<open>SetOnCLientConnect\<close>; \<open>funName\<close> is the random name. The callback runs in the goroutine of
  the connection and uses \<open>cliIdCount\<close> without a lock: \<open>n\<close> is the number it reads for the id and \<open>m\<close> the one its increment
  loads, which need not be the present value of the counter when other connections come in at the same time. The
  client maps are changed under \<open>clientsLock\<close>.\<close>

definition connect_id :: "int \<Rightarrow> string \<Rightarrow> string" where
  "connect_id n funName = strconv_Itoa n @ ''-'' @ funName"

definition connect_store :: "int \<Rightarrow> VSTP \<Rightarrow> VSTP" where
  "connect_store m v = v\<lparr>cliIdCount := wrap64 (m + 1)\<rparr>"

definition connect_register :: "string \<Rightarrow> conn \<Rightarrow> VSTP \<Rightarrow> VSTP \<times> wire" where
  "connect_register uid cli v =
     (let v' = v\<lparr>clientsById := AList.update uid cli (clientsById v),
                 clientsByTcpCli := AList.update cli uid (clientsByTcpCli v),
                 incomingDataBuffer := AList.update cli [] (incomingDataBuffer v)\<rparr>
      in (v', sendBeginHeaderToClient cli # sendInfoAndConfToClient v' cli @ [sendIdToClient cli uid, sendEndHeaderToClient cli]))"

definition onConnect :: "int \<Rightarrow> int \<Rightarrow> string \<Rightarrow> conn \<Rightarrow> VSTP \<Rightarrow> VSTP \<times> wire" where
  "onConnect n m funName cli v = connect_register (connect_id n funName) cli (connect_store m v)"

lemmas connect_defs = onConnect_def connect_register_def connect_store_def connect_id_def

definition onDisconnect :: "conn \<Rightarrow> VSTP \<Rightarrow> VSTP" where
  "onDisconnect cli v =
     (let v1 = (case map_of (clientsByTcpCli v) cli of
                  Some i \<Rightarrow> v\<lparr>clientsById := AList.delete i (clientsById v),
                             clientsByTcpCli := AList.delete cli (clientsByTcpCli v)\<rparr>
                | None \<Rightarrow> (case find (\<lambda>(_, c). c = cli) (clientsById v) of
                    Some (i, _) \<Rightarrow> v\<lparr>clientsById := AList.delete i (clientsById v)\<rparr>
                  | None \<Rightarrow> v))
      in v1\<lparr>incomingDataBuffer := AList.delete cli (incomingDataBuffer v1)\<rparr>)"

text \<open>The loop of \<open>onData\<close> that takes the complete lines off the buffer.\<close>

function take_lines :: "string \<Rightarrow> string list \<times> string" where
  "take_lines buf =
     (case strings_IndexByte buf (CHR 10) of
        Some idx \<Rightarrow>
          (let (ls, rest) = take_lines (drop (Suc idx) buf)
           in (strings_TrimRightByte (take idx buf) (CHR 13) # ls, rest))
      | None \<Rightarrow> ([], buf))"
  by pat_completeness auto
termination
  by (relation "measure length") (auto dest: strings_IndexByte_Some)

declare take_lines.simps [simp del]

text \<open>\<open>onData\<close> returns the lines for which it starts goroutines. For a connection without a buffer it locks
  \<open>clientsLock\<close> while holding it, which never returns: \<open>None\<close>.\<close>

definition onData :: "conn \<Rightarrow> string \<Rightarrow> VSTP \<Rightarrow> (VSTP \<times> string list) option" where
  "onData cli dat v =
     (case map_of (incomingDataBuffer v) cli of
        None \<Rightarrow> None
      | Some buf \<Rightarrow>
          (let (ls, rest) = take_lines (buf @ dat)
           in Some (v\<lparr>incomingDataBuffer := AList.update cli rest (incomingDataBuffer v)\<rparr>, ls)))"

section \<open>The API the controller sees\<close>

definition GetApiId :: string where
  "GetApiId = ''VSTPAPI''"

definition CheckAlive :: "VSTP \<Rightarrow> string \<Rightarrow> bool" where
  "CheckAlive v clientId \<longleftrightarrow> map_of (clientsById v) clientId \<noteq> None"

definition var_changed_line :: "conn \<Rightarrow> string \<times> string \<times> string \<Rightarrow> conn \<times> string" where
  "var_changed_line cli t =
     (case t of (name, meta, val) \<Rightarrow>
        protocolWrite cli ''varchanged'' (name @ (if meta \<noteq> [] then ''('' @ meta @ '')'' else []) @ ''='' @ val))"

text \<open>\<open>NotifyClient\<close>: the first failed send ends it. The written lines are returned too. The client maps stay as they are,
  so a client that could not be written to is still alive for \<open>CheckAlive\<close>.\<close>

definition NotifyClient :: "(conn \<Rightarrow> bool) \<Rightarrow> VSTP \<Rightarrow> string \<Rightarrow> payload \<Rightarrow> bool \<times> wire" where
  "NotifyClient sendOk v clientId varsAndValues =
     (case map_of (clientsById v) clientId of
        None \<Rightarrow> (False, [])
      | Some cli \<Rightarrow>
          (if sendOk cli then (True, map (var_changed_line cli) varsAndValues) else (varsAndValues = [], [])))"

definition vstp_api :: "(conn \<Rightarrow> bool) \<Rightarrow> VSTP \<Rightarrow> IApi" where
  "vstp_api sendOk v =
     \<lparr>aGetApiId = GetApiId, aCheckAlive = CheckAlive v, aNotifyClient = (\<lambda>cid pl. fst (NotifyClient sendOk v cid pl)),
      aAliveAfter = (\<lambda>cid _. CheckAlive v cid)\<rparr>"

text \<open>The lines the API calls of the controller put on the wire.\<close>

definition wire_of :: "(conn \<Rightarrow> bool) \<Rightarrow> VSTP \<Rightarrow> sent \<Rightarrow> wire" where
  "wire_of sendOk v out = concat (map (\<lambda>(_, cid, pl). snd (NotifyClient sendOk v cid pl)) out)"

section \<open>Commands\<close>

fun separateKeyAndValue :: "string \<Rightarrow> string \<times> string" where
  "separateKeyAndValue [] = ([], [])"
| "separateKeyAndValue (x # s) =
     (if x \<in> set ''=;:'' then ([], s) else let (k, w) = separateKeyAndValue s in (x # k, w))"

definition separateNameAndMetadata :: "string \<Rightarrow> string \<times> string" where
  "separateNameAndMetadata original =
     (case strings_IndexByte original CHR ''('' of
        Some p \<Rightarrow> (take p original, strings_TrimSuffix (drop (Suc p) original) '')'')
      | None \<Rightarrow> (original, []))"

text \<open>What a message handler reads from its surroundings.\<close>

record msg_env =
  m_env :: env
  m_nanos :: int
  m_sendOk :: "conn \<Rightarrow> bool"
  m_sched :: "(int \<times> (RamCacheDB \<Rightarrow> RamCacheDB)) list"

text \<open>A reply: the begin line, the body and the end line, each naming the request.\<close>

definition reply :: "conn \<Rightarrow> string \<Rightarrow> wire \<Rightarrow> wire" where
  "reply cli req body = protocolWrite cli ''beginresponse'' req # body @ [protocolWrite cli ''endresponse'' req]"

definition handle_set :: "VSTP \<Rightarrow> conn \<Rightarrow> string \<Rightarrow> RamCacheDB \<Rightarrow> RamCacheDB \<times> task list \<times> wire" where
  "handle_set v cli payload db =
     (let (name, val) = separateKeyAndValue payload; req = ''set:'' @ payload
      in if name \<noteq> [] then
           case ctrl v of
             None \<Rightarrow> (db, [], [])
           | Some c \<Rightarrow>
               (let (err, db', ts) = SetVar c name (NewDynamicVar_string val) db
                in (db', ts, reply cli req (case err of None \<Rightarrow> [] | Some m \<Rightarrow> [protocolWrite cli ''error'' (''set error: '' @ m)])))
         else (db, [], reply cli req [protocolWrite cli ''error'' ''set error: invalid variable name'']))"

definition handle_delete :: "VSTP \<Rightarrow> conn \<Rightarrow> string \<Rightarrow> RamCacheDB \<Rightarrow> RamCacheDB \<times> task list \<times> wire" where
  "handle_delete v cli payload db =
     (let name = fst (separateKeyAndValue payload)
      in case ctrl v of
           None \<Rightarrow> (db, [], [])
         | Some c \<Rightarrow>
             (let (err, db', ts) = DelVar c name db
              in (db', ts, reply cli (''delete:'' @ payload)
                   [protocolWrite cli ''deleteresult''
                     (name @ (case err of Some m \<Rightarrow> ''=failure:'' @ m | None \<Rightarrow> ''=success''))])))"

definition handle_get :: "VSTP \<Rightarrow> conn \<Rightarrow> string \<Rightarrow> RamCacheDB \<Rightarrow> wire" where
  "handle_get v cli payload db =
     (let name = fst (separateKeyAndValue payload)
      in case ctrl v of
           None \<Rightarrow> []
         | Some c \<Rightarrow>
             reply cli (''get:'' @ name)
               (case GetVars c name (NewDynamicVar_string []) db of
                  Inl m \<Rightarrow> [protocolWrite cli ''error'' (''get error: '' @ m)]
                | Inr vals \<Rightarrow> map (\<lambda>(n, d). protocolWrite cli ''varvalue'' (n @ ''='' @ GetString d)) vals))"

definition handle_subscribe :: "msg_env \<Rightarrow> VSTP \<Rightarrow> conn \<Rightarrow> string \<Rightarrow> RamCacheDB \<Rightarrow> VSTP \<times> RamCacheDB \<times> wire" where
  "handle_subscribe me v cli payload db =
     (let (name, meta) = separateNameAndMetadata payload
      in case ctrl v of
           None \<Rightarrow> (v, db, [])
         | Some c \<Rightarrow>
             (let known = (case map_of (clientsByTcpCli v) cli of None \<Rightarrow> [] | Some i \<Rightarrow> i);
                  cid = (if known = [] then strconv_Itoa (m_nanos me) else known);
                  v' = (if known = [] then v\<lparr>clientsById := AList.update cid cli (clientsById v),
                                            clientsByTcpCli := AList.update cli cid (clientsByTcpCli v)\<rparr> else v);
                  (db', out) = ObserveVar c (m_env me) name cid meta (Some (vstp_api (m_sendOk me) v')) db
              in (v', db', reply cli (''subscribe:'' @ payload) (wire_of (m_sendOk me) v' out))))"

definition handle_unsubscribe :: "msg_env \<Rightarrow> VSTP \<Rightarrow> conn \<Rightarrow> string \<Rightarrow> RamCacheDB \<Rightarrow> RamCacheDB \<times> wire" where
  "handle_unsubscribe me v cli payload db =
     (let (name, meta) = separateNameAndMetadata payload
      in case ctrl v of
           None \<Rightarrow> (db, [])
         | Some c \<Rightarrow>
             (case map_of (clientsByTcpCli v) cli of
                None \<Rightarrow> (db, [])
              | Some cid \<Rightarrow>
                  if cid \<noteq> [] then
                    (StopObservingVar c (m_env me) name cid meta (Some (vstp_api (m_sendOk me) v)) db,
                     reply cli (''unsubscribe:'' @ payload) [])
                  else (db, [])))"

text \<open>The timeout of a lock request: \<open>^uint(0)\<close> without a number, otherwise the number as a \<open>uint\<close>.\<close>

definition lock_timeout :: "string \<Rightarrow> int" where
  "lock_timeout val = (case strconv_Atoi val of Some t \<Rightarrow> t mod 2 ^ 64 | None \<Rightarrow> 2 ^ 64 - 1)"

definition handle_lock :: "msg_env \<Rightarrow> VSTP \<Rightarrow> conn \<Rightarrow> string \<Rightarrow> RamCacheDB \<Rightarrow> (RamCacheDB \<times> wire) option" where
  "handle_lock me v cli payload db =
     (let (name, val) = separateKeyAndValue payload;
          result = (\<lambda>s. reply cli (''lock:'' @ payload) [protocolWrite cli ''lockresult'' (name @ s)])
      in case ctrl v of
           None \<Rightarrow> Some (db, result ''=success'')
         | Some c \<Rightarrow>
             map_option (\<lambda>(err, db'). (db', result (case err of Some m \<Rightarrow> ''=failure:'' @ m | None \<Rightarrow> ''=success'')))
               (LockVar c name (if val \<noteq> [] then lock_timeout val else 2 ^ 64 - 1) (m_sched me) db))"

definition handle_unlock :: "VSTP \<Rightarrow> conn \<Rightarrow> string \<Rightarrow> RamCacheDB \<Rightarrow> RamCacheDB \<times> wire" where
  "handle_unlock v cli payload db =
     (let name = fst (separateKeyAndValue payload)
      in (case ctrl v of None \<Rightarrow> db | Some c \<Rightarrow> snd (UnlockVar c name db),
          reply cli (''unlock:'' @ payload) [protocolWrite cli ''unlockdone'' name]))"

definition handle_setid ::
    "msg_env \<Rightarrow> VSTP \<Rightarrow> conn \<Rightarrow> string \<Rightarrow> RamCacheDB \<Rightarrow> VSTP \<times> RamCacheDB \<times> task list \<times> wire" where
  "handle_setid me v cli payload db =
     (let newId = payload;
          oldId = (case map_of (clientsByTcpCli v) cli of None \<Rightarrow> [] | Some i \<Rightarrow> i);
          byId = (if oldId \<noteq> [] then AList.delete oldId (clientsById v) else clientsById v);
          v' = v\<lparr>clientsById := AList.update newId cli byId,
                 clientsByTcpCli := AList.update cli newId (clientsByTcpCli v)\<rparr>
      in case ctrl v' of
           None \<Rightarrow> (v', db, [], [])
         | Some c \<Rightarrow>
             (let ((_, observing), db', ts) = ClientConnected (m_env me) (m_nanos me) newId (vstp_api (m_sendOk me) v') db
              in (v', db', ts, reply cli (''setid:'' @ payload) [protocolWrite cli ''aoc'' (strconv_Itoa observing)])))"

definition handle_getchilds :: "VSTP \<Rightarrow> conn \<Rightarrow> string \<Rightarrow> RamCacheDB \<Rightarrow> wire" where
  "handle_getchilds v cli payload db =
     (case ctrl v of
        None \<Rightarrow> []
      | Some c \<Rightarrow> reply cli (''getchilds:'' @ payload)
          [protocolWrite cli ''childs'' (strings_Join (GetChildsOfVar c payload db) '','')])"

definition handle_lockstatus :: "VSTP \<Rightarrow> conn \<Rightarrow> string \<Rightarrow> RamCacheDB \<Rightarrow> wire" where
  "handle_lockstatus v cli payload db =
     (case ctrl v of
        None \<Rightarrow> []
      | Some c \<Rightarrow> [protocolWrite cli ''lockstatusresult''
          (payload @ ''='' @ (if IsVarLocked c payload db then ''locked'' else ''unlocked''))])"

text \<open>The \<open>switch\<close> of \<open>processReceivedMessage\<close>. \<open>None\<close>: the handler still waits for a lock at the end of
  the schedule.\<close>

definition dispatch ::
    "msg_env \<Rightarrow> conn \<Rightarrow> string \<Rightarrow> string \<Rightarrow> VSTP \<Rightarrow> RamCacheDB \<Rightarrow> (VSTP \<times> RamCacheDB \<times> task list \<times> wire) option" where
  "dispatch me cli cmd payload v db =
     (if cmd = ''set'' then Some (let (db', ts, w) = handle_set v cli payload db in (v, db', ts, w))
      else if cmd = ''delete'' then Some (let (db', ts, w) = handle_delete v cli payload db in (v, db', ts, w))
      else if cmd = ''get'' then Some (v, db, [], handle_get v cli payload db)
      else if cmd = ''subscribe'' then Some (let (v', db', w) = handle_subscribe me v cli payload db in (v', db', [], w))
      else if cmd = ''unsubscribe'' then Some (let (db', w) = handle_unsubscribe me v cli payload db in (v, db', [], w))
      else if cmd = ''lock'' then map_option (\<lambda>(db', w). (v, db', [], w)) (handle_lock me v cli payload db)
      else if cmd = ''unlock'' then Some (let (db', w) = handle_unlock v cli payload db in (v, db', [], w))
      else if cmd = ''ping'' then Some (v, db, [], reply cli (''ping:'' @ payload) [protocolWrite cli ''pong'' []])
      else if cmd = ''setid'' then Some (handle_setid me v cli payload db)
      else if cmd = ''getchilds'' then Some (v, db, [], handle_getchilds v cli payload db)
      else if cmd = ''lockstatus'' then Some (v, db, [], handle_lockstatus v cli payload db)
      else Some (v, db, [], []))"

definition processReceivedMessage ::
    "msg_env \<Rightarrow> conn \<Rightarrow> string \<Rightarrow> VSTP \<Rightarrow> RamCacheDB \<Rightarrow> (VSTP \<times> RamCacheDB \<times> task list \<times> wire) option" where
  "processReceivedMessage me cli message v db =
     (let (cmd, payload) = separateKeyAndValue message
      in dispatch me cli (strings_TrimSpace cmd) (strings_TrimSpace payload) v db)"

section \<open>Lines\<close>

lemma take_lines_no_newline: "CHR 10 \<notin> set s \<Longrightarrow> take_lines s = ([], s)"
  by (simp add: take_lines.simps [of s])

lemma take_lines_newline:
  "CHR 10 \<notin> set l \<Longrightarrow> take_lines (l @ CHR 10 # s) = (strings_TrimRightByte l (CHR 13) # fst (take_lines s), snd (take_lines s))"
  by (simp add: take_lines.simps [of "l @ CHR 10 # s"] strings_IndexByte_append split: prod.splits)

lemma newline_cases:
  obtains "CHR 10 \<notin> set s" | l t where "s = l @ CHR 10 # t" "CHR 10 \<notin> set l"
  by (metis split_list_first)

text \<open>Taking the lines of a first chunk and continuing with what is left is taking them all at once.\<close>

lemma take_lines_append:
  "take_lines (a @ b) =
     (fst (take_lines a) @ fst (take_lines (snd (take_lines a) @ b)), snd (take_lines (snd (take_lines a) @ b)))"
proof (induction "length a" arbitrary: a rule: less_induct)
  case less
  show ?case
  proof (cases rule: newline_cases [of a])
    case 1
    then show ?thesis by (simp add: take_lines_no_newline)
  next
    case (2 l t)
    then show ?thesis using less.hyps [of t] by (simp add: take_lines_newline)
  qed
qed

text \<open>What one side writes as lines the other side reads back.\<close>

lemma TrimRight_id: "s = [] \<or> last s \<noteq> c \<Longrightarrow> strings_TrimRightByte s c = s"
  by (cases s rule: rev_cases) (auto simp: strings_TrimRightByte_def)

lemma take_lines_written:
  "\<forall>l \<in> set ls. CHR 10 \<notin> set l \<and> (l = [] \<or> last l \<noteq> CHR 13) \<Longrightarrow>
   take_lines (concat (map (\<lambda>l. l @ [CHR 10]) ls)) = (ls, [])"
  by (induction ls) (simp_all add: take_lines_no_newline take_lines_newline TrimRight_id)

section \<open>The client maps\<close>

text \<open>A non-empty id names only a connection that has this id at present.\<close>

definition ids_ok :: "VSTP \<Rightarrow> bool" where
  "ids_ok v \<longleftrightarrow> (\<forall>i cli. i \<noteq> [] \<longrightarrow> map_of (clientsById v) i = Some cli \<longrightarrow> map_of (clientsByTcpCli v) cli = Some i)"

text \<open>\<open>onConnect\<close> is called with a connection that has no id yet.\<close>

lemma ids_ok_onConnect:
  assumes "ids_ok v" and "map_of (clientsByTcpCli v) cli = None"
  shows "ids_ok (fst (onConnect n m fn cli v))"
  using assms by (auto simp: ids_ok_def connect_defs Let_def)

lemma ids_ok_onDisconnect:
  assumes "ids_ok v"
  shows "ids_ok (onDisconnect cli v)"
proof (cases "map_of (clientsByTcpCli v) cli")
  case None
  then show ?thesis using assms by (auto simp: ids_ok_def onDisconnect_def Let_def split: option.splits)
next
  case (Some i)
  then show ?thesis using assms by (auto simp: ids_ok_def onDisconnect_def Let_def)
qed

lemma onData_ids: "onData cli dat v = Some (v', ls) \<Longrightarrow> clientsById v' = clientsById v \<and> clientsByTcpCli v' = clientsByTcpCli v"
  by (auto simp: onData_def split: option.splits prod.splits)

text \<open>Both handlers give the connection an id; \<open>setid\<close> also gives up the old one.\<close>

definition id_of :: "VSTP \<Rightarrow> conn \<Rightarrow> string" where
  "id_of v cli = (case map_of (clientsByTcpCli v) cli of None \<Rightarrow> [] | Some i \<Rightarrow> i)"

definition assign_id :: "conn \<Rightarrow> string \<Rightarrow> VSTP \<Rightarrow> VSTP" where
  "assign_id cli i v = v\<lparr>clientsById := AList.update i cli (if id_of v cli \<noteq> [] then AList.delete (id_of v cli) (clientsById v) else clientsById v),
                        clientsByTcpCli := AList.update cli i (clientsByTcpCli v)\<rparr>"

lemma fst_handle_setid: "fst (handle_setid me v cli payload db) = assign_id cli payload v"
  by (simp add: handle_setid_def assign_id_def id_of_def [symmetric] Let_def split_beta split: option.split)

lemma fst_handle_subscribe:
  "fst (handle_subscribe me v cli payload db) =
     (if id_of v cli = [] \<and> ctrl v \<noteq> None then assign_id cli (strconv_Itoa (m_nanos me)) v else v)"
  by (simp add: handle_subscribe_def assign_id_def id_of_def [symmetric] Let_def split_beta split: option.split)

lemma clientsById_assign_id:
  "map_of (clientsById (assign_id cli i v)) j =
     (if j = i then Some cli else if j = id_of v cli \<and> j \<noteq> [] then None else map_of (clientsById v) j)"
  by (auto simp: assign_id_def)

lemma clientsByTcpCli_assign_id:
  "map_of (clientsByTcpCli (assign_id cli i v)) c = (if c = cli then Some i else map_of (clientsByTcpCli v) c)"
  by (simp add: assign_id_def)

lemma ids_okD: "ids_ok v \<Longrightarrow> i \<noteq> [] \<Longrightarrow> map_of (clientsById v) i = Some cli \<Longrightarrow> map_of (clientsByTcpCli v) cli = Some i"
  by (simp add: ids_ok_def)

lemma ids_ok_assign_id:
  assumes "ids_ok v"
  shows "ids_ok (assign_id cli i v)"
  unfolding ids_ok_def
proof (intro allI impI)
  fix j c
  assume "j \<noteq> []" and j: "map_of (clientsById (assign_id cli i v)) j = Some c"
  show "map_of (clientsByTcpCli (assign_id cli i v)) c = Some j"
  proof (cases "j = i")
    case True
    then show ?thesis using j by (simp add: clientsById_assign_id clientsByTcpCli_assign_id)
  next
    case False
    then have "j \<noteq> id_of v cli" and "map_of (clientsById v) j = Some c"
      using j \<open>j \<noteq> []\<close> by (auto simp: clientsById_assign_id split: if_splits)
    moreover from this have "map_of (clientsByTcpCli v) c = Some j"
      using ids_okD [OF assms \<open>j \<noteq> []\<close>] by simp
    ultimately show ?thesis by (auto simp: clientsByTcpCli_assign_id id_of_def)
  qed
qed

lemma if_SomeE: "(if b then x else y) = Some r \<Longrightarrow> (b \<Longrightarrow> x = Some r \<Longrightarrow> P) \<Longrightarrow> (\<not> b \<Longrightarrow> y = Some r \<Longrightarrow> P) \<Longrightarrow> P"
  by (simp split: if_splits)

text \<open>Only two commands change the client maps.\<close>

lemma dispatch_state:
  assumes "dispatch me cli cmd p v db = Some (v', db', ts, w)"
  shows "v' = v \<or> v' = fst (handle_subscribe me v cli p db) \<or> v' = fst (handle_setid me v cli p db)"
  using assms unfolding dispatch_def
  by (elim if_SomeE) (simp_all add: Let_def split_beta map_option_case split: option.splits)

lemma ids_ok_processReceivedMessage:
  assumes "ids_ok v" and "processReceivedMessage me cli m v db = Some (v', db', ts, w)"
  shows "ids_ok v'"
proof -
  obtain cmd p where "dispatch me cli cmd p v db = Some (v', db', ts, w)"
    using assms(2) by (auto simp: processReceivedMessage_def split: prod.splits)
  from dispatch_state [OF this] show ?thesis
    using assms(1) by (auto simp: fst_handle_setid fst_handle_subscribe ids_ok_assign_id)
qed

text \<open>The steps of the server: connections come and go, bytes arrive, and the goroutine of a line runs on
  whatever the database then holds. A new connection is a new object, so it has no id.\<close>

inductive vstp_step :: "VSTP \<Rightarrow> VSTP \<Rightarrow> bool" where
  connect: "map_of (clientsByTcpCli v) cli = None \<Longrightarrow> vstp_step v (fst (onConnect n m funName cli v))"
| disconnect: "vstp_step v (onDisconnect cli v)"
| data_arrives: "onData cli dat v = Some (v', ls) \<Longrightarrow> vstp_step v v'"
| message: "processReceivedMessage me cli m v db = Some (v', db', ts, w) \<Longrightarrow> vstp_step v v'"

inductive_cases vstp_stepE: "vstp_step v v'"

lemma ids_ok_onData: "ids_ok v \<Longrightarrow> onData cli dat v = Some (v', ls) \<Longrightarrow> ids_ok v'"
  unfolding ids_ok_def using onData_ids by metis

lemma ids_ok_NewVSTP: "ids_ok (NewVSTP c)"
  by (simp add: ids_ok_def NewVSTP_def)

lemma ids_ok_step: "vstp_step v v' \<Longrightarrow> ids_ok v \<Longrightarrow> ids_ok v'"
  by (erule vstp_stepE) (auto intro: ids_ok_onConnect ids_ok_onDisconnect ids_ok_onData ids_ok_processReceivedMessage)

lemma ids_ok_reachable: "vstp_step\<^sup>*\<^sup>* (NewVSTP c) v \<Longrightarrow> ids_ok v"
  by (induction rule: rtranclp_induct) (auto intro: ids_ok_step ids_ok_NewVSTP)

section \<open>Requests and replies\<close>

lemma separateKeyAndValue_split:
  "set k \<inter> set ''=;:'' = {} \<Longrightarrow> x \<in> set ''=;:'' \<Longrightarrow> separateKeyAndValue (k @ x # s) = (k, s)"
  by (induction k) auto

lemma separateKeyAndValue_none: "set k \<inter> set ''=;:'' = {} \<Longrightarrow> separateKeyAndValue k = (k, [])"
  by (induction k) auto

lemma valid_name_chars_plain: "set valid_name_chars \<inter> set ''=;:'' = {}"
  by (simp add: valid_name_chars_def)

lemma name_no_separator: "set name \<subseteq> set valid_name_chars \<Longrightarrow> set name \<inter> set ''=;:'' = {}"
  using valid_name_chars_plain by blast

lemma valid_name_chars_no_space: "\<forall>c \<in> set valid_name_chars. \<forall>r \<in> set space_runes. c \<noteq> hd r \<and> c \<noteq> last r"
  by (simp add: valid_name_chars_def space_runes_def)

lemma name_TrimSpace:
  assumes "set name \<subseteq> set valid_name_chars"
  shows "strings_TrimSpace name = name"
proof (cases "name = []")
  case False
  then have "hd name \<in> set valid_name_chars" "last name \<in> set valid_name_chars" using assms by auto
  then show ?thesis using valid_name_chars_no_space by (intro strings_TrimSpace_id) blast
qed simp

lemma TrimSpace_set: "strings_TrimSpace ''set'' = ''set''" "strings_TrimSpace ''get'' = ''get''"
  by code_simp+

lemma process_set:
  "processReceivedMessage me cli (''set:'' @ payload) v db = dispatch me cli ''set'' (strings_TrimSpace payload) v db"
  using separateKeyAndValue_split [of "''set''" "CHR '':''" payload]
  by (simp add: processReceivedMessage_def TrimSpace_set)

lemma process_get:
  "processReceivedMessage me cli (''get:'' @ payload) v db = dispatch me cli ''get'' (strings_TrimSpace payload) v db"
  using separateKeyAndValue_split [of "''get''" "CHR '':''" payload]
  by (simp add: processReceivedMessage_def TrimSpace_set)

lemma get_reply:
  assumes "ctrl v = Some c" and "set name \<subseteq> set valid_name_chars"
    and "GetVars c name (NewDynamicVar_string []) db = Inr [(name, NewDynamicVar_string val)]"
  shows "processReceivedMessage me cli (''get:'' @ name) v db =
    Some (v, db, [], reply cli (''get:'' @ name) [protocolWrite cli ''varvalue'' (name @ ''='' @ val)])"
  unfolding process_get name_TrimSpace [OF assms(2)]
  using assms(1,3) name_no_separator [OF assms(2)] by (simp add: dispatch_def handle_get_def separateKeyAndValue_none)

lemma reply_inject [simp]: "reply cli req b1 = reply cli req b2 \<longleftrightarrow> b1 = b2"
  by (simp add: reply_def)

text \<open>The header of a reply.\<close>

definition request_line :: "string \<Rightarrow> string \<Rightarrow> string" where
  "request_line cmd payload = cmd @ '':'' @ (if cmd = ''get'' then fst (separateKeyAndValue payload) else payload)"

lemma handle_set_reply: "ctrl v = Some c \<Longrightarrow> \<exists>db' ts b. handle_set v cli p db = (db', ts, reply cli (''set:'' @ p) b)"
  by (simp add: handle_set_def Let_def split_beta)

lemma handle_delete_reply:
  "ctrl v = Some c \<Longrightarrow> \<exists>db' ts b. handle_delete v cli p db = (db', ts, reply cli (''delete:'' @ p) b)"
  by (simp add: handle_delete_def Let_def split_beta)

lemma handle_subscribe_reply:
  "ctrl v = Some c \<Longrightarrow> \<exists>v' db' b. handle_subscribe me v cli p db = (v', db', reply cli (''subscribe:'' @ p) b)"
  by (simp add: handle_subscribe_def Let_def split_beta)

lemma handle_unsubscribe_reply:
  "ctrl v = Some c \<Longrightarrow> id_of v cli \<noteq> [] \<Longrightarrow>
   \<exists>db' b. handle_unsubscribe me v cli p db = (db', reply cli (''unsubscribe:'' @ p) b)"
  by (cases "map_of (clientsByTcpCli v) cli") (auto simp: handle_unsubscribe_def Let_def split_beta id_of_def)

lemma handle_setid_reply:
  "ctrl v = Some c \<Longrightarrow> \<exists>v' db' ts b. handle_setid me v cli p db = (v', db', ts, reply cli (''setid:'' @ p) b)"
  by (simp add: handle_setid_def Let_def split_beta)

interpretation vstp: client_api "vstp_api sendOk v" for sendOk v
  by unfold_locales (auto simp: vstp_api_def NotifyClient_def CheckAlive_def split: option.splits)

section \<open>Properties\<close>

lemma NotifyClient_conn:
  "(conn, line) \<in> set (snd (NotifyClient sendOk v cid pl)) \<Longrightarrow> map_of (clientsById v) cid = Some conn"
  by (auto simp: NotifyClient_def var_changed_line_def protocolWrite_def split: option.splits if_splits prod.splits)

text \<open>C28. A notification is written only to the connection that holds the id it is meant for at that moment,
  in every state the server can reach by connections, disconnections, received bytes and commands.\<close>

theorem notification_goes_to_holder:
  assumes "vstp_step\<^sup>*\<^sup>* (NewVSTP c) v" and "clientId \<noteq> []"
    and "(conn, line) \<in> set (snd (NotifyClient sendOk v clientId varsAndValues))"
  shows "map_of (clientsByTcpCli v) conn = Some clientId"
  using ids_okD [OF ids_ok_reachable [OF assms(1)] assms(2)] NotifyClient_conn [OF assms(3)] by blast

definition one_client :: VSTP where
  "one_client = fst (onConnect 0 0 ''x'' 7 (NewVSTP None))"

theorem notification_goes_to_holder_witness:
  "map_of (clientsByTcpCli one_client) 7 = Some ''0-x''"
proof -
  have "vstp_step\<^sup>*\<^sup>* (NewVSTP None) one_client"
    unfolding one_client_def by (rule r_into_rtranclp) (rule vstp_step.connect, simp add: NewVSTP_def)
  moreover have "(7, snd (var_changed_line 7 (''a'', [], ''1''))) \<in> set (snd (NotifyClient (\<lambda>_. True) one_client ''0-x'' [(''a'', [], ''1'')]))"
    by code_simp
  ultimately show ?thesis by (intro notification_goes_to_holder [where clientId = "''0-x''"]) simp_all
qed

text \<open>The splitting of the byte stream into commands does not depend on how TCP cuts it: two chunks give the
  same lines and the same state as their concatenation. Bytes of a connection without a buffer are the only
  ones on which the callback never returns, as it takes the clients' lock twice.\<close>

theorem onData_chunking:
  "Option.bind (onData cli d1 v) (\<lambda>(v1, ls1). map_option (\<lambda>(v2, ls2). (v2, ls1 @ ls2)) (onData cli d2 v1)) =
     onData cli (d1 @ d2) v \<and>
   (onData cli d1 v = None \<longleftrightarrow> map_of (incomingDataBuffer v) cli = None)"
  using take_lines_append [of "the (map_of (incomingDataBuffer v) cli) @ d1" d2]
  by (auto simp: onData_def split_beta split: option.splits)

text \<open>C40. A client that resumes a session with \<open>setid\<close> while the old connection of that id is still open loses
  the session when the old connection ends: the id is then unknown, although the new connection still
  carries it.\<close>

theorem takeover_is_undone_by_old_disconnect:
  assumes "map_of (clientsByTcpCli v) old = Some i" and "new \<noteq> old" and "v' = fst (handle_setid me v new i db)"
  shows "CheckAlive v' i \<and> map_of (clientsById v') i = Some new \<and>
    \<not> CheckAlive (onDisconnect old v') i \<and> map_of (clientsByTcpCli (onDisconnect old v')) new = Some i"
  using assms by (simp add: fst_handle_setid CheckAlive_def onDisconnect_def Let_def clientsById_assign_id clientsByTcpCli_assign_id)

definition demo_msg :: msg_env where
  "demo_msg = \<lparr>m_env = demo_env, m_nanos = 1000, m_sendOk = (\<lambda>_. True), m_sched = []\<rparr>"

theorem takeover_is_undone_by_old_disconnect_witness:
  "\<not> CheckAlive (onDisconnect 7 (fst (handle_setid demo_msg one_client 8 ''0-x'' one_var_db))) ''0-x''"
proof -
  have "map_of (clientsByTcpCli one_client) 7 = Some ''0-x''" by code_simp
  then show ?thesis using takeover_is_undone_by_old_disconnect [of one_client 7 "''0-x''" 8] by simp
qed

text \<open>Every request but \<open>lockstatus\<close> is answered, between a begin and an end line that name it: with a
  controller, for every command of the protocol, unless a \<open>lock\<close> still waits at the end of the schedule or an
  \<open>unsubscribe\<close> comes from a connection without id.\<close>

theorem every_request_is_answered:
  assumes "ctrl v = Some c"
    and "cmd \<in> set [''set'', ''delete'', ''get'', ''subscribe'', ''unsubscribe'', ''lock'', ''unlock'', ''ping'', ''setid'', ''getchilds'']"
    and "cmd = ''unsubscribe'' \<longrightarrow> id_of v cli \<noteq> []"
    and "cmd = ''lock'' \<longrightarrow> handle_lock me v cli payload db \<noteq> None"
  shows "\<exists>v' db' ts body. dispatch me cli cmd payload v db = Some (v', db', ts, reply cli (request_line cmd payload) body)"
proof -
  note r = handle_set_reply [OF assms(1), of cli payload db] handle_delete_reply [OF assms(1), of cli payload db]
    handle_subscribe_reply [OF assms(1), of me cli payload db] handle_setid_reply [OF assms(1), of me cli payload db]
  from assms(2) have "cmd = ''set'' \<or> cmd = ''delete'' \<or> cmd = ''get'' \<or> cmd = ''subscribe'' \<or> cmd = ''unsubscribe'' \<or>
    cmd = ''lock'' \<or> cmd = ''unlock'' \<or> cmd = ''ping'' \<or> cmd = ''setid'' \<or> cmd = ''getchilds''"
    by (simp only: list.set insert_iff empty_iff simp_thms)
  then show ?thesis
  proof (elim disjE, goal_cases)
    case 1 then show ?thesis using r(1) by (auto simp: dispatch_def request_line_def)
  next
    case 2 then show ?thesis using r(2) by (auto simp: dispatch_def request_line_def)
  next
    case 3 then show ?thesis using assms(1) by (simp add: dispatch_def request_line_def handle_get_def Let_def)
  next
    case 4 then show ?thesis using r(3) by (auto simp: dispatch_def request_line_def)
  next
    case 5 then show ?thesis
      using handle_unsubscribe_reply [OF assms(1), of cli me payload db] assms(3) by (auto simp: dispatch_def request_line_def)
  next
    case 6 then show ?thesis
      using assms(1,4) by (auto simp: dispatch_def request_line_def handle_lock_def Let_def split_beta)
  next
    case 7 then show ?thesis by (simp add: dispatch_def request_line_def handle_unlock_def Let_def)
  next
    case 8 then show ?thesis by (simp add: dispatch_def request_line_def)
  next
    case 9 then show ?thesis using r(4) by (auto simp: dispatch_def request_line_def)
  next
    case 10 then show ?thesis using assms(1) by (simp add: dispatch_def request_line_def handle_getchilds_def)
  qed
qed

theorem every_request_is_answered_witness:
  "\<exists>v' db' ts body. dispatch demo_msg 7 ''get'' ''a'' (NewVSTP (Some demo_ctl)) one_var_db =
     Some (v', db', ts, reply 7 (request_line ''get'' ''a'') body)"
  by (rule every_request_is_answered [where c = demo_ctl]) (simp_all add: NewVSTP_def)

text \<open>C20. Round trip over the protocol: when the line \<open>set:name=value\<close> is answered without an error, the line
  \<open>get:name\<close> of any client is answered with exactly one line, \<open>varvalue:name=value\<close>. This is for a name made only of the
  characters the controller keeps, without \<open>*\<close> (with it the line is answered without an error and stores nothing), and
  for a non-empty value, such that \<open>name=value\<close> has no white space at its ends, which the server would cut off.\<close>

theorem set_then_get_over_vstp:
  assumes "db_wf db" and "ctrl v = Some c" and "set name \<subseteq> set valid_name_chars - {CHR ''*''}" and "val \<noteq> []"
    and "strings_TrimSpace (name @ ''='' @ val) = name @ ''='' @ val"
    and "processReceivedMessage me cli (''set:'' @ name @ ''='' @ val) v db =
      Some (v', db', ts, reply cli (''set:'' @ name @ ''='' @ val) [])"
  shows "processReceivedMessage me' cli' (''get:'' @ name) v' db' =
    Some (v', db', [], reply cli' (''get:'' @ name) [protocolWrite cli' ''varvalue'' (name @ ''='' @ val)])"
proof -
  have name: "set name \<subseteq> set valid_name_chars" "CHR ''*'' \<notin> set name" using assms(3) by auto
  have split: "separateKeyAndValue (name @ ''='' @ val) = (name, val)"
    using separateKeyAndValue_split [OF name_no_separator [OF name(1)], of "CHR ''=''" val] by simp
  have s: "v' = v" "SetVar c name (NewDynamicVar_string val) db = (None, db', ts)"
    using assms(2,5) assms(6) [unfolded process_set] split
    by (auto simp: dispatch_def handle_set_def Let_def split_beta reply_inject prod_eq_iff split: if_splits option.splits)
  have "GetVars c name (NewDynamicVar_string []) db' = Inr [(name, NewDynamicVar_string val)]"
    using name assms(4) by (intro SetVar_then_GetVars [OF assms(1) s(2)]) (simp_all add: GetOnly_id)
  then show ?thesis using get_reply [OF assms(2) name(1)] by (simp add: s(1))
qed

theorem set_then_get_over_vstp_witness:
  "let v = NewVSTP (Some demo_ctl); db = (case processReceivedMessage demo_msg 7 ''set:a=5'' v one_var_db of Some (_, d, _) \<Rightarrow> d)
   in processReceivedMessage demo_msg 8 ''get:a'' v db =
     Some (v, db, [], reply 8 ''get:a'' [(8, ''varvalue:a=5'' @ [CHR 10])])"
proof -
  let ?v = "NewVSTP (Some demo_ctl)"
  obtain db' ts where s: "SetVar demo_ctl ''a'' (NewDynamicVar_string ''5'') one_var_db = (None, db', ts)" using demo_SetVar by blast
  have t: "strings_TrimSpace ''a=5'' = ''a=5''" by code_simp
  have p: "processReceivedMessage demo_msg 7 (''set:'' @ ''a'' @ ''='' @ ''5'') ?v one_var_db = Some (?v, db', ts, reply 7 (''set:'' @ ''a'' @ ''='' @ ''5'') [])"
    using s t unfolding process_set by (simp add: dispatch_def handle_set_def NewVSTP_def)
  have "processReceivedMessage demo_msg 8 (''get:'' @ ''a'') ?v db' =
     Some (?v, db', [], reply 8 (''get:'' @ ''a'') [protocolWrite 8 ''varvalue'' (''a'' @ ''='' @ ''5'')])"
    using t by (intro set_then_get_over_vstp [OF one_var_db_wf _ _ _ _ p]) (simp_all add: NewVSTP_def valid_name_chars_def)
  with p show ?thesis by (simp add: protocolWrite_def Let_def)
qed

end
