(* ===== verification/TcpServer.thy ===== *)
theory TcpServer
  imports VSTP
begin

text \<open>
  The TCP server (\<open>evttcpserver.go\<close>, \<open>evttcpclienthelper.go\<close>): its options, the callbacks made for a connection,
  and the client object. The network is a parameter: the outcome of listening, accepting, reading and
  closing. The last section runs the callbacks of the VSTP protocol on a connection, together with everything
  else that happens in the server.
\<close>

section \<open>Construction\<close>

record TCPServer =
  srv_port :: int
  unixSocketPath :: string
  srv_tls :: bool

type_synonym srv_option = "TCPServer \<Rightarrow> string + TCPServer"

definition WithPort :: "int \<Rightarrow> srv_option" where
  "WithPort port s =
     (if port \<le> 0 \<or> 65535 < port then Inl (''invalid port '' @ strconv_Itoa port) else Inr (s\<lparr>srv_port := port\<rparr>))"

definition WithUnixSocket :: "string \<Rightarrow> srv_option" where
  "WithUnixSocket path s = (if path = [] then Inl ''empty unix socket path'' else Inr (s\<lparr>unixSocketPath := path\<rparr>))"

definition WithTLSConfig :: srv_option where
  "WithTLSConfig s = Inr (s\<lparr>srv_tls := True\<rparr>)"

text \<open>\<open>loaded\<close>: the error of loading the key pair, if any.\<close>

definition WithTLSFromFiles :: "string option \<Rightarrow> srv_option" where
  "WithTLSFromFiles loaded s = (case loaded of Some err \<Rightarrow> Inl err | None \<Rightarrow> Inr (s\<lparr>srv_tls := True\<rparr>))"

text \<open>\<open>init\<close>: the address, and the error of \<open>net.Listen\<close> on it if any.\<close>

definition listen_address :: "TCPServer \<Rightarrow> string \<times> string" where
  "listen_address s =
     (if unixSocketPath s \<noteq> [] then (''unix'', unixSocketPath s) else (''tcp'', '':'' @ strconv_Itoa (srv_port s)))"

definition srv_init :: "(string \<times> string \<Rightarrow> string option) \<Rightarrow> TCPServer \<Rightarrow> string option" where
  "srv_init listen s =
     map_option (\<lambda>e. (if unixSocketPath s \<noteq> [] then ''error starting unix socket server: '' else ''error starting tcp server: '') @ e)
       (listen (listen_address s))"

fun apply_options :: "srv_option list \<Rightarrow> TCPServer \<Rightarrow> string + TCPServer" where
  "apply_options [] s = Inr s"
| "apply_options (opt # opts) s = (case opt s of Inl err \<Rightarrow> Inl err | Inr s' \<Rightarrow> apply_options opts s')"

definition New :: "(string \<times> string \<Rightarrow> string option) \<Rightarrow> srv_option list \<Rightarrow> string + TCPServer" where
  "New listen opts =
     (case apply_options opts \<lparr>srv_port = 9001, unixSocketPath = [], srv_tls = False\<rparr> of
        Inl err \<Rightarrow> Inl err
      | Inr r \<Rightarrow> (case srv_init listen r of Some err \<Rightarrow> Inl err | None \<Rightarrow> Inr r))"

section \<open>Connections\<close>

text \<open>The client object. \<open>con\<close> is its connection, \<open>None\<close> for nil; the other fields tell whether a callback is set. Nothing in
  the code sets one.\<close>

record TCPClient =
  con :: "nat option"
  OnData_set :: bool
  OnDataString_set :: bool

definition NewClientHelper :: "nat option \<Rightarrow> TCPClient" where
  "NewClientHelper c = \<lparr>con = c, OnData_set = False, OnDataString_set = False\<rparr>"

datatype tcp_event = OnClientConnect | OnClientData string | OnClientDataString string | OnClientDisconnect
  | OnData string | OnDataString string

definition cli_processReceivedData :: "TCPClient \<Rightarrow> string \<Rightarrow> tcp_event list" where
  "cli_processReceivedData ch dat =
     (if OnData_set ch then [OnData dat] else []) @ (if OnDataString_set ch then [OnDataString dat] else [])"

definition processReceivedData :: "TCPClient \<Rightarrow> string \<Rightarrow> tcp_event list" where
  "processReceivedData cli buf = cli_processReceivedData cli buf @ [OnClientData buf, OnClientDataString buf]"

definition createCli :: "nat option \<Rightarrow> TCPClient" where
  "createCli c = NewClientHelper c"

text \<open>\<open>handleClient\<close>: the callbacks for the connection \<open>k\<close>, whose reads return the texts \<open>reads\<close> and then an error. With
  the nil connection of a failed \<open>Accept\<close> the read panics, which ends the server: the second component.\<close>

definition handleClient :: "(nat \<times> string list) option \<Rightarrow> tcp_event list \<times> bool" where
  "handleClient conn =
     (case conn of
        None \<Rightarrow> ([OnClientConnect], True)
      | Some (k, reads) \<Rightarrow>
          let cli = createCli (Some k)
          in (OnClientConnect # concat (map (\<lambda>buf. if buf \<noteq> [] then processReceivedData cli buf else []) reads) @ [OnClientDisconnect], False))"

text \<open>\<open>work\<close>, the accept loop, on the outcomes of \<open>Accept\<close>: the callbacks of the goroutines it starts, and whether one of
  them ends the server. The error of \<open>Accept\<close> is only printed.\<close>

definition work :: "(nat \<times> string list) option list \<Rightarrow> tcp_event list list \<times> bool" where
  "work conns = (map (fst \<circ> handleClient) conns, list_ex (snd \<circ> handleClient) conns)"

text \<open>Closing: \<open>osClose\<close> is the error of closing a connection.\<close>

definition Close :: "(nat \<Rightarrow> string option) \<Rightarrow> TCPClient \<Rightarrow> string option \<times> TCPClient" where
  "Close osClose ch = (case con ch of None \<Rightarrow> (None, ch) | Some k \<Rightarrow> (osClose k, ch\<lparr>con := None\<rparr>))"

text \<open>\<open>Disconnect\<close> closes a copy of the client, so the client keeps its connection.\<close>

definition Disconnect :: "(nat \<Rightarrow> string option) \<Rightarrow> TCPClient \<Rightarrow> string option \<times> TCPClient" where
  "Disconnect osClose ch = (fst (Close osClose ch), ch)"

definition Send :: "(string \<Rightarrow> string option) \<Rightarrow> string \<Rightarrow> string option" where
  "Send osWrite dat = map_option (\<lambda>e. ''error sending data to client: '' @ e) (osWrite dat)"

definition SendString :: "(string \<Rightarrow> string option) \<Rightarrow> string \<Rightarrow> string option" where
  "SendString osWrite dat = Send osWrite dat"

text \<open>The methods of the server that take a client, which may be nil. \<open>Send\<close> and \<open>SendString\<close> of the server drop the error
  of the client.\<close>

definition nil_client :: string where
  "nil_client = ''nil client''"

definition DisconnectClient :: "(nat \<Rightarrow> string option) \<Rightarrow> TCPClient option \<Rightarrow> string option" where
  "DisconnectClient osClose cli = (case cli of None \<Rightarrow> Some nil_client | Some ch \<Rightarrow> fst (Disconnect osClose ch))"

definition srv_Send :: "(string \<Rightarrow> string option) \<Rightarrow> TCPClient option \<Rightarrow> string \<Rightarrow> string option" where
  "srv_Send osWrite cli dat = (case cli of None \<Rightarrow> Some nil_client | Some ch \<Rightarrow> (let _ = Send osWrite dat in None))"

section \<open>The VSTP server\<close>

text \<open>\<open>NewVSTP\<close> of \<open>vstp.go\<close> as a whole: the TCP server on the port, the callbacks (the operations \<open>onConnect\<close>, \<open>onDisconnect\<close> and
  \<open>onData\<close>) and the registration with the controller.\<close>

definition start_VSTP ::
    "(string \<times> string \<Rightarrow> string option) \<Rightarrow> (conn \<Rightarrow> bool) \<Rightarrow> int \<Rightarrow> TheController option \<Rightarrow> string + VSTP \<times> TheController option" where
  "start_VSTP listen sendOk port c =
     (case New listen [WithPort port] of
        Inl err \<Rightarrow> Inl err
      | Inr srv \<Rightarrow> (let v = NewVSTP c in Inr (v, map_option (ApiStarted (vstp_api sendOk v)) c)))"

text \<open>\<open>New\<close> starts to accept before \<open>NewVSTP\<close> has set the callbacks: until then a connection is only given to the callbacks
  of \<open>New\<close>, which do nothing.\<close>

definition SetOnCLientConnect :: "bool \<Rightarrow> int \<Rightarrow> int \<Rightarrow> string \<Rightarrow> conn \<Rightarrow> VSTP \<Rightarrow> VSTP \<times> wire" where
  "SetOnCLientConnect already_set n m funName cli v = (if already_set then onConnect n m funName cli v else (v, []))"

definition SetOnClientData :: "bool \<Rightarrow> conn \<Rightarrow> string \<Rightarrow> VSTP \<Rightarrow> (VSTP \<times> string list) option" where
  "SetOnClientData already_set cli dat v = (if already_set then onData cli dat v else Some (v, []))"

text \<open>A client that connects before the callbacks are set and sends something afterwards gets no greeting, and the goroutine
  that reads from it never returns from the callback.\<close>

theorem early_connection_blocks:
  "SetOnCLientConnect False n m funName cli (NewVSTP c) = (NewVSTP c, []) \<and> SetOnClientData True cli dat (NewVSTP c) = None"
  by (simp add: SetOnCLientConnect_def SetOnClientData_def onData_def NewVSTP_def)

lemma start_VSTP_outcome:
  assumes "port \<in> {1..65535}"
  shows "start_VSTP listen sendOk port c =
    (case listen (''tcp'', '':'' @ strconv_Itoa port) of
       Some e \<Rightarrow> Inl (''error starting tcp server: '' @ e)
     | None \<Rightarrow> Inr (NewVSTP c, map_option (ApiStarted (vstp_api sendOk (NewVSTP c))) c))"
  using assms by (auto simp: start_VSTP_def New_def WithPort_def srv_init_def listen_address_def Let_def split: option.split)

section \<open>A VSTP connection among others\<close>

text \<open>What the rest of the server may do between two reads of the connection \<open>cli\<close>: the goroutine of a line of any
  client, and the callbacks of other connections.\<close>

inductive other_step :: "conn \<Rightarrow> VSTP \<Rightarrow> VSTP \<Rightarrow> bool" for cli where
  message: "processReceivedMessage me c m v db = Some (v', db', ts, w) \<Longrightarrow> other_step cli v v'"
| connect: "c \<noteq> cli \<Longrightarrow> other_step cli v (fst (onConnect n m funName c v))"
| disconnect: "c \<noteq> cli \<Longrightarrow> other_step cli v (onDisconnect c v)"
| data_arrives: "c \<noteq> cli \<Longrightarrow> onData c dat v = Some (v', ls) \<Longrightarrow> other_step cli v v'"

text \<open>A connection since its start: the bytes read so far and the lines handed to goroutines.\<close>

inductive tcp_session :: "conn \<Rightarrow> VSTP \<Rightarrow> string \<Rightarrow> string list \<Rightarrow> VSTP \<Rightarrow> bool" for cli v where
  start: "tcp_session cli v [] [] (fst (onConnect n m funName cli v))"
| bytes: "tcp_session cli v bs ls v1 \<Longrightarrow> onData cli dat v1 = Some (v2, new) \<Longrightarrow> tcp_session cli v (bs @ dat) (ls @ new) v2"
| others: "tcp_session cli v bs ls v1 \<Longrightarrow> other_step cli v1 v2 \<Longrightarrow> tcp_session cli v bs ls v2"

text \<open>The callbacks of new connections once more, with a step for each access to the counter, which they use without a
  lock: a callback reads it for the id it offers, loads it for the increment, stores the successor, and registers the
  connection under \<open>clientsLock\<close>.\<close>

datatype connecting = Named string | Loaded string int | Counted string

fun counting :: "connecting \<Rightarrow> bool" where
  "counting (Counted _) = False"
| "counting _ = True"

text \<open>The VSTP server since its start: the callbacks that are under way, whether they have kept apart so far (none has
  read the counter while another was between its reading and its storing), the ids they have offered, and the
  server itself.\<close>

inductive vstp_run :: "VSTP \<Rightarrow> (conn \<times> connecting) list \<Rightarrow> bool \<Rightarrow> string list \<Rightarrow> VSTP \<Rightarrow> bool" for v0 where
  start: "vstp_run v0 [] True [] v0"
| read: "vstp_run v0 ps apart ids v \<Longrightarrow> uid = connect_id (cliIdCount v) funName \<Longrightarrow>
    vstp_run v0 ((cli, Named uid) # ps) (apart \<and> (\<forall>p \<in> set ps. \<not> counting (snd p))) (ids @ [uid]) v"
| load: "vstp_run v0 (ps @ (cli, Named uid) # qs) apart ids v \<Longrightarrow> vstp_run v0 (ps @ (cli, Loaded uid (cliIdCount v)) # qs) apart ids v"
| store: "vstp_run v0 (ps @ (cli, Loaded uid m) # qs) apart ids v \<Longrightarrow>
    vstp_run v0 (ps @ (cli, Counted uid) # qs) apart ids (connect_store m v)"
| register: "vstp_run v0 (ps @ (cli, Counted uid) # qs) apart ids v \<Longrightarrow>
    vstp_run v0 (ps @ qs) apart ids (fst (connect_register uid cli v))"
| message: "vstp_run v0 ps apart ids v \<Longrightarrow> processReceivedMessage me c m v db = Some (v', db', ts, w) \<Longrightarrow> vstp_run v0 ps apart ids v'"
| disconnect: "vstp_run v0 ps apart ids v \<Longrightarrow> vstp_run v0 ps apart ids (onDisconnect c v)"
| data_arrives: "vstp_run v0 ps apart ids v \<Longrightarrow> onData c dat v = Some (v', ls) \<Longrightarrow> vstp_run v0 ps apart ids v'"

inductive_cases other_stepE: "other_step cli v v'"

lemma processReceivedMessage_keeps:
  assumes "processReceivedMessage me c m v db = Some (v', db', ts, w)"
  shows "incomingDataBuffer v' = incomingDataBuffer v \<and> cliIdCount v' = cliIdCount v"
proof -
  obtain cmd p where "dispatch me c cmd p v db = Some (v', db', ts, w)"
    using assms by (auto simp: processReceivedMessage_def split: prod.splits)
  from dispatch_state [OF this] show ?thesis
    by (auto simp: fst_handle_setid fst_handle_subscribe assign_id_def)
qed

lemma buffer_other_step:
  "other_step cli v v' \<Longrightarrow> map_of (incomingDataBuffer v') cli = map_of (incomingDataBuffer v) cli"
  by (erule other_stepE)
    (auto simp: processReceivedMessage_keeps connect_defs onDisconnect_def onData_def Let_def split: option.splits prod.splits)

lemma tcp_session_lines:
  "tcp_session cli v bs ls v1 \<Longrightarrow> ls = fst (take_lines bs) \<and> map_of (incomingDataBuffer v1) cli = Some (snd (take_lines bs))"
proof (induction rule: tcp_session.induct)
  case (start n m funName)
  then show ?case by (simp add: connect_defs Let_def take_lines_no_newline)
next
  case (bytes bs ls v1 dat v2 new)
  then show ?case using take_lines_append [of bs dat] by (auto simp: onData_def split: prod.splits)
next
  case (others bs ls v1 v2)
  then show ?case using buffer_other_step by simp
qed

text \<open>The \<open>k\<close>-th id begins with the number \<open>k\<close>, reduced to 64 bits.\<close>

lemma Itoa_dash_inj:
  assumes "strconv_Itoa i @ CHR ''-'' # a = strconv_Itoa j @ CHR ''-'' # b"
  shows "i = j"
proof -
  have cut: "x = y" if "x @ CHR ''-'' # a = y @ CHR ''-'' # b" "CHR ''-'' \<notin> set x" "CHR ''-'' \<notin> set y" for x y
  proof -
    have "takeWhile (\<lambda>c. c \<noteq> CHR ''-'') (z @ CHR ''-'' # s) = z" if "CHR ''-'' \<notin> set z" for z s
      using that by (induction z) auto
    then show ?thesis using that by metis
  qed
  have "(i < 0) = (j < 0)"
    using arg_cong [OF assms, of hd] hd_nat_dec(1) [of "nat i"] hd_nat_dec(1) [of "nat j"]
    by (simp add: strconv_Itoa_def hd_append split: if_splits)
  then show ?thesis
  proof (cases "i < 0")
    case True
    then have "nat_dec (nat (- i)) @ CHR ''-'' # a = nat_dec (nat (- j)) @ CHR ''-'' # b"
      using assms \<open>(i < 0) = (j < 0)\<close> by (simp add: strconv_Itoa_def)
    from cut [OF this nat_dec_sign(1) nat_dec_sign(1)] True \<open>(i < 0) = (j < 0)\<close> show ?thesis by simp
  next
    case False
    then have "nat_dec (nat i) @ CHR ''-'' # a = nat_dec (nat j) @ CHR ''-'' # b"
      using assms \<open>(i < 0) = (j < 0)\<close> by (simp add: strconv_Itoa_def)
    from cut [OF this nat_dec_sign(1) nat_dec_sign(1)] False \<open>(i < 0) = (j < 0)\<close> show ?thesis by simp
  qed
qed

lemma wrap64_Suc: "wrap64 (wrap64 x + 1) = wrap64 (x + 1)"
proof -
  have "wrap64 x + 1 + 2 ^ 63 = (x + 2 ^ 63) mod 2 ^ 64 + 1" unfolding wrap64_def by linarith
  then have "(wrap64 x + 1 + 2 ^ 63) mod 2 ^ 64 = ((x + 2 ^ 63) + 1) mod 2 ^ 64" by (simp only: mod_add_left_eq)
  then show ?thesis unfolding wrap64_def [of "wrap64 x + 1"] wrap64_def [of "x + 1"] by (simp only: ac_simps)
qed

lemma wrap64_inj_nat:
  assumes "wrap64 (int i) = wrap64 (int j)" and "i < 2 ^ 64" and "j < 2 ^ 64"
  shows "i = j"
proof -
  have "(int i + 2 ^ 63) mod 2 ^ 64 = (int j + 2 ^ 63) mod 2 ^ 64" 
    using assms(1) unfolding wrap64_def by linarith
  then have "2 ^ 64 dvd (int i - int j)" by (simp only: mod_eq_dvd_iff add_diff_cancel_right)
  moreover have "\<bar>int i - int j\<bar> < 2 ^ 64" using assms(2,3) by simp
  ultimately have "int i - int j = 0" using zdvd_not_zless [of "\<bar>int i - int j\<bar>" "2 ^ 64"] by (metis dvd_abs_iff zero_less_abs_iff)
  then show ?thesis by simp
qed

text \<open>While the callbacks keep apart, the counter is the number of ids offered, less one while a callback is counting.\<close>

definition counted_to :: "(conn \<times> connecting) list \<Rightarrow> string list \<Rightarrow> VSTP \<Rightarrow> bool" where
  "counted_to ps ids v \<longleftrightarrow>
     (let busy = filter (counting \<circ> snd) ps
      in length busy \<le> 1 \<and> cliIdCount v = wrap64 (int (length ids) - int (length busy)) \<and>
         (\<forall>cli uid m. (cli, Loaded uid m) \<in> set busy \<longrightarrow> m = cliIdCount v))"

definition numbered :: "string list \<Rightarrow> bool" where
  "numbered ids \<longleftrightarrow> (\<forall>k < length ids. \<exists>name. ids ! k = strconv_Itoa (wrap64 (int k)) @ CHR ''-'' # name)"

lemma counted_to_Counted [simp]: "counted_to (ps @ (cli, Counted uid) # qs) ids v = counted_to (ps @ qs) ids v"
  by (simp add: counted_to_def)

lemma counted_to_cong: "cliIdCount v' = cliIdCount v \<Longrightarrow> counted_to ps ids v' = counted_to ps ids v"
  by (simp add: counted_to_def)

lemma one_counting:
  assumes "counted_to (ps @ (cli, p) # qs) ids v" and "counting p"
  shows "filter (counting \<circ> snd) ps = []" and "filter (counting \<circ> snd) qs = []"
  using assms by (simp_all add: counted_to_def Let_def)

lemma numbered_snoc: "numbered ids \<Longrightarrow> numbered (ids @ [connect_id (wrap64 (int (length ids))) funName])"
  by (auto simp: numbered_def nth_append less_Suc_eq connect_id_def)

lemma vstp_run_numbers: "vstp_run v0 ps apart ids v \<Longrightarrow> cliIdCount v0 = 0 \<Longrightarrow> apart \<Longrightarrow> counted_to ps ids v \<and> numbered ids"
proof (induction rule: vstp_run.induct)
  case (read ps apart ids v uid funName cli)
  then have f: "filter (counting \<circ> snd) ps = []" by (simp add: filter_empty_conv)
  have c: "counted_to ps ids v" and n: "numbered ids" using read.IH read.prems by blast+
  from c f have count: "cliIdCount v = wrap64 (int (length ids))" by (simp add: counted_to_def)
  have "numbered (ids @ [uid])" unfolding read.hyps(2) count by (rule numbered_snoc [OF n])
  then show ?case using f count by (simp add: counted_to_def)
next
  case (load ps cli uid qs apart ids v)
  have c: "counted_to (ps @ (cli, Named uid) # qs) ids v" "numbered ids" using load.IH load.prems by blast+
  have f: "filter (counting \<circ> snd) ps = []" "filter (counting \<circ> snd) qs = []" using one_counting [OF c(1)] by simp_all
  have "counted_to (ps @ (cli, Loaded uid (cliIdCount v)) # qs) ids v"
    using c(1) f by (simp add: counted_to_def)
  then show ?case using c(2) by blast
next
  case (store ps cli uid m qs apart ids v)
  have c: "counted_to (ps @ (cli, Loaded uid m) # qs) ids v" "numbered ids" using store.IH store.prems by blast+
  have f: "filter (counting \<circ> snd) ps = []" "filter (counting \<circ> snd) qs = []" using one_counting [OF c(1)] by simp_all
  have "m = wrap64 (int (length ids) - 1)" using c(1) f by (simp add: counted_to_def)
  then have "counted_to (ps @ qs) ids (connect_store m v)"
    using f wrap64_Suc [of "int (length ids) - 1"] by (simp add: counted_to_def connect_store_def)
  then show ?case using c(2) by simp
next
  case (register ps cli uid qs apart ids v)
  then show ?case using counted_to_cong [of "fst (connect_register uid cli v)" v] by (simp add: connect_register_def Let_def)
next
  case (message ps apart ids v me c m db v' db' ts w)
  then show ?case using processReceivedMessage_keeps counted_to_cong [of v' v] by blast
next
  case (disconnect ps apart ids v c)
  have "cliIdCount (onDisconnect c v) = cliIdCount v" by (simp add: onDisconnect_def Let_def split: option.split)
  then show ?case using disconnect.IH [OF disconnect.prems] counted_to_cong [of "onDisconnect c v" v] by blast
next
  case (data_arrives ps apart ids v c dat v' ls)
  then have "cliIdCount v' = cliIdCount v" by (auto simp: onData_def split: option.splits prod.splits)
  then show ?case using data_arrives.IH [OF data_arrives.prems] counted_to_cong [of v' v] by blast
qed (simp add: wrap64_def counted_to_def numbered_def)

section \<open>Properties\<close>

lemma apart_ids_distinct:
  assumes "vstp_run (NewVSTP c) ps True ids v" and "length ids \<le> 2 ^ 64"
  shows "distinct ids"
proof -
  have at: "\<exists>name. ids ! k = strconv_Itoa (wrap64 (int k)) @ CHR ''-'' # name" if "k < length ids" for k
    using vstp_run_numbers [OF assms(1)] that by (simp add: NewVSTP_def numbered_def)
  show ?thesis
  proof (rule distinct_conv_nth [THEN iffD2], intro allI impI)
    fix i j
    assume ij: "i < length ids" "j < length ids" "i \<noteq> j"
    then have "wrap64 (int i) \<noteq> wrap64 (int j)" using wrap64_inj_nat [of i j] assms(2) by auto
    then show "ids ! i \<noteq> ids ! j" using at [OF ij(1)] at [OF ij(2)] Itoa_dash_inj by metis
  qed
qed

text \<open>A callback that runs without another in between is the operation \<open>onConnect\<close> on the counter as it is.\<close>

lemma whole_callback:
  assumes "vstp_run v0 ps apart ids v"
  shows "vstp_run v0 ps (apart \<and> (\<forall>p \<in> set ps. \<not> counting (snd p))) (ids @ [connect_id (cliIdCount v) funName])
    (fst (onConnect (cliIdCount v) (cliIdCount v) funName cli v))"
proof -
  let ?uid = "connect_id (cliIdCount v) funName" and ?a = "apart \<and> (\<forall>p \<in> set ps. \<not> counting (snd p))"
  have "vstp_run v0 ([] @ (cli, Named ?uid) # ps) ?a (ids @ [?uid]) v"
    using vstp_run.read [OF assms refl] by simp
  from vstp_run.register [OF vstp_run.store [OF vstp_run.load [OF this]]] show ?thesis
    by (simp add: onConnect_def)
qed

lemma overlapping_callbacks:
  assumes "c1 \<noteq> c2" and "uid = connect_id (cliIdCount v) funName"
  shows "\<exists>v'. vstp_run v [] False [uid, uid] v' \<and> map_of (clientsById v') uid = Some c2 \<and>
    map_of (clientsByTcpCli v') c1 = Some uid \<and> map_of (clientsByTcpCli v') c2 = Some uid"
proof -
  have "vstp_run v ((c2, Named uid) # [] @ [(c1, Named uid)]) False ([uid] @ [uid]) v"
    using vstp_run.read [OF vstp_run.read [OF vstp_run.start assms(2), of c1] assms(2), of c2] by simp
  then have "vstp_run v (([(c2, Named uid)] @ (c1, Named uid) # [])) False [uid, uid] v" by simp
  from vstp_run.register [OF vstp_run.store [OF vstp_run.load [OF this]]]
  have "vstp_run v ([] @ (c2, Named uid) # []) False [uid, uid] (fst (connect_register uid c1 (connect_store (cliIdCount v) v)))"
    by simp
  from vstp_run.register [OF vstp_run.store [OF vstp_run.load [OF this]]] show ?thesis
    using assms(1) by (intro exI conjI) (auto simp: connect_register_def connect_store_def Let_def)
qed

text \<open>C26. What the ids offered to new connections promise. As long as the callbacks keep apart, that is none reads the
  counter while another is between reading it and storing its successor, no two connections are offered the same id,
  whatever else happens on the server and whatever the random names are, until the counter of 64 bits has gone through
  all its values. The code does not keep the callbacks apart: when two of them overlap and their random names are
  equal, both connections are registered under one id, whose notifications go to the one that registered last.\<close>

theorem suggested_ids_distinct:
  "(vstp_run (NewVSTP c) ps True ids v \<longrightarrow> length ids \<le> 2 ^ 64 \<longrightarrow> distinct ids) \<and>
   (c1 \<noteq> c2 \<longrightarrow> (\<exists>uid v'. vstp_run (NewVSTP c) [] False [uid, uid] v' \<and> map_of (clientsById v') uid = Some c2 \<and>
      map_of (clientsByTcpCli v') c1 = Some uid \<and> map_of (clientsByTcpCli v') c2 = Some uid))"
  using apart_ids_distinct overlapping_callbacks [OF _ refl] by blast

theorem suggested_ids_distinct_witness:
  "connect_id 0 ''shy moose'' \<noteq> connect_id 1 ''shy moose'' \<and> (\<exists>uid v'. vstp_run (NewVSTP None) [] False [uid, uid] v')"
proof -
  let ?n = "''shy moose''" and ?v = "NewVSTP None"
  let ?v1 = "fst (onConnect (cliIdCount ?v) (cliIdCount ?v) ?n 1 ?v)"
  have count: "cliIdCount ?v = 0" "cliIdCount ?v1 = 1" by (simp_all add: NewVSTP_def connect_defs Let_def wrap64_def)
  have "\<exists>v. vstp_run ?v [] (True \<and> True) ([connect_id (cliIdCount ?v) ?n] @ [connect_id (cliIdCount ?v1) ?n]) v"
    using whole_callback [OF whole_callback [OF vstp_run.start, of ?v ?n 1], of ?n 2] by auto
  then obtain v where "vstp_run ?v [] True [connect_id 0 ?n, connect_id 1 ?n] v" unfolding count(2) by (auto simp: count(1))
  then show ?thesis using suggested_ids_distinct [of None "[]" "[connect_id 0 ?n, connect_id 1 ?n]" v 1 2] by auto
qed

text \<open>C25. However TCP cuts the stream of a connection into reads, and whatever commands and other connections the
  server works on in between, the lines handed to the command goroutines are those of the whole stream read so far, in
  order and each once, and the bytes after the last line are kept for the next read. The connection is one accepted
  after the callbacks were set. Nothing is said about a server that reads no further, as it does once a connection
  accepted earlier has sent something.\<close>

theorem stream_is_cut_into_its_lines:
  assumes "tcp_session cli v bs ls v1"
  shows "ls = fst (take_lines bs) \<and> map_of (incomingDataBuffer v1) cli = Some (snd (take_lines bs))"
  using tcp_session_lines [OF assms] .

theorem stream_is_cut_into_its_lines_witness:
  "\<exists>v1 v2. onData 7 ''pi'' (fst (onConnect 0 0 ''x'' 7 (NewVSTP None))) = Some (v1, []) \<and>
     onData 7 (''ng:'' @ [CHR 10, CHR ''g'']) v1 = Some (v2, [''ping:'']) \<and> map_of (incomingDataBuffer v2) 7 = Some ''g''"
proof -
  let ?v0 = "fst (onConnect 0 0 ''x'' 7 (NewVSTP None))"
  have "map_option snd (onData 7 ''pi'' ?v0) = Some []" by code_simp
  then obtain v1 where 1: "onData 7 ''pi'' ?v0 = Some (v1, [])" by auto
  have "Option.bind (onData 7 ''pi'' ?v0) (\<lambda>(v, _). map_option snd (onData 7 (''ng:'' @ [CHR 10, CHR ''g'']) v)) = Some [''ping:'']" by code_simp
  then obtain v2 where 2: "onData 7 (''ng:'' @ [CHR 10, CHR ''g'']) v1 = Some (v2, [''ping:''])" using 1 by auto
  have "tcp_session 7 (NewVSTP None) (([] @ ''pi'') @ ''ng:'' @ [CHR 10, CHR ''g'']) (([] @ []) @ [''ping:'']) v2"
    using tcp_session.start 1 2 by (blast intro: tcp_session.bytes)
  from stream_is_cut_into_its_lines [OF this] have "map_of (incomingDataBuffer v2) 7 = Some (snd (take_lines (''ping:'' @ [CHR 10, CHR ''g''])))"
    by simp
  moreover have "snd (take_lines (''ping:'' @ [CHR 10, CHR ''g''])) = ''g''" by code_simp
  ultimately show ?thesis using 1 2 by auto
qed

text \<open>The accept loop survives exactly as long as no \<open>Accept\<close> fails.\<close>

lemma failed_accept_ends_server: "snd (work conns) \<longleftrightarrow> None \<in> set conns"
proof -
  have "snd (handleClient x) \<longleftrightarrow> x = None" for x
    by (cases x) (auto simp: handleClient_def Let_def split: prod.split)
  then show ?thesis by (auto simp: work_def list_ex_iff)
qed

text \<open>Closing a client twice asks the system twice, although the code means the second call to do nothing.\<close>

lemma second_disconnect_closes_again:
  "con ch = Some k \<Longrightarrow> fst (Disconnect osClose (snd (Disconnect osClose ch))) = osClose k"
  by (simp add: Disconnect_def Close_def)

end
