(* ===== verification/HttpJson.thy ===== *)
theory HttpJson
  imports Misc "HOL-Library.AList"
begin

text \<open>
  The JSON documents of \<open>httpapi.go\<close>: how variables become a document (\<open>parseDynamicVar\<close>,
  \<open>insertNested\<close>, \<open>normalizeArrays\<close>). A document is what \<open>encoding/json\<close> decodes into \<open>any\<close>; a Go map is
  an association list in which a key is found at its first position. The package \<open>encoding/json\<close> and the
  conversions of floating-point numbers (values of a type \<open>'f\<close>) are the parameter \<open>go_lib\<close>.
\<close>

section \<open>Documents\<close>

datatype 'f json = JNull | JBool bool | JNum 'f | JStr string | JArr "'f json list" | JObj "(string \<times> 'f json) list"

text \<open>\<open>Unmarshal\<close> reads a whole text, \<open>Decode\<close> the first document of a stream.\<close>

record 'f go_lib =
  json_Unmarshal :: "string \<Rightarrow> 'f json option"
  json_Decode :: "string \<Rightarrow> 'f json option"
  json_Marshal :: "'f json \<Rightarrow> string option"
  json_MarshalIndent :: "'f json \<Rightarrow> string option"
  fmt_Sprintf :: "'f json \<Rightarrow> string"
  strconv_ParseFloat :: "string \<Rightarrow> 'f option"
  strconv_FormatFloat :: "'f \<Rightarrow> string"
  float_zero :: 'f

definition parseDynamicVar :: "'f go_lib \<Rightarrow> DynamicVar \<Rightarrow> 'f json" where
  "parseDynamicVar lib dv =
     (let s = GetString dv
      in if s = [] then JStr []
         else case json_Unmarshal lib s of Some out \<Rightarrow> out | None \<Rightarrow> JStr s)"

section \<open>Building a document\<close>

text \<open>The loop of \<open>insertNested\<close> over the components of the path; the entry of the last component is
  set at the end. \<open>strings.Split\<close> never returns an empty list, so the first equation is not reached.\<close>

fun insertNested :: "(string \<times> 'f json) list \<Rightarrow> string list \<Rightarrow> 'f json \<Rightarrow> (string \<times> 'f json) list" where
  "insertNested node [] value = node"
| "insertNested node [lst] value =
     (if lst = [] then node
      else case map_of node lst of
             None \<Rightarrow> AList.update lst value node
           | Some (JObj m) \<Rightarrow> AList.update lst (JObj (AList.update ''_value'' value m)) node
           | Some _ \<Rightarrow> AList.update lst value node)"
| "insertNested node (key # p # ps) value =
     (if key = [] then insertNested node (p # ps) value
      else let child = (case map_of node key of
                          None \<Rightarrow> []
                        | Some (JObj m) \<Rightarrow> m
                        | Some typed \<Rightarrow> [(''_value'', typed)])
           in AList.update key (JObj (insertNested child (p # ps) value)) node)"

section \<open>Arrays\<close>

text \<open>The check of the keys, in the order in which the runtime iterates over the map: \<open>None\<close> when a key does
  not continue the count, otherwise the largest index.\<close>

fun check_keys :: "int \<Rightarrow> int \<Rightarrow> string list \<Rightarrow> int option" where
  "check_keys previusNum maxIdx [] = Some maxIdx"
| "check_keys previusNum maxIdx (k # ks) =
     (case strconv_Atoi k of
        None \<Rightarrow> None
      | Some idx \<Rightarrow>
          if idx < 0 \<or> idx \<noteq> wrap64 (previusNum + 1) then None
          else check_keys idx (if maxIdx < idx then idx else maxIdx) ks)"

definition build_slice :: "int \<Rightarrow> (string \<times> 'f json) list \<Rightarrow> 'f json list" where
  "build_slice maxIdx t = foldl (\<lambda>arr (k, child). arr[nat (num_of k) := child]) (replicate (nat (maxIdx + 1)) JNull) t"

lemma size_member: "kv \<in> set kvs \<Longrightarrow> size (snd kv) < size (JObj kvs)"
  by (induction kvs) (auto simp: less_Suc_eq split: prod.splits)

lemma size_elem: "x \<in> set xs \<Longrightarrow> size x < size (JArr xs)"
  by (induction xs) auto

text \<open>\<open>order\<close> is the order in which the second loop meets the entries of a map.\<close>

function normalizeArrays :: "((string \<times> 'f json) list \<Rightarrow> (string \<times> 'f json) list) \<Rightarrow> 'f json \<Rightarrow> 'f json" where
  "normalizeArrays order (JObj kvs) =
     (let t = map (\<lambda>kv. (fst kv, normalizeArrays order (snd kv))) kvs
      in if t = [] then JObj t
         else case check_keys (- 1) (- 1) (map fst (order t)) of
                None \<Rightarrow> JObj t
              | Some maxIdx \<Rightarrow> JArr (build_slice maxIdx t))"
| "normalizeArrays order (JArr xs) = JArr (map (normalizeArrays order) xs)"
| "normalizeArrays order JNull = JNull"
| "normalizeArrays order (JBool b) = JBool b"
| "normalizeArrays order (JNum x) = JNum x"
| "normalizeArrays order (JStr s) = JStr s"
  by pat_completeness auto

termination
  by (relation "measure (\<lambda>(_, j). size j)") (auto dest: size_member size_elem simp del: json.size)

section \<open>Documents as maps from paths\<close>

text \<open>The value a document gives to a path: the node itself or, when the node has children, its entry
  \<open>_value\<close>.\<close>

fun nested_value :: "(string \<times> 'f json) list \<Rightarrow> string list \<Rightarrow> 'f json option" where
  "nested_value node [] = None"
| "nested_value node [k] = (case map_of node k of Some (JObj m) \<Rightarrow> map_of m ''_value'' | x \<Rightarrow> x)"
| "nested_value node (k # p # ps) = (case map_of node k of Some (JObj m) \<Rightarrow> nested_value m (p # ps) | _ \<Rightarrow> None)"

definition clean_path :: "string list \<Rightarrow> bool" where
  "clean_path p \<longleftrightarrow> p \<noteq> [] \<and> [] \<notin> set p \<and> ''_value'' \<notin> set p"

fun is_obj :: "'f json \<Rightarrow> bool" where
  "is_obj (JObj _) = True"
| "is_obj _ = False"

lemma clean_path_simps [simp]:
  "\<not> clean_path []" "clean_path (k # p) \<longleftrightarrow> k \<noteq> [] \<and> k \<noteq> ''_value'' \<and> (p = [] \<or> clean_path p)"
  by (auto simp: clean_path_def)

lemma nested_value_update [simp]:
  "k' \<noteq> k \<Longrightarrow> nested_value (AList.update k v m) (k' # p) = nested_value m (k' # p)"
  by (cases p) auto

lemma nested_value_Cons:
  "nested_value node (k # p) =
     (case map_of node k of
        Some (JObj m) \<Rightarrow> if p = [] then map_of m ''_value'' else nested_value m p
      | x \<Rightarrow> if p = [] then x else None)"
  by (cases p) (auto split: option.splits json.splits)

text \<open>The children a node has for the purposes of \<open>insertNested\<close>.\<close>

definition sub_node :: "'f json option \<Rightarrow> (string \<times> 'f json) list" where
  "sub_node x = (case x of None \<Rightarrow> [] | Some (JObj m) \<Rightarrow> m | Some typed \<Rightarrow> [(''_value'', typed)])"

lemma insertNested_step:
  "key \<noteq> [] \<Longrightarrow> p \<noteq> [] \<Longrightarrow>
   insertNested node (key # p) v = AList.update key (JObj (insertNested (sub_node (map_of node key)) p v)) node"
  by (cases p) (simp_all add: sub_node_def Let_def)

lemma insertNested_value_key: "clean_path p \<Longrightarrow> map_of (insertNested node p v) ''_value'' = map_of node ''_value''"
  by (induction node p v rule: insertNested.induct) (auto simp: Let_def split: option.splits json.splits)

lemma nested_value_sub_node:
  "clean_path q \<Longrightarrow> nested_value (sub_node (map_of node k)) q = nested_value node (k # q)"
  by (cases q) (auto simp: nested_value_Cons sub_node_def split: option.splits json.splits)

lemma sub_node_value: "map_of (sub_node (map_of node k)) ''_value'' = nested_value node [k]"
  by (auto simp: sub_node_def split: option.splits json.splits)

lemma nested_value_insert:
  assumes "clean_path p" and "clean_path q" and "\<not> is_obj v"
  shows "nested_value (insertNested node p v) q = (if q = p then Some v else nested_value node q)"
  using assms(1,2)
proof (induction p arbitrary: node q)
  case (Cons key p)
  obtain k q' where q: "q = k # q'" using Cons.prems(2) by (cases q) auto
  show ?case
  proof (cases "p = []")
    case True
    have "nested_value (insertNested node [key] v) (k # q') = (if k # q' = [key] then Some v else nested_value node (k # q'))"
      using Cons.prems q assms(3)
      by (cases "map_of node key"; cases "the (map_of node key)"; cases v; cases q') (auto simp: nested_value_Cons)
    then show ?thesis using True q by simp
  next
    case False
    have step: "insertNested node (key # p) v = AList.update key (JObj (insertNested (sub_node (map_of node key)) p v)) node"
      using Cons.prems(1) False by (intro insertNested_step) auto
    show ?thesis
      using Cons False q step
      by (auto simp: nested_value_Cons insertNested_value_key sub_node_value nested_value_sub_node)
  qed
qed simp

section \<open>The test for arrays\<close>

definition counts_from :: "int \<Rightarrow> string list \<Rightarrow> bool" where
  "counts_from i ks \<longleftrightarrow> map strconv_Atoi ks = map (\<lambda>j. Some (i + int j)) [0..<length ks]"

lemma counts_from_simps [simp]:
  "counts_from i []" "counts_from i (k # ks) \<longleftrightarrow> strconv_Atoi k = Some i \<and> counts_from (i + 1) ks"
  by (simp_all add: counts_from_def upt_conv_Cons map_Suc_upt [symmetric] o_def algebra_simps del: upt_Suc)

lemma check_keys_counts:
  "- 1 \<le> prev \<Longrightarrow> int64_range prev \<Longrightarrow>
   check_keys prev prev ks = (if counts_from (prev + 1) ks then Some (prev + int (length ks)) else None)"
proof (induction ks arbitrary: prev)
  case (Cons k ks)
  show ?case
  proof (cases "strconv_Atoi k")
    case (Some idx)
    have range: "int64_range idx" by (rule strconv_Atoi_range [OF Some])
    show ?thesis
    proof (cases "idx = prev + 1")
      case True
      then show ?thesis using Cons.IH [of idx] Cons.prems Some range by (simp add: wrap64_id)
    next
      case False
      have "prev = 2 ^ 63 - 1 \<or> int64_range (prev + 1)" using Cons.prems by (auto simp: int64_range_def)
      then have "idx < 0 \<or> idx \<noteq> wrap64 (prev + 1)" using False
        by (elim disjE) (auto simp: wrap64_def [of 9223372036854775808])
      with Some False show ?thesis by simp
    qed
  qed simp
qed simp

lemma counts_from_nth:
  assumes "counts_from i ks" and "j < length ks"
  shows "num_of (ks ! j) = i + int j"
proof -
  have "map strconv_Atoi ks ! j = map (\<lambda>j. Some (i + int j)) [0..<length ks] ! j"
    using assms(1) by (simp add: counts_from_def)
  then show ?thesis using assms(2) by (simp add: num_of_def)
qed

text \<open>Writing entries to distinct indices of a slice does not depend on their order.\<close>

lemma foldl_update_notin:
  "j \<notin> set (map f xs) \<Longrightarrow> foldl (\<lambda>arr x. arr[f x := g x]) arr xs ! j = arr ! j"
  by (induction xs arbitrary: arr) auto

lemma length_foldl_update [simp]: "length (foldl (\<lambda>arr x. arr[f x := g x]) arr xs) = length arr"
  by (induction xs arbitrary: arr) auto

lemma foldl_update_nth:
  "x \<in> set xs \<Longrightarrow> distinct (map f xs) \<Longrightarrow> f x < length arr \<Longrightarrow> foldl (\<lambda>arr x. arr[f x := g x]) arr xs ! f x = g x"
  by (induction xs arbitrary: arr) (auto simp: foldl_update_notin)

lemma build_slice_counts:
  assumes "counts_from 0 (map fst ys)" and "mset ys = mset t"
  shows "build_slice (- 1 + int (length ys)) t = map snd ys"
proof -
  let ?f = "\<lambda>kv :: string \<times> 'a json. nat (num_of (fst kv))"
  have idx: "?f (ys ! j) = j" if "j < length ys" for j
    using counts_from_nth [OF assms(1), of j] that by simp
  have "map ?f ys = [0..<length ys]" by (rule nth_equalityI) (simp_all add: idx)
  then have "distinct (map ?f t)"
    using assms(2) by (metis distinct_upt mset_eq_imp_distinct_iff mset_map)
  moreover have "set t = set ys" using assms(2) by (metis mset_eq_setD)
  ultimately have "foldl (\<lambda>arr kv. arr[?f kv := snd kv]) (replicate (length ys) JNull) t ! j = snd (ys ! j)" if "j < length ys" for j
    using foldl_update_nth [of "ys ! j" t ?f "replicate (length ys) JNull" snd] idx that by simp
  then show ?thesis by (intro nth_equalityI) (simp_all add: build_slice_def case_prod_unfold)
qed

lemma normalizeArrays_object:
  assumes "kvs \<noteq> []" and "t = map (\<lambda>(k, c). (k, normalizeArrays order c)) kvs" and "mset (order t) = mset t"
  shows "normalizeArrays order (JObj kvs) =
    (if counts_from 0 (map fst (order t)) then JArr (map snd (order t)) else JObj t)"
proof -
  have t: "t = map (\<lambda>kv. (fst kv, normalizeArrays order (snd kv))) kvs" using assms(2) by (simp add: split_beta)
  have "check_keys (- 1) (- 1) (map fst (order t)) =
      (if counts_from 0 (map fst (order t)) then Some (- 1 + int (length (order t))) else None)"
    using check_keys_counts [of "- 1" "map fst (order t)"] by (simp add: int64_range_def)
  then show ?thesis
    using assms(1,3) build_slice_counts [of "order t" t] by (simp add: t [symmetric] Let_def) (simp add: t)
qed

section \<open>Properties\<close>

text \<open>C23. The nested document of a JSON answer, seen as a map from paths where a node with children keeps its own value
  under \<open>_value\<close>: inserting a value at a path adds it there and changes the value at no other path, in whatever order
  the values are inserted. The path has at least one component, none of its components is empty or \<open>_value\<close>, the other
  paths are of this kind too, and the value is not itself a JSON object. (A variable whose text is a JSON object is
  answered as that object, which then mixes with the variables below it.)\<close>

theorem insertNested_refines_update:
  assumes "clean_path p" and "\<not> is_obj v"
  shows "\<forall>q. clean_path q \<longrightarrow> nested_value (insertNested node p v) q = ((nested_value node)(p := Some v)) q"
  using nested_value_insert [OF assms(1) _ assms(2)] by simp

theorem insertNested_refines_update_witness:
  "nested_value (insertNested [(''a'', JStr ''1'')] [''a'', ''b''] (JStr ''2'')) [''a''] = Some (JStr ''1'' :: int json)"
  using insertNested_refines_update [of "[''a'', ''b'']" "JStr ''2'' :: int json" "[(''a'', JStr ''1'')]"] by simp

text \<open>A map becomes an array exactly when the runtime happens to iterate over its keys in the order
  \<open>0, 1, 2, ...\<close>; the array then has the entries in this order. Otherwise the document stays a map, also when
  its keys are the numbers of an array, so the answer for the same variables differs from run to run.\<close>

theorem normalizeArrays_depends_on_iteration:
  assumes "kvs \<noteq> []" and "t = map (\<lambda>(k, c). (k, normalizeArrays order c)) kvs" and "mset (order t) = mset t"
  shows "normalizeArrays order (JObj kvs) =
    (if map (strconv_Atoi \<circ> fst) (order t) = map (\<lambda>i. Some (int i)) [0..<length kvs]
     then JArr (map snd (order t)) else JObj t)"
proof -
  have "length (order t) = length kvs" using assms(2,3) by (metis length_map size_mset)
  then show ?thesis using normalizeArrays_object [OF assms] by (simp add: counts_from_def)
qed

theorem normalizeArrays_depends_on_iteration_witness:
  "normalizeArrays id (JObj [(''0'', JBool True), (''1'', JBool False)]) = (JArr [JBool True, JBool False] :: int json) \<and>
   normalizeArrays rev (JObj [(''0'', JBool True), (''1'', JBool False)]) = (JObj [(''0'', JBool True), (''1'', JBool False)] :: int json)"
proof -
  have "strconv_Atoi ''0'' = Some 0" "strconv_Atoi ''1'' = Some 1" by code_simp+
  then show ?thesis
    using normalizeArrays_depends_on_iteration [OF _ refl, of "[(''0'', JBool True), (''1'', JBool False)] :: (string \<times> int json) list" id]
      normalizeArrays_depends_on_iteration [OF _ refl, of "[(''0'', JBool True), (''1'', JBool False)] :: (string \<times> int json) list" rev]
    by (simp add: upt_rec)
qed

end
