(* ===== verification/HttpApi.thy ===== *)
theory HttpApi
  imports Controller HttpJson
begin

text \<open>
  The HTTP API (\<open>httpapi.go\<close>): a request on a path reads, writes or deletes the variable the path names,
  and a web socket subscribes to it. A handler maps the request, the state of the API and the database to
  the answer, the new database and the goroutines the controller starts; a handler that panics answers
  \<open>None\<close>. A web socket connection is a number, and its read loop is split into its opening, the
  handling of one message and its end.
\<close>

section \<open>State, requests and answers\<close>

type_synonym ws_conn = nat

record HttpAPI =
  h_ctrl :: "TheController option"
  h_clients :: "(string \<times> ws_conn) list"
  h_connToId :: "(ws_conn \<times> string) list"

definition http_GetApiId :: string where
  "http_GetApiId = ''HTTPAPI''"

definition http_CheckAlive :: "HttpAPI \<Rightarrow> string \<Rightarrow> bool" where
  "http_CheckAlive h clientId \<longleftrightarrow> map_of (h_clients h) clientId \<noteq> None"

text \<open>The headers and query parameters the handlers look at; a missing one is the empty text.\<close>

record http_request =
  rq_method :: string
  rq_path :: string
  rq_connection :: string
  rq_upgrade :: string
  rq_contentType :: string
  q_export :: string
  q_pretty :: string
  q_fullnames :: string
  rq_body :: string

record http_response =
  status :: nat
  contentType :: string
  body :: string

definition http_Error :: "string \<Rightarrow> nat \<Rightarrow> http_response" where
  "http_Error msg code = \<lparr>status = code, contentType = ''text/plain; charset=utf-8'', body = msg @ [CHR 10]\<rparr>"

definition json_answer :: "string \<Rightarrow> http_response" where
  "json_answer s = \<lparr>status = 200, contentType = ''application/json'', body = s\<rparr>"

definition NoContent :: http_response where
  "NoContent = \<lparr>status = 204, contentType = [], body = []\<rparr>"

section \<open>Helpers\<close>

definition trimWildcardBase :: "string \<Rightarrow> string" where
  "trimWildcardBase name =
     (if name = [] then []
      else if strings_HasSuffix name ''*'' then strings_TrimSuffix (strings_TrimSuffix name ''*'') ''.''
      else name)"

fun http_separateKeyAndValue :: "string \<Rightarrow> string \<times> string" where
  "http_separateKeyAndValue [] = ([], [])"
| "http_separateKeyAndValue (x # s) =
     (if x \<in> set '':='' then ([], s) else let (k, w) = http_separateKeyAndValue s in (x # k, w))"

definition http_separateNameAndMetadata :: "string \<Rightarrow> string \<times> string" where
  "http_separateNameAndMetadata original =
     (case strings_IndexByte original CHR ''('' of
        Some p \<Rightarrow>
          (let meta = drop (Suc p) original
           in (take p original, if strings_HasSuffix meta '')'' then take (length meta - 1) meta else meta))
      | None \<Rightarrow> (original, []))"

section \<open>Reading\<close>

definition relative_name :: "bool \<Rightarrow> string \<Rightarrow> string \<Rightarrow> string" where
  "relative_name full base n =
     (if \<not> full \<and> base \<noteq> [] \<and> strings_HasPrefix n (base @ ''.'') then strings_TrimPrefix n (base @ ''.'') else n)"

definition plain_answer :: "bool \<Rightarrow> string \<Rightarrow> (string \<times> DynamicVar) list \<Rightarrow> http_response" where
  "plain_answer full name vals =
     \<lparr>status = 200, contentType = ''text/plain; charset=utf-8'',
      body = strings_Join (map (\<lambda>(n, v). relative_name full (trimWildcardBase name) n @ ''='' @ GetString v) vals) [CHR 10]\<rparr>"

text \<open>The text of a single value, by its inferred type.\<close>

definition single_value :: "'f go_lib \<Rightarrow> DynamicVar \<Rightarrow> string" where
  "single_value lib v =
     (case InferType (strconv_ParseFloat lib) v of
        Kind_Int \<Rightarrow> strconv_Itoa (GetInt64 v)
      | Kind_Float64 \<Rightarrow> strconv_FormatFloat lib (GetFloat64 (strconv_ParseFloat lib) (float_zero lib) v)
      | Kind_Bool \<Rightarrow> (if \<not> GetBool v then ''false'' else ''trye'')
      | Kind_String \<Rightarrow> [CHR 34] @ GetString v @ [CHR 34])"

text \<open>The loop over the found variables: \<open>Inl\<close> when it answers with a single value. \<open>cnt\<close> is their
  number.\<close>

fun build_document ::
    "'f go_lib \<Rightarrow> bool \<Rightarrow> string \<Rightarrow> nat \<Rightarrow> (string \<times> DynamicVar) list \<Rightarrow> (string \<times> 'f json) list \<Rightarrow>
     string + (string \<times> 'f json) list" where
  "build_document lib full base cnt [] doc = Inr doc"
| "build_document lib full base cnt ((fullName, valDV) # vals) doc =
     (if \<not> full \<and> base = fullName \<and> cnt = 1 \<and> strings_LastIndexByte fullName CHR ''.'' \<noteq> None
      then Inl (single_value lib valDV)
      else let fullName' = (if \<not> full \<and> base = fullName then (if cnt = 1 then fullName else ''_value'')
                            else relative_name full base fullName)
           in build_document lib full base cnt vals
                (insertNested doc (strings_Split CHR ''.'' fullName') (parseDynamicVar lib valDV)))"

text \<open>\<open>order\<close> is the order in which the runtime iterates over the maps of the document.\<close>

definition handleGetByName ::
    "'f go_lib \<Rightarrow> ((string \<times> 'f json) list \<Rightarrow> (string \<times> 'f json) list) \<Rightarrow> HttpAPI \<Rightarrow> http_request \<Rightarrow> string \<Rightarrow>
     RamCacheDB \<Rightarrow> http_response option" where
  "handleGetByName lib order h rq name db =
     (let exporter = (if strings_ToLower (q_export rq) = [] then ''json'' else strings_ToLower (q_export rq));
          pretty = (strings_ToLower (q_pretty rq) = ''true'');
          full = (strings_ToLower (q_fullnames rq) = ''true'')
      in case h_ctrl h of
           None \<Rightarrow> None
         | Some c \<Rightarrow> Some
             (case GetVars c name (NewDynamicVar_string []) db of
                Inl err \<Rightarrow> http_Error err 500
              | Inr vals \<Rightarrow>
                  if exporter = ''plain'' then plain_answer full name vals
                  else case build_document lib full (trimWildcardBase name) (length vals) vals [] of
                         Inl text \<Rightarrow> json_answer text
                       | Inr doc \<Rightarrow>
                           (let final = normalizeArrays order (JObj doc)
                            in case if pretty then json_MarshalIndent lib final else json_Marshal lib final of
                                 None \<Rightarrow> http_Error ''encoding error'' 500
                               | Some out \<Rightarrow> json_answer out)))"

section \<open>Writing\<close>

text \<open>What \<open>SetVar\<close> gets for a decoded value.\<close>

fun any_of :: "'f json \<Rightarrow> 'f json goany" where
  "any_of JNull = GNil"
| "any_of (JBool b) = GBool b"
| "any_of (JStr s) = GString s"
| "any_of j = GOther j"

text \<open>A measure of nested objects.\<close>

definition obj_size :: "(string \<times> 'f json) list \<Rightarrow> nat" where
  "obj_size ob = sum_list (map (size \<circ> snd) ob) + length ob"

lemma obj_size_Cons [simp]: "obj_size ((k, v) # ob) = Suc (size v + obj_size ob)"
  by (simp add: obj_size_def)

lemma obj_size_JObj: "obj_size t \<le> size (JObj t)"
  by (induction t) (auto simp: obj_size_def)

text \<open>The outcome of \<open>setJson\<close>: \<open>None\<close> when it panics (on \<open>null\<close>), otherwise the error it returns. The list
  is the map in the order of iteration; \<open>prefix\<close> is the parent's name with its dot.\<close>

definition dotted :: "string \<Rightarrow> string" where
  "dotted parent = (if parent \<noteq> [] then parent @ ''.'' else [])"

function set_loop ::
    "'f go_lib \<Rightarrow> TheController option \<Rightarrow> string \<Rightarrow> (string \<times> 'f json) list \<Rightarrow> RamCacheDB \<Rightarrow>
     string option option \<times> RamCacheDB \<times> task list" where
  "set_loop lib ctl pre [] db = (Some None, db, [])"
| "set_loop lib ctl pre ((key, val) # obj) db =
     (case val of
        JObj t \<Rightarrow>
          (let (ret, db1, ts1) = set_loop lib ctl (dotted (pre @ key)) t db
           in case ret of
                None \<Rightarrow> (None, db1, ts1)
              | Some (Some e) \<Rightarrow>
                  (Some (Some (''error setting var (with json content) '' @ pre @ key @ '': '' @ e)), db1, ts1)
              | Some None \<Rightarrow> (let (ret, db2, ts2) = set_loop lib ctl pre obj db1 in (ret, db2, ts1 @ ts2)))
      | _ \<Rightarrow>
          (case (ctl, NewDynamicVar (json_Marshal lib) (fmt_Sprintf lib) (any_of val)) of
             (Some c, Some dv) \<Rightarrow>
               (let (err, db1, ts1) = SetVar c (pre @ key) dv db
                in case err of
                     Some e \<Rightarrow> (Some (Some (''error setting var '' @ pre @ key @ '': '' @ e)), db1, ts1)
                   | None \<Rightarrow> (let (ret, db2, ts2) = set_loop lib ctl pre obj db1 in (ret, db2, ts1 @ ts2)))
           | _ \<Rightarrow> (None, db, [])))"
  by pat_completeness auto

termination
  by (relation "measure (\<lambda>(_, _, _, ob, _). obj_size ob)") (use obj_size_JObj in \<open>auto simp: less_Suc_eq_le simp del: json.size intro: trans_le_add1\<close>)

definition setJson ::
    "'f go_lib \<Rightarrow> TheController option \<Rightarrow> string \<Rightarrow> (string \<times> 'f json) list \<Rightarrow> RamCacheDB \<Rightarrow>
     string option option \<times> RamCacheDB \<times> task list" where
  "setJson lib ctl parent obj db = set_loop lib ctl (dotted parent) obj db"

text \<open>\<open>handlePostByName\<close> drops the error of \<open>setJson\<close>. A JSON text \<open>null\<close> decodes into a nil map, any other
  text that is not an object is an error.\<close>

definition handlePostByName ::
    "'f go_lib \<Rightarrow> HttpAPI \<Rightarrow> http_request \<Rightarrow> string \<Rightarrow> RamCacheDB \<Rightarrow> http_response option \<times> RamCacheDB \<times> task list" where
  "handlePostByName lib h rq name db =
     (if strings_Contains (rq_contentType rq) ''application/json'' then
        case json_Decode lib (rq_body rq) of
          Some (JObj obj) \<Rightarrow>
            (let (ret, db', ts) = setJson lib (h_ctrl h) [] obj db
             in (map_option (\<lambda>_. NoContent) ret, db', ts))
        | Some JNull \<Rightarrow> (Some NoContent, db, [])
        | _ \<Rightarrow> (Some (http_Error ''invalid json'' 400), db, [])
      else case h_ctrl h of
             None \<Rightarrow> (Some NoContent, db, [])
           | Some c \<Rightarrow>
               (let (err, db', ts) = SetVar c name (NewDynamicVar_string (rq_body rq)) db
                in (Some (case err of Some e \<Rightarrow> http_Error e 403 | None \<Rightarrow> NoContent), db', ts)))"

definition handleDeleteByName ::
    "HttpAPI \<Rightarrow> string \<Rightarrow> RamCacheDB \<Rightarrow> http_response option \<times> RamCacheDB \<times> task list" where
  "handleDeleteByName h name db =
     (case h_ctrl h of
        None \<Rightarrow> (None, db, [])
      | Some c \<Rightarrow>
          (let (err, db', ts) = DelVar c name db
           in (Some (case err of Some e \<Rightarrow> http_Error e 500 | None \<Rightarrow> NoContent), db', ts)))"

section \<open>Routing\<close>

text \<open>\<open>Upgraded\<close>: the request goes to \<open>handleWSForVar\<close> with the variable.\<close>

datatype http_outcome = Answer http_response | Panicked | Upgraded string

definition answer_or_panic :: "http_response option \<Rightarrow> http_outcome" where
  "answer_or_panic r = (case r of None \<Rightarrow> Panicked | Some a \<Rightarrow> Answer a)"

definition path_variable :: "string \<Rightarrow> string" where
  "path_variable p = strings_ReplaceByte (strings_TrimPrefix p ''/'') CHR ''/'' ''.''"

definition handlePath ::
    "'f go_lib \<Rightarrow> ((string \<times> 'f json) list \<Rightarrow> (string \<times> 'f json) list) \<Rightarrow> HttpAPI \<Rightarrow> http_request \<Rightarrow>
     RamCacheDB \<Rightarrow> http_outcome \<times> RamCacheDB \<times> task list" where
  "handlePath lib order h rq db =
     (let varName = path_variable (rq_path rq)
      in if varName = [] then (Answer (http_Error ''variable path required'' 404), db, [])
         else if strings_ToLower (rq_connection rq) = ''upgrade'' \<and> strings_ToLower (rq_upgrade rq) = ''websocket''
         then (Upgraded varName, db, [])
         else if rq_method rq = ''GET'' then (answer_or_panic (handleGetByName lib order h rq varName db), db, [])
         else if rq_method rq = ''POST'' then
           let (r, db', ts) = handlePostByName lib h rq varName db in (answer_or_panic r, db', ts)
         else if rq_method rq = ''DELETE'' then
           let (r, db', ts) = handleDeleteByName h varName db in (answer_or_panic r, db', ts)
         else (Answer \<lparr>status = 405, contentType = [], body = []\<rparr>, db, []))"

section \<open>Web sockets\<close>

text \<open>\<open>NotifyClient\<close>: whether it succeeded, the new state (a connection that cannot be written is forgotten) and
  what is written. \<open>writeOk\<close> tells on which connections writing succeeds.\<close>

definition notification :: "payload \<Rightarrow> 'f json" where
  "notification varsAndValues =
     JArr (map (\<lambda>(n, meta, v). JObj [(''name'', JStr n), (''meta'', JStr meta), (''value'', JStr v)]) varsAndValues)"

definition forget_conn :: "ws_conn \<Rightarrow> HttpAPI \<Rightarrow> HttpAPI" where
  "forget_conn conn h =
     (case map_of (h_connToId h) conn of
        Some cid \<Rightarrow> h\<lparr>h_clients := AList.delete cid (h_clients h), h_connToId := AList.delete conn (h_connToId h)\<rparr>
      | None \<Rightarrow> h)"

definition http_NotifyClient ::
    "'f go_lib \<Rightarrow> (ws_conn \<Rightarrow> bool) \<Rightarrow> HttpAPI \<Rightarrow> string \<Rightarrow> payload \<Rightarrow> bool \<times> HttpAPI \<times> (ws_conn \<times> string) list" where
  "http_NotifyClient lib writeOk h clientId varsAndValues =
     (case map_of (h_clients h) clientId of
        None \<Rightarrow> (False, h, [])
      | Some conn \<Rightarrow>
          (case json_Marshal lib (notification varsAndValues) of
             None \<Rightarrow> (False, h, [])
           | Some msg \<Rightarrow>
               if writeOk conn then (True, h, [(conn, msg)]) else (False, forget_conn conn h, [])))"

text \<open>The API the controller sees. A failed write removes the connection, so \<open>CheckAlive\<close> may answer otherwise after a
  notification than before.\<close>

definition http_api :: "'f go_lib \<Rightarrow> (ws_conn \<Rightarrow> bool) \<Rightarrow> HttpAPI \<Rightarrow> IApi" where
  "http_api lib writeOk h =
     \<lparr>aGetApiId = http_GetApiId, aCheckAlive = http_CheckAlive h,
      aNotifyClient = (\<lambda>cid pl. fst (http_NotifyClient lib writeOk h cid pl)),
      aAliveAfter = (\<lambda>cid pl. http_CheckAlive (fst (snd (http_NotifyClient lib writeOk h cid pl))) cid)\<rparr>"

text \<open>\<open>New\<close>: the API and the controller it is registered with. The listener runs in a goroutine whose error is dropped, so
  \<open>New\<close> succeeds on every port. The APIs refer to the controller; \<open>h_ctrl\<close> is the controller as it was before the
  registration, of which the handlers use only what a registration does not change.\<close>

definition http_New :: "'f go_lib \<Rightarrow> (ws_conn \<Rightarrow> bool) \<Rightarrow> TheController option \<Rightarrow> HttpAPI \<times> TheController option" where
  "http_New lib writeOk c =
     (let h = \<lparr>h_ctrl = c, h_clients = [], h_connToId = []\<rparr> in (h, map_option (ApiStarted (http_api lib writeOk h)) c))"

text \<open>The notifications of an operation of the controller, carried out one after the other.\<close>

fun deliver ::
    "'f go_lib \<Rightarrow> (ws_conn \<Rightarrow> bool) \<Rightarrow> sent \<Rightarrow> HttpAPI \<Rightarrow> HttpAPI \<times> (ws_conn \<times> string) list" where
  "deliver lib writeOk [] h = (h, [])"
| "deliver lib writeOk ((_, cid, pl) # out) h =
     (let (_, h1, w1) = http_NotifyClient lib writeOk h cid pl; (h2, w2) = deliver lib writeOk out h1 in (h2, w1 @ w2))"

text \<open>\<open>handleWSForVar\<close> up to its read loop; the client id is the clock in nanoseconds.\<close>

definition ws_open ::
    "'f go_lib \<Rightarrow> (ws_conn \<Rightarrow> bool) \<Rightarrow> env \<Rightarrow> int \<Rightarrow> ws_conn \<Rightarrow> string \<Rightarrow> HttpAPI \<Rightarrow> RamCacheDB \<Rightarrow>
     string \<times> HttpAPI \<times> RamCacheDB \<times> task list \<times> (ws_conn \<times> string) list" where
  "ws_open lib writeOk e nanos conn varName h db =
     (let cid = strconv_Itoa nanos;
          h1 = h\<lparr>h_clients := AList.update cid conn (h_clients h), h_connToId := AList.update conn cid (h_connToId h)\<rparr>
      in case h_ctrl h1 of
           None \<Rightarrow> (cid, h1, db, [], [])
         | Some c \<Rightarrow>
             (let (_, db1, ts) = ClientConnected e nanos cid (http_api lib writeOk h1) db;
                  (db2, out) = ObserveVar c e varName cid [] (Some (http_api lib writeOk h1)) db1;
                  (h2, w) = deliver lib writeOk out h1
              in (cid, h2, db2, ts, w)))"

datatype ws_frame = TextMessage string | OtherMessage

definition ws_message ::
    "'f go_lib \<Rightarrow> (ws_conn \<Rightarrow> bool) \<Rightarrow> env \<Rightarrow> string \<Rightarrow> ws_frame \<Rightarrow> HttpAPI \<Rightarrow> RamCacheDB \<Rightarrow>
     HttpAPI \<times> RamCacheDB \<times> (ws_conn \<times> string) list" where
  "ws_message lib writeOk e cid frame h db =
     (case frame of
        OtherMessage \<Rightarrow> (h, db, [])
      | TextMessage msg \<Rightarrow>
          (let s = strings_TrimSpace msg;
               (name, meta) = http_separateNameAndMetadata (snd (http_separateKeyAndValue s))
           in if strings_HasPrefix s ''subscribe:'' then
                case h_ctrl h of
                  None \<Rightarrow> (h, db, [])
                | Some c \<Rightarrow>
                    (let (db', out) = ObserveVar c e name cid meta (Some (http_api lib writeOk h)) db;
                         (h', w) = deliver lib writeOk out h
                     in (h', db', w))
              else if strings_HasPrefix s ''unsubscribe:'' then
                case h_ctrl h of
                  None \<Rightarrow> (h, db, [])
                | Some c \<Rightarrow> (h, StopObservingVar c e name cid meta (Some (http_api lib writeOk h)) db, [])
              else (h, db, [])))"

definition ws_close :: "string \<Rightarrow> ws_conn \<Rightarrow> HttpAPI \<Rightarrow> HttpAPI" where
  "ws_close cid conn h = h\<lparr>h_clients := AList.delete cid (h_clients h), h_connToId := AList.delete conn (h_connToId h)\<rparr>"

section \<open>A JSON request as a sequence of writes\<close>

text \<open>The variables a document stands for, and their assignment one after the other up to the first that is
  refused.\<close>

function leaves :: "'f go_lib \<Rightarrow> string \<Rightarrow> (string \<times> 'f json) list \<Rightarrow> (string \<times> DynamicVar option) list" where
  "leaves lib pre [] = []"
| "leaves lib pre ((key, val) # obj) =
     (case val of
        JObj t \<Rightarrow> leaves lib (dotted (pre @ key)) t
      | _ \<Rightarrow> [(pre @ key, NewDynamicVar (json_Marshal lib) (fmt_Sprintf lib) (any_of val))]) @ leaves lib pre obj"
  by pat_completeness auto

termination
  by (relation "measure (\<lambda>(_, _, ob). obj_size ob)") (use obj_size_JObj in \<open>auto simp: less_Suc_eq_le simp del: json.size intro: trans_le_add1\<close>)

fun run_sets :: "TheController \<Rightarrow> (string \<times> DynamicVar option) list \<Rightarrow> RamCacheDB \<Rightarrow> bool \<times> RamCacheDB \<times> task list" where
  "run_sets c [] db = (True, db, [])"
| "run_sets c ((n, v) # rest) db =
     (case v of
        None \<Rightarrow> (False, db, [])
      | Some dv \<Rightarrow>
          (let (err, db1, ts1) = SetVar c n dv db
           in if err = None then let (done, db2, ts2) = run_sets c rest db1 in (done, db2, ts1 @ ts2)
              else (False, db1, ts1)))"

lemma run_sets_append:
  "run_sets c (xs @ ys) db =
     (let (done, db1, ts1) = run_sets c xs db
      in if done then let (done2, db2, ts2) = run_sets c ys db1 in (done2, db2, ts1 @ ts2) else (False, db1, ts1))"
  by (induction c xs db rule: run_sets.induct) (auto simp: Let_def split: option.splits prod.splits)

definition agrees :: "string option option \<times> RamCacheDB \<times> task list \<Rightarrow> bool \<times> RamCacheDB \<times> task list \<Rightarrow> bool" where
  "agrees x y \<longleftrightarrow> snd x = snd y \<and> (fst x = Some None \<longleftrightarrow> fst y)"

lemma set_loop_run_sets: "agrees (set_loop lib (Some c) pre obj db) (run_sets c (leaves lib pre obj) db)"
proof (induction "obj_size obj" arbitrary: pre obj db rule: less_induct)
  case less
  show ?case
  proof (cases obj)
    case (Cons kv rest)
    obtain key val where kv: "kv = (key, val)" by (cases kv)
    have rest: "agrees (set_loop lib (Some c) pre rest d) (run_sets c (leaves lib pre rest) d)" for d
      using less.hyps Cons kv by simp
    show ?thesis
    proof (cases "is_obj val")
      case True
      then obtain t where t: "val = JObj t" by (cases val) auto
      have "agrees (set_loop lib (Some c) (dotted (pre @ key)) t db) (run_sets c (leaves lib (dotted (pre @ key)) t) db)"
        using less.hyps obj_size_JObj [of t] Cons kv t by (simp add: le_imp_less_Suc trans_le_add1 del: json.size)
      with rest show ?thesis
        unfolding Cons kv t by (auto simp: agrees_def run_sets_append Let_def split_beta split: option.splits)
    next
      case False
      with rest show ?thesis
        unfolding Cons kv by (cases val) (auto simp: agrees_def Let_def split_beta split: option.splits)
    qed
  qed (simp add: agrees_def)
qed

lemma set_loop_no_panic:
  "None \<notin> snd ` set (leaves lib pre obj) \<Longrightarrow> fst (set_loop lib (Some c) pre obj db) \<noteq> None"
proof (induction "obj_size obj" arbitrary: pre obj db rule: less_induct)
  case less
  show ?case
  proof (cases obj)
    case (Cons kv rest)
    obtain key val where kv: "kv = (key, val)" by (cases kv)
    have rest: "fst (set_loop lib (Some c) pre rest d) \<noteq> None" for d
      using less Cons kv by (simp add: image_Un)
    show ?thesis
    proof (cases "is_obj val")
      case True
      then obtain t where t: "val = JObj t" by (cases val) auto
      have "fst (set_loop lib (Some c) (dotted (pre @ key)) t db) \<noteq> None"
        using less obj_size_JObj [of t] Cons kv t by (simp add: le_imp_less_Suc trans_le_add1 image_Un del: json.size)
      with rest show ?thesis unfolding Cons kv t by (auto simp: Let_def split_beta split: option.splits)
    next
      case False
      then have "NewDynamicVar (json_Marshal lib) (fmt_Sprintf lib) (any_of val) \<noteq> None"
        using less.prems Cons kv by (cases val) auto
      with rest False show ?thesis unfolding Cons kv by (cases val) (auto simp: Let_def split_beta split: option.splits)
    qed
  qed simp
qed

interpretation http: client_api "http_api lib writeOk h" for lib writeOk h
  by unfold_locales
    (auto simp: http_api_def http_NotifyClient_def http_CheckAlive_def forget_conn_def split: option.splits if_splits)

section \<open>Properties\<close>

text \<open>C22. A JSON request, however deeply its objects are nested, assigns the variables it stands for one after the
  other and stops at the first that the controller refuses. The answer is 204 in either case, and the path of
  the request plays no role. Values that are \<open>null\<close> are excluded, as the handler panics on them.\<close>

theorem post_json_is_sequence_of_sets:
  assumes "h_ctrl h = Some c" and "strings_Contains (rq_contentType rq) ''application/json''"
    and "json_Decode lib (rq_body rq) = Some (JObj obj)" and "None \<notin> snd ` set (leaves lib [] obj)"
  shows "handlePostByName lib h rq name db = (Some NoContent, snd (run_sets c (leaves lib [] obj) db))"
  using assms(1-3) set_loop_run_sets [of lib c "[]" obj db] set_loop_no_panic [of lib "[]" obj c db] assms(4)
  by (auto simp: handlePostByName_def setJson_def agrees_def dotted_def Let_def split_beta prod_eq_iff)

definition demo_lib :: "int go_lib" where
  "demo_lib = \<lparr>json_Unmarshal = (\<lambda>_. None),
     json_Decode = (\<lambda>_. Some (JObj [(''b'', JObj [(''c'', JStr ''1'')]), (''a'', JStr ''5'')])),
     json_Marshal = (\<lambda>_. Some ''{}''), json_MarshalIndent = (\<lambda>_. Some ''{}''), fmt_Sprintf = (\<lambda>_. []),
     strconv_ParseFloat = (\<lambda>_. None), strconv_FormatFloat = (\<lambda>_. []), float_zero = 0\<rparr>"

definition demo_http :: HttpAPI where
  "demo_http = \<lparr>h_ctrl = Some demo_ctl, h_clients = [], h_connToId = []\<rparr>"

definition demo_request :: "string \<Rightarrow> string \<Rightarrow> string \<Rightarrow> http_request" where
  "demo_request method ct txt =
     \<lparr>rq_method = method, rq_path = ''/a'', rq_connection = [], rq_upgrade = [], rq_contentType = ct,
      q_export = ''plain'', q_pretty = [], q_fullnames = [], rq_body = txt\<rparr>"

theorem post_json_is_sequence_of_sets_witness:
  "handlePostByName demo_lib demo_http (demo_request ''POST'' ''application/json'' ''x'') ''ignored'' one_var_db =
     (Some NoContent, snd (run_sets demo_ctl [(''b.c'', Some (NewDynamicVar_string ''1'')), (''a'', Some (NewDynamicVar_string ''5''))] one_var_db))"
proof -
  let ?o = "[(''b'', JObj [(''c'', JStr ''1'')]), (''a'', JStr ''5'')] :: (string \<times> int json) list"
  have l: "leaves demo_lib [] ?o = [(''b.c'', Some (NewDynamicVar_string ''1'')), (''a'', Some (NewDynamicVar_string ''5''))]"
    by (simp add: dotted_def NewDynamicVar_static)
  have "strings_Contains ''application/json'' ''application/json''" by code_simp
  then have "handlePostByName demo_lib demo_http (demo_request ''POST'' ''application/json'' ''x'') ''ignored'' one_var_db =
     (Some NoContent, snd (run_sets demo_ctl (leaves demo_lib [] ?o) one_var_db))"
    by (intro post_json_is_sequence_of_sets, unfold l) (simp_all add: demo_http_def demo_request_def demo_lib_def)
  then show ?thesis unfolding l .
qed

lemma handlePath_methods:
  assumes "name = path_variable (rq_path rq)"
  shows "handlePath lib order h (rq\<lparr>rq_method := ''POST''\<rparr>) db =
      (if name = [] then (Answer (http_Error ''variable path required'' 404), db, [])
       else if strings_ToLower (rq_connection rq) = ''upgrade'' \<and> strings_ToLower (rq_upgrade rq) = ''websocket'' then (Upgraded name, db, [])
       else let (r, db', ts) = handlePostByName lib h (rq\<lparr>rq_method := ''POST''\<rparr>) name db in (answer_or_panic r, db', ts))"
    and "handlePath lib order h (rq\<lparr>rq_method := ''GET''\<rparr>) db =
      (if name = [] then (Answer (http_Error ''variable path required'' 404), db, [])
       else if strings_ToLower (rq_connection rq) = ''upgrade'' \<and> strings_ToLower (rq_upgrade rq) = ''websocket'' then (Upgraded name, db, [])
       else (answer_or_panic (handleGetByName lib order h (rq\<lparr>rq_method := ''GET''\<rparr>) name db), db, []))"
  using assms by (simp_all add: handlePath_def Let_def)

lemma NoContent_not_error [simp]: "http_Error m 404 \<noteq> NoContent" "http_Error m 403 \<noteq> NoContent"
  by (simp_all add: http_Error_def NoContent_def)

lemma trimWildcardBase_id: "CHR ''*'' \<notin> set name \<Longrightarrow> trimWildcardBase name = name"
  by (auto simp: trimWildcardBase_def strings_HasSuffix_def suffix_def)

text \<open>C21. Round trip over HTTP: a value that was accepted by a POST with a raw body on a path is what a GET on that
  path with the plain exporter answers, under the name of the variable. This is for a path whose name is made only of the
  characters the controller keeps, without \<open>*\<close>, for a non-empty body and a content type other than JSON; with other
  characters the POST may be accepted and the GET look under another name.\<close>

theorem post_then_get_over_http:
  assumes "db_wf db" and "h_ctrl h = Some c" and "name = path_variable (rq_path rq)"
    and "set name \<subseteq> set valid_name_chars - {CHR ''*''}" and "rq_body rq \<noteq> []"
    and "\<not> strings_Contains (rq_contentType rq) ''application/json''"
    and "handlePath lib order h (rq\<lparr>rq_method := ''POST''\<rparr>) db = (Answer NoContent, db', ts)"
    and "strings_ToLower (q_export rq) = ''plain''"
  shows "handlePath lib order' h (rq\<lparr>rq_method := ''GET''\<rparr>) db' =
    (Answer \<lparr>status = 200, contentType = ''text/plain; charset=utf-8'', body = name @ ''='' @ rq_body rq\<rparr>, db', [])"
proof -
  note m = handlePath_methods [OF assms(3), of lib]
  have route: "name \<noteq> []" "\<not> (strings_ToLower (rq_connection rq) = ''upgrade'' \<and> strings_ToLower (rq_upgrade rq) = ''websocket'')"
    using assms(7) unfolding m by (auto split: if_splits)
  have set: "SetVar c name (NewDynamicVar_string (rq_body rq)) db = (None, db', ts)"
    using assms(2,6,7) route unfolding m
    by (auto simp: handlePostByName_def answer_or_panic_def Let_def split_beta prod_eq_iff split: option.splits)
  have star: "CHR ''*'' \<notin> set name" and "GetOnly name valid_name_chars = name"
    using assms(4) by (auto intro: GetOnly_id)
  then have "GetVars c name (NewDynamicVar_string []) db' = Inr [(name, NewDynamicVar_string (rq_body rq))]"
    using assms(5) by (intro SetVar_then_GetVars [OF assms(1) set]) simp_all
  moreover have "\<not> prefix (name @ ''.'') name" by (simp add: prefix_def)
  ultimately show ?thesis
    using assms(2,8) route trimWildcardBase_id [OF star] unfolding m
    by (simp add: handleGetByName_def answer_or_panic_def plain_answer_def relative_name_def strings_HasPrefix_def)
qed

theorem post_then_get_over_http_witness:
  "fst (handlePath demo_lib id demo_http (demo_request ''GET'' [] ''5'')
     (fst (snd (handlePath demo_lib id demo_http (demo_request ''POST'' [] ''5'') one_var_db)))) =
   Answer \<lparr>status = 200, contentType = ''text/plain; charset=utf-8'', body = ''a=5''\<rparr>"
proof -
  let ?rq = "demo_request [] [] ''5''"
  obtain db' ts where s: "SetVar demo_ctl ''a'' (NewDynamicVar_string ''5'') one_var_db = (None, db', ts)" using demo_SetVar by blast
  have v: "path_variable (rq_path ?rq) = ''a''" by (simp add: demo_request_def) code_simp
  have rq: "?rq\<lparr>rq_method := m\<rparr> = demo_request m [] ''5''" for m by (simp add: demo_request_def)
  have c: "\<not> strings_Contains [] ''application/json''" "strings_ToLower ''plain'' = ''plain''" "strings_ToLower [] = []" by code_simp+
  have p: "handlePath demo_lib id demo_http (?rq\<lparr>rq_method := ''POST''\<rparr>) one_var_db = (Answer NoContent, db', ts)"
    using v c s by (simp add: handlePath_def handlePostByName_def demo_http_def demo_request_def answer_or_panic_def)
  have "handlePath demo_lib id demo_http (?rq\<lparr>rq_method := ''GET''\<rparr>) db' =
    (Answer \<lparr>status = 200, contentType = ''text/plain; charset=utf-8'', body = ''a'' @ ''='' @ rq_body ?rq\<rparr>, db', [])"
    using c by (intro post_then_get_over_http [OF one_var_db_wf _ v [symmetric] _ _ _ p])
      (simp_all add: demo_http_def demo_request_def valid_name_chars_def)
  with p show ?thesis unfolding rq by (simp add: demo_request_def)
qed

text \<open>A variable that holds \<open>true\<close>, read alone in the JSON form by its dotted name, is answered as
  \<open>trye\<close>.\<close>

theorem true_is_answered_misspelt:
  assumes "db_wf db" and "h_ctrl h = Some c" and "CHR ''*'' \<notin> set name" and "CHR ''.'' \<in> set name"
    and "GetString (GetValue ramStorage (vh_for c name) db) = ''true''"
    and "strings_ToLower (q_export rq) = []" and "strings_ToLower (q_fullnames rq) \<noteq> ''true''"
    and "strconv_ParseFloat lib ''true'' = None"
  shows "handleGetByName lib order h rq name db = Some (json_answer ''trye'')"
proof -
  let ?v = "GetValue ramStorage (vh_for c name) db"
  have v: "data ?v = ''true''" using assms(5) by (simp add: GetString_def)
  have "strconv_Atoi ''true'' = None" "strings_ToLower ''true'' = ''true''" by code_simp+
  then have k: "InferType (strconv_ParseFloat lib) ?v = Kind_Bool" using assms(8) v by (simp add: InferType_def)
  have "strings_Contains ''1trueyesok'' ''true''" by code_simp
  then have b: "GetBool ?v" using v \<open>strings_ToLower ''true'' = ''true''\<close> by (simp add: GetBool_def)
  have "db_peek db (var_path c name) = ''true''" using assms(5) GetValue_peek [OF assms(1)] by simp
  moreover have "name \<noteq> []" using assms(4) by auto
  moreover have "?v = NewDynamicVar_string ''true''" using assms(5) by (simp flip: GetString_inject)
  ultimately have "GetVars c name (NewDynamicVar_string []) db = Inr [(name, ?v)]"
    using GetVars_single [OF assms(1) _ assms(3)] by simp
  then show ?thesis
    using assms(2,4,6,7) k b trimWildcardBase_id [OF assms(3)] by (simp add: handleGetByName_def Let_def single_value_def)
qed

theorem true_is_answered_misspelt_witness:
  "handleGetByName demo_lib id demo_http ((demo_request ''GET'' [] [])\<lparr>q_export := []\<rparr>) ''a.b''
     (SetValue ramStorage (vh_for demo_ctl ''a.b'') (NewDynamicVar_string ''true'') one_var_db) = Some (json_answer ''trye'')"
proof -
  let ?db = "SetValue ramStorage (vh_for demo_ctl ''a.b'') (NewDynamicVar_string ''true'') one_var_db"
  have wf: "db_wf ?db" by (rule SetValue_wf [OF one_var_db_wf])
  have v: "GetString (GetValue ramStorage (vh_for demo_ctl ''a.b'') ?db) = ''true''"
    using SetValue_peek [OF one_var_db_wf, of demo_ctl "''a.b''" "NewDynamicVar_string ''true''"] GetValue_peek [OF wf]
    by (simp add: star_vh_name)
  have "strings_ToLower [] = []" by code_simp
  then show ?thesis
    by (intro true_is_answered_misspelt [OF wf _ _ _ v]) (simp_all add: demo_http_def demo_request_def demo_lib_def)
qed

end
