(* ===== verification/Confs.thy ===== *)
theory Confs
  imports Misc "HOL-Library.AList"
begin

text \<open>
  Configuration (\<open>confs.go\<close> and \<open>confs/sources\<close>): items that take their value from the first source that knows
  one of their names, else from their default. A Go map is an association list whose order is the order of
  iteration. The environment and the text of the configuration file are parameters.
\<close>

section \<open>Items\<close>

text \<open>A validation function sees the item it belongs to, so the item is split into its data and the function.\<close>

record conf_data =
  PossibleNames :: "string list"
  DefaultValue :: DynamicVar
  theValue :: DynamicVar
  ci_Name :: string
  ValueMap :: "(string \<times> DynamicVar) list"
  UsedNameInSource :: string
  SourceInfo :: string

record ConfItem = conf_data +
  ValidateFunc :: "conf_data \<Rightarrow> string option"

definition conf_data_of :: "ConfItem \<Rightarrow> conf_data" where
  "conf_data_of c = conf_data.truncate c"

definition ConfName :: "'a conf_data_scheme \<Rightarrow> string" where
  "ConfName c = ci_Name c"

definition NotMappedValue :: "'a conf_data_scheme \<Rightarrow> DynamicVar" where
  "NotMappedValue c = theValue c"

definition Value :: "'a conf_data_scheme \<Rightarrow> DynamicVar" where
  "Value c = (case map_of (ValueMap c) (strings_ToLower (GetString (theValue c))) of Some v \<Rightarrow> v | None \<Rightarrow> theValue c)"

definition SetPossibleNames :: "string list \<Rightarrow> ConfItem \<Rightarrow> ConfItem" where
  "SetPossibleNames names c = c\<lparr>PossibleNames := names\<rparr>"

definition SetDefaultValue :: "DynamicVar \<Rightarrow> ConfItem \<Rightarrow> ConfItem" where
  "SetDefaultValue v c = c\<lparr>DefaultValue := v\<rparr>"

definition AddValueMap :: "(DynamicVar \<times> DynamicVar) list \<Rightarrow> ConfItem \<Rightarrow> ConfItem" where
  "AddValueMap m c =
     c\<lparr>ValueMap := foldl (\<lambda>vm (k, v). AList.update (strings_ToLower (GetString k)) v vm) (ValueMap c) m\<rparr>"

definition SetValidation :: "(conf_data \<Rightarrow> string option) \<Rightarrow> ConfItem \<Rightarrow> ConfItem" where
  "SetValidation f c = c\<lparr>ValidateFunc := f\<rparr>"

text \<open>\<open>ValidateThisValue\<close> does not look at the value it is given.\<close>

definition ValidateThisValue :: "ConfItem \<Rightarrow> DynamicVar \<Rightarrow> string option" where
  "ValidateThisValue c v = ValidateFunc c (conf_data_of c)"

definition ChangeCurrentValue :: "ConfItem \<Rightarrow> DynamicVar \<Rightarrow> bool \<Rightarrow> string option \<times> ConfItem" where
  "ChangeCurrentValue c v validate =
     (case (if validate then ValidateThisValue c v else None) of
        Some err \<Rightarrow> (Some err, c)
      | None \<Rightarrow> (None, c\<lparr>theValue := v\<rparr>))"

definition ValidateCurrentValue :: "ConfItem \<Rightarrow> string option" where
  "ValidateCurrentValue c = ValidateThisValue c (theValue c)"

definition GetUsedNameAnsSourceInfo :: "ConfItem \<Rightarrow> string \<times> string" where
  "GetUsedNameAnsSourceInfo c = (UsedNameInSource c, SourceInfo c)"

definition NewConfItem :: "string \<Rightarrow> (ConfItem \<Rightarrow> ConfItem) list \<Rightarrow> ConfItem" where
  "NewConfItem name options =
     foldl (\<lambda>c opt. opt c)
       \<lparr>PossibleNames = [], DefaultValue = NewEmptyDynamicVar, theValue = NewEmptyDynamicVar, ci_Name = name, ValueMap = [],
        UsedNameInSource = name @ '' (default value, no source)'', SourceInfo = ''No source'', ValidateFunc = (\<lambda>_. None)\<rparr>
       options"

text \<open>The options of \<open>CreateConfig\<close>.\<close>

definition WithPossibleNames :: "string list \<Rightarrow> ConfItem \<Rightarrow> ConfItem" where
  "WithPossibleNames names c = SetPossibleNames names c"

definition WithDefaultValue :: "DynamicVar \<Rightarrow> ConfItem \<Rightarrow> ConfItem" where
  "WithDefaultValue v c = SetDefaultValue v c"

definition WithValueMap :: "(DynamicVar \<times> DynamicVar) list \<Rightarrow> ConfItem \<Rightarrow> ConfItem" where
  "WithValueMap m c = AddValueMap m c"

definition WithValidationFunc :: "(conf_data \<Rightarrow> string option) \<Rightarrow> ConfItem \<Rightarrow> ConfItem" where
  "WithValidationFunc f c = SetValidation f c"

section \<open>The configuration\<close>

text \<open>\<open>Find\<close> of a source gives the value and the name it was found under.\<close>

record IConfsSource =
  Find :: "string list \<Rightarrow> (DynamicVar \<times> string) option"
  GetSourceInfo :: string

record Confs =
  items :: "(string \<times> ConfItem) list"
  conf_sources :: "IConfsSource list"
  placeHolders :: "(string \<times> string) list"

definition NewConfs :: "IConfsSource list \<Rightarrow> Confs" where
  "NewConfs srcs = \<lparr>items = [], conf_sources = srcs, placeHolders = []\<rparr>"

definition AddNewSource :: "IConfsSource \<Rightarrow> Confs \<Rightarrow> Confs" where
  "AddNewSource src c = c\<lparr>conf_sources := conf_sources c @ [src]\<rparr>"

definition AddPlaceHolders :: "(string \<times> string) list \<Rightarrow> Confs \<Rightarrow> Confs" where
  "AddPlaceHolders phs c = c\<lparr>placeHolders := foldl (\<lambda>m (n, v). AList.update n v m) (placeHolders c) phs\<rparr>"

definition applyPlaceHolders :: "Confs \<Rightarrow> string \<Rightarrow> string" where
  "applyPlaceHolders c v = foldl (\<lambda>s (phName, phValue). strings_ReplaceAll s phName phValue) v (placeHolders c)"

text \<open>The loop over the sources.\<close>

fun first_found :: "IConfsSource list \<Rightarrow> string list \<Rightarrow> (DynamicVar \<times> string \<times> string) option" where
  "first_found [] names = None"
| "first_found (src # srcs) names =
     (case Find src names of
        Some (v, foundName) \<Rightarrow> Some (v, foundName, GetSourceInfo src)
      | None \<Rightarrow> first_found srcs names)"

definition resolve :: "Confs \<Rightarrow> DynamicVar \<Rightarrow> DynamicVar" where
  "resolve c v = NewDynamicVar_string (applyPlaceHolders c (GetString v))"

definition CreateConfig ::
    "string \<Rightarrow> (ConfItem \<Rightarrow> ConfItem) list \<Rightarrow> Confs \<Rightarrow> (ConfItem \<times> string option) \<times> Confs" where
  "CreateConfig name options c =
     (case map_of (items c) name of
        Some item \<Rightarrow> ((item, None), c)
      | None \<Rightarrow>
          (let newItem = NewConfItem name options;
               i1 = (case first_found (conf_sources c) (PossibleNames newItem) of
                       Some (v, foundName, info) \<Rightarrow>
                         newItem\<lparr>theValue := resolve c v, UsedNameInSource := foundName, SourceInfo := info\<rparr>
                     | None \<Rightarrow> newItem\<lparr>theValue := resolve c (DefaultValue newItem)\<rparr>);
               validationError = ValidateThisValue i1 (theValue i1);
               i2 = (if validationError \<noteq> None then i1\<lparr>theValue := resolve c (DefaultValue i1)\<rparr> else i1)
           in ((i2, validationError), c\<lparr>items := AList.update name i2 (items c)\<rparr>)))"

definition GetConfig :: "string \<Rightarrow> (ConfItem \<Rightarrow> ConfItem) list \<Rightarrow> Confs \<Rightarrow> ConfItem \<times> Confs" where
  "GetConfig name options c = (let ((item, _), c') = CreateConfig name options c in (item, c'))"

definition FindConfByParamName :: "Confs \<Rightarrow> string \<Rightarrow> ConfItem option" where
  "FindConfByParamName c paramName = map_option snd (find (\<lambda>(_, item). paramName \<in> set (PossibleNames item)) (items c))"

definition AllConfigs :: "Confs \<Rightarrow> (string \<times> ConfItem) list" where
  "AllConfigs c = items c"

definition AllPlaceHolders :: "Confs \<Rightarrow> (string \<times> string) list" where
  "AllPlaceHolders c = placeHolders c"

section \<open>Sources\<close>

text \<open>A key-value argument or line, cut at the first separator.\<close>

definition cut_at :: "char \<Rightarrow> string \<Rightarrow> (string \<times> string) option" where
  "cut_at sep s = map_option (\<lambda>i. (take i s, drop (Suc i) s)) (strings_IndexByte s sep)"

text \<open>The command line: an argument without separator takes the next argument as its value.\<close>

fun parse_args :: "string list \<Rightarrow> (string \<times> string) list \<Rightarrow> (string \<times> string) list" where
  "parse_args [] kv = kv"
| "parse_args (a # rest) kv =
     parse_args rest
       (case cut_at CHR ''='' a of
          Some (k, v) \<Rightarrow> AList.update k v kv
        | None \<Rightarrow>
            (case cut_at CHR '':'' a of
               Some (k, v) \<Rightarrow> AList.update k v kv
             | None \<Rightarrow> (case rest of [] \<Rightarrow> kv | nxt # _ \<Rightarrow> AList.update a nxt kv)))"

text \<open>The lookup of the command line and of the file, with dots replaced by underscores as a second form.\<close>

fun find_in :: "(string \<Rightarrow> string option) \<Rightarrow> (string \<Rightarrow> string) \<Rightarrow> string list \<Rightarrow> (DynamicVar \<times> string) option" where
  "find_in get alt [] = None"
| "find_in get alt (n # ns) =
     (case get n of
        Some v \<Rightarrow> Some (NewDynamicVar_string v, n)
      | None \<Rightarrow>
          (case get (alt n) of
             Some v \<Rightarrow> Some (NewDynamicVar_string v, alt n)
           | None \<Rightarrow> find_in get alt ns))"

definition underscored :: "string \<Rightarrow> string" where
  "underscored n = strings_ReplaceByte n CHR ''.'' ''_''"

definition NewCommandLineSource :: "string list \<Rightarrow> IConfsSource" where
  "NewCommandLineSource args =
     \<lparr>Find = find_in (map_of (parse_args args [])) underscored, GetSourceInfo = ''Command Line Arguments''\<rparr>"

definition NewEnvSource :: "(string \<Rightarrow> string) \<Rightarrow> IConfsSource" where
  "NewEnvSource getenv =
     \<lparr>Find = find_in (\<lambda>n. if getenv n \<noteq> [] then Some (getenv n) else None) (strings_ToUpper \<circ> underscored),
      GetSourceInfo = ''Environment Variables''\<rparr>"

text \<open>The file: \<open>bufio.Scanner\<close> stops at a line of 64 KiB or more.\<close>

definition parse_conf_line :: "string \<Rightarrow> (string \<times> string) list \<Rightarrow> (string \<times> string) list" where
  "parse_conf_line l kv =
     (let line = strings_TrimSpace l
      in if line = [] \<or> strings_HasPrefix line ''#'' then kv
         else case cut_at CHR ''='' line of
                None \<Rightarrow> kv
              | Some (k, v) \<Rightarrow> AList.update (strings_TrimSpace k) (strings_TrimSpace v) kv)"

definition file_kv :: "string option \<Rightarrow> (string \<times> string) list" where
  "file_kv contents =
     (case contents of
        None \<Rightarrow> []
      | Some text \<Rightarrow> fold parse_conf_line (takeWhile (\<lambda>l. length l < 65536) (strings_Split (CHR 10) text)) [])"

definition NewFileSource :: "string option \<Rightarrow> IConfsSource" where
  "NewFileSource contents =
     \<lparr>Find = find_in (map_of (file_kv contents)) underscored,
      GetSourceInfo = ''Configuration File ('' @ (case map_of (file_kv contents) ''file'' of Some v \<Rightarrow> v | None \<Rightarrow> []) @ '')''\<rparr>"

section \<open>What an item gets\<close>

lemma conf_data_of_simps [simp]:
  "theValue (conf_data_of c) = theValue c" "ValueMap (conf_data_of c) = ValueMap c"
  "DefaultValue (conf_data_of c) = DefaultValue c"
  by (simp_all add: conf_data_of_def conf_data.defs)

text \<open>The value an item gets before it is validated.\<close>

definition wanted :: "Confs \<Rightarrow> ConfItem \<Rightarrow> DynamicVar" where
  "wanted c i = resolve c (case first_found (conf_sources c) (PossibleNames i) of Some (v, _) \<Rightarrow> v | None \<Rightarrow> DefaultValue i)"

lemma CreateConfig_new:
  assumes "map_of (items c) name = None"
  shows "\<exists>i used info. i = (NewConfItem name opts)\<lparr>theValue := wanted c (NewConfItem name opts), UsedNameInSource := used, SourceInfo := info\<rparr> \<and>
    CreateConfig name opts c =
      (let err = ValidateFunc i (conf_data_of i);
           j = (if err = None then i else i\<lparr>theValue := resolve c (DefaultValue i)\<rparr>)
       in ((j, err), c\<lparr>items := AList.update name j (items c)\<rparr>))"
proof (cases "first_found (conf_sources c) (PossibleNames (NewConfItem name opts))")
  case None
  let ?n = "NewConfItem name opts"
  show ?thesis
    using assms None
    by (intro exI [of _ "?n\<lparr>theValue := wanted c ?n\<rparr>"] exI [of _ "UsedNameInSource ?n"] exI [of _ "SourceInfo ?n"])
      (auto simp: CreateConfig_def ValidateThisValue_def wanted_def Let_def)
next
  case (Some x)
  obtain v used info where x: "x = (v, used, info)" by (cases x)
  show ?thesis
    using assms Some x
    by (intro exI [of _ "(NewConfItem name opts)\<lparr>theValue := resolve c v, UsedNameInSource := used, SourceInfo := info\<rparr>"] exI [of _ used] exI [of _ info])
      (auto simp: CreateConfig_def ValidateThisValue_def wanted_def Let_def)
qed

lemma CreateConfig_fields:
  assumes "map_of (items c) name = None" and "CreateConfig name opts c = ((j, err), c')"
  shows "theValue j = (if err = None then wanted c (NewConfItem name opts) else resolve c (DefaultValue (NewConfItem name opts)))"
    and "ValueMap j = ValueMap (NewConfItem name opts)" and "PossibleNames j = PossibleNames (NewConfItem name opts)"
    and "err = None \<Longrightarrow> ValidateFunc (NewConfItem name opts) (conf_data_of j) = None"
    and "ValidateFunc (NewConfItem name opts) = (\<lambda>_. None) \<Longrightarrow> err = None"
proof -
  obtain i used info where i: "i = (NewConfItem name opts)\<lparr>theValue := wanted c (NewConfItem name opts), UsedNameInSource := used, SourceInfo := info\<rparr>"
    and e: "CreateConfig name opts c = (let err = ValidateFunc i (conf_data_of i); j = (if err = None then i else i\<lparr>theValue := resolve c (DefaultValue i)\<rparr>)
       in ((j, err), c\<lparr>items := AList.update name j (items c)\<rparr>))"
    using CreateConfig_new [OF assms(1)] by blast
  have f: "theValue i = wanted c (NewConfItem name opts)" "ValueMap i = ValueMap (NewConfItem name opts)"
    "PossibleNames i = PossibleNames (NewConfItem name opts)" "ValidateFunc i = ValidateFunc (NewConfItem name opts)"
    "DefaultValue i = DefaultValue (NewConfItem name opts)"
    unfolding i by simp_all
  have je: "err = ValidateFunc i (conf_data_of i)" "j = (if err = None then i else i\<lparr>theValue := resolve c (DefaultValue i)\<rparr>)"
    using e assms(2) by (simp_all add: Let_def)
  show "theValue j = (if err = None then wanted c (NewConfItem name opts) else resolve c (DefaultValue (NewConfItem name opts)))"
    "ValueMap j = ValueMap (NewConfItem name opts)" "PossibleNames j = PossibleNames (NewConfItem name opts)"
    "err = None \<Longrightarrow> ValidateFunc (NewConfItem name opts) (conf_data_of j) = None"
    "ValidateFunc (NewConfItem name opts) = (\<lambda>_. None) \<Longrightarrow> err = None"
    using je f by simp_all
qed

lemma CreateConfig_frame:
  "conf_sources (snd (CreateConfig n opts c)) = conf_sources c \<and> placeHolders (snd (CreateConfig n opts c)) = placeHolders c"
  by (auto simp: CreateConfig_def Let_def split: option.splits)

lemma CreateConfig_items:
  "map_of (items (snd (CreateConfig n opts c))) m =
     (if m = n then Some (fst (fst (CreateConfig n opts c))) else map_of (items c) m)"
  by (auto simp: CreateConfig_def Let_def split: option.splits)

lemma first_found_append:
  "\<forall>s \<in> set pre. Find s names = None \<Longrightarrow> first_found (pre @ post) names = first_found post names"
  by (induction pre) auto

section \<open>Properties\<close>



text \<open>\<open>ChangeCurrentValue\<close> with validation tests the value the item has, not the new one: while the current
  value is valid every value is accepted, and while it is not every value is refused.\<close>

theorem ChangeCurrentValue_validates_old_value:
  "ChangeCurrentValue c v True =
     (case ValidateCurrentValue c of None \<Rightarrow> (None, c\<lparr>theValue := v\<rparr>) | Some err \<Rightarrow> (Some err, c))"
  by (simp add: ChangeCurrentValue_def ValidateCurrentValue_def ValidateThisValue_def split: option.splits)

end
