(* ===== verification/Logger.thy ===== *)
theory Logger
  imports Misc "HOL-Library.Signed_Division"
begin

text \<open>
  Logging (\<open>logger.go\<close>, \<open>ilogger.go\<close>, \<open>loggerutils/common.go\<close> and the writers): composing a message, named loggers, the
  texts of values, the beginning of a line, indentation, the console, file, command and lambda writers, and the
  channel from which a goroutine hands the messages to them. A time stamp is a parameter (its formatted text), as
  are the outcomes of the file operations.
\<close>

section \<open>Levels and lines\<close>

definition LevelToString :: "int \<Rightarrow> string \<Rightarrow> string" where
  "LevelToString level defaultName =
     (if level = 9 then ''TRACE'' else if level = 10 then ''DEBUG2'' else if level = 20 then ''DEBUG''
      else if level = 30 then ''INFO2'' else if level = 40 then ''INFO'' else if level = 50 then ''WARNING''
      else if level = 60 then ''ERROR'' else if level = 70 then ''CRITICAL'' else defaultName)"

definition Ident :: "string \<Rightarrow> string \<Rightarrow> string" where
  "Ident source pre =
     (let ret = strings_ReplaceByte source (CHR 10) (CHR 10 # pre)
      in if strings_HasSuffix source [CHR 10] then take (length ret - length pre) ret else ret)"

definition EscapeString :: "string \<Rightarrow> string" where
  "EscapeString s0 =
     (let s1 = strings_ReplaceByte s0 (CHR 92) [CHR 92, CHR 92];
          s2 = strings_ReplaceByte s1 (CHR 34) [CHR 92, CHR 34];
          s3 = strings_ReplaceByte s2 (CHR 10) [CHR 92, CHR ''n''];
          s4 = strings_ReplaceByte s3 (CHR 13) [CHR 92, CHR ''r'']
      in strings_ReplaceByte s4 (CHR 9) [CHR 92, CHR ''t''])"

text \<open>\<open>Sprintf\<close> with \<open>%+03d%02d\<close>: the sign counts for the width. The division truncates towards zero.\<close>

definition pad0 :: "nat \<Rightarrow> string \<Rightarrow> string" where
  "pad0 n ds = replicate (n - length ds) CHR ''0'' @ ds"

definition tz_text :: "int \<Rightarrow> string" where
  "tz_text off =
     (let hours = off sdiv 3600; minutes = (off smod 3600) sdiv 60
      in (if hours < 0 then ''-'' else ''+'') @ pad0 2 (strconv_Itoa \<bar>hours\<bar>) @
         (if minutes < 0 then ''-'' @ pad0 1 (strconv_Itoa \<bar>minutes\<bar>) else pad0 2 (strconv_Itoa minutes)))"

text \<open>\<open>stamp\<close> is the formatted time, with milliseconds or without.\<close>

definition GenerateLineBeginning :: "string \<Rightarrow> string \<Rightarrow> bool \<Rightarrow> (bool \<Rightarrow> string) \<Rightarrow> int \<Rightarrow> bool \<Rightarrow> string" where
  "GenerateLineBeginning levelStr name includeDateTime stamp timezoneoffset includeMillis =
     (if includeDateTime then ''['' @ stamp includeMillis @ tz_text timezoneoffset @ ''] '' else []) @
     ''['' @ levelStr @ ''] '' @ (if name \<noteq> [] then ''['' @ name @ ''] '' else [])"

section \<open>The logger\<close>

record message =
  msg_text :: string
  msg_level :: int
  msg_name :: string
  msg_tz :: int

text \<open>\<open>'w\<close> is the type of the writers.\<close>

record 'w Logger =
  writers :: "'w list"
  buffer :: "message list"
  keepNextLineOpened :: bool
  useCustomTimezone :: bool
  customTimeZoneOffsetSeconds :: int

definition NewLogger :: "'w list \<Rightarrow> bool \<Rightarrow> int \<Rightarrow> 'w Logger" where
  "NewLogger ws custom off =
     \<lparr>writers = ws, buffer = [], keepNextLineOpened = False, useCustomTimezone = custom, customTimeZoneOffsetSeconds = off\<rparr>"

definition KeepNextLineOpened :: "'w Logger \<Rightarrow> 'w Logger" where
  "KeepNextLineOpened l = l\<lparr>keepNextLineOpened := True\<rparr>"

text \<open>\<open>Log\<close> with the texts of the values and the offset of the local time zone. It reads \<open>keepNextLineOpened\<close>, sends the
  message into the channel and resets the flag, without a lock around the three. \<open>Log\<close> is a call that no other
  goroutine interrupts; \<open>logger_run\<close> below has the message, made with the flag \<open>opened\<close> that was read, and the reset as
  steps of their own.\<close>

definition log_message :: "bool \<Rightarrow> int \<Rightarrow> string \<Rightarrow> string list \<Rightarrow> int \<Rightarrow> 'w Logger \<Rightarrow> message" where
  "log_message opened level name msgs zone l =
     (let tz = (if useCustomTimezone l then customTimeZoneOffsetSeconds l - zone else zone);
          msg = strings_Join msgs '' '';
          msg' = (if \<not> opened \<and> \<not> strings_HasSuffix msg [CHR 10] then msg @ [CHR 10] else msg)
      in \<lparr>msg_text = msg', msg_level = level, msg_name = name, msg_tz = tz\<rparr>)"

definition log_send :: "message \<Rightarrow> 'w Logger \<Rightarrow> 'w Logger" where
  "log_send m l = l\<lparr>buffer := buffer l @ [m]\<rparr>"

definition log_reset :: "'w Logger \<Rightarrow> 'w Logger" where
  "log_reset l = l\<lparr>keepNextLineOpened := False\<rparr>"

definition Log :: "int \<Rightarrow> string \<Rightarrow> string list \<Rightarrow> int \<Rightarrow> 'w Logger \<Rightarrow> 'w Logger" where
  "Log level name msgs zone l = log_reset (log_send (log_message (keepNextLineOpened l) level name msgs zone l) l)"

lemmas log_defs = Log_def log_message_def log_send_def log_reset_def

text \<open>The methods for the levels, and the named logger that forwards to a main logger.\<close>

definition Trace :: "string \<Rightarrow> string list \<Rightarrow> int \<Rightarrow> 'w Logger \<Rightarrow> 'w Logger" where
  "Trace name msgs zone l = Log 9 name msgs zone l"

definition Debug2 :: "string \<Rightarrow> string list \<Rightarrow> int \<Rightarrow> 'w Logger \<Rightarrow> 'w Logger" where
  "Debug2 name msgs zone l = Log 10 name msgs zone l"

definition Debug :: "string \<Rightarrow> string list \<Rightarrow> int \<Rightarrow> 'w Logger \<Rightarrow> 'w Logger" where
  "Debug name msgs zone l = Log 20 name msgs zone l"

definition Info2 :: "string \<Rightarrow> string list \<Rightarrow> int \<Rightarrow> 'w Logger \<Rightarrow> 'w Logger" where
  "Info2 name msgs zone l = Log 30 name msgs zone l"

definition Info :: "string \<Rightarrow> string list \<Rightarrow> int \<Rightarrow> 'w Logger \<Rightarrow> 'w Logger" where
  "Info name msgs zone l = Log 40 name msgs zone l"

definition Warning :: "string \<Rightarrow> string list \<Rightarrow> int \<Rightarrow> 'w Logger \<Rightarrow> 'w Logger" where
  "Warning name msgs zone l = Log 50 name msgs zone l"

definition Error :: "string \<Rightarrow> string list \<Rightarrow> int \<Rightarrow> 'w Logger \<Rightarrow> 'w Logger" where
  "Error name msgs zone l = Log 60 name msgs zone l"

definition Critical :: "string \<Rightarrow> string list \<Rightarrow> int \<Rightarrow> 'w Logger \<Rightarrow> 'w Logger" where
  "Critical name msgs zone l = Log 70 name msgs zone l"

lemmas level_defs = Trace_def Debug2_def Debug_def Info2_def Info_def Warning_def Error_def Critical_def

definition LogDefault :: "int \<Rightarrow> string \<Rightarrow> int \<Rightarrow> 'w Logger \<Rightarrow> 'w Logger" where
  "LogDefault level msg zone l = Log level [] [msg] zone l"

definition TraceDefault :: "string \<Rightarrow> int \<Rightarrow> 'w Logger \<Rightarrow> 'w Logger" where
  "TraceDefault msg zone l = Trace [] [msg] zone l"

text \<open>A named logger holds a reference to its main logger, a number; the logger with this number is the argument \<open>l\<close> of
  the methods. The process has one logger, with the number 0.\<close>

record NLogger =
  nl_name :: string
  nl_mainLogger :: nat

definition NewNLogger :: "string \<Rightarrow> nat \<Rightarrow> NLogger" where
  "NewNLogger name main_ref = \<lparr>nl_name = name, nl_mainLogger = main_ref\<rparr>"

definition GetNamedLogger :: "nat \<Rightarrow> string \<Rightarrow> NLogger" where
  "GetNamedLogger self name = NewNLogger name self"

definition GetNLog :: "nat \<Rightarrow> string \<Rightarrow> NLogger" where
  "GetNLog self name = NewNLogger name self"

definition nl_SetName :: "string \<Rightarrow> NLogger \<Rightarrow> NLogger" where
  "nl_SetName name n = n\<lparr>nl_name := name\<rparr>"

definition nl_SetMainLogger :: "nat \<Rightarrow> NLogger \<Rightarrow> NLogger" where
  "nl_SetMainLogger l n = n\<lparr>nl_mainLogger := l\<rparr>"

definition nl_Log :: "NLogger \<Rightarrow> int \<Rightarrow> string list \<Rightarrow> int \<Rightarrow> 'w Logger \<Rightarrow> 'w Logger" where
  "nl_Log n level msgs zone l = Log level (nl_name n) msgs zone l"

definition nl_Trace :: "NLogger \<Rightarrow> string list \<Rightarrow> int \<Rightarrow> 'w Logger \<Rightarrow> 'w Logger" where
  "nl_Trace n msgs zone l = Trace (nl_name n) msgs zone l"

definition nl_Debug2 :: "NLogger \<Rightarrow> string list \<Rightarrow> int \<Rightarrow> 'w Logger \<Rightarrow> 'w Logger" where
  "nl_Debug2 n msgs zone l = Debug2 (nl_name n) msgs zone l"

definition nl_Debug :: "NLogger \<Rightarrow> string list \<Rightarrow> int \<Rightarrow> 'w Logger \<Rightarrow> 'w Logger" where
  "nl_Debug n msgs zone l = Debug (nl_name n) msgs zone l"

definition nl_Info2 :: "NLogger \<Rightarrow> string list \<Rightarrow> int \<Rightarrow> 'w Logger \<Rightarrow> 'w Logger" where
  "nl_Info2 n msgs zone l = Info2 (nl_name n) msgs zone l"

definition nl_Info :: "NLogger \<Rightarrow> string list \<Rightarrow> int \<Rightarrow> 'w Logger \<Rightarrow> 'w Logger" where
  "nl_Info n msgs zone l = Info (nl_name n) msgs zone l"

definition nl_Warning :: "NLogger \<Rightarrow> string list \<Rightarrow> int \<Rightarrow> 'w Logger \<Rightarrow> 'w Logger" where
  "nl_Warning n msgs zone l = Warning (nl_name n) msgs zone l"

definition nl_Error :: "NLogger \<Rightarrow> string list \<Rightarrow> int \<Rightarrow> 'w Logger \<Rightarrow> 'w Logger" where
  "nl_Error n msgs zone l = Error (nl_name n) msgs zone l"

definition nl_Critical :: "NLogger \<Rightarrow> string list \<Rightarrow> int \<Rightarrow> 'w Logger \<Rightarrow> 'w Logger" where
  "nl_Critical n msgs zone l = Critical (nl_name n) msgs zone l"

lemmas nl_defs = nl_Log_def nl_Trace_def nl_Debug2_def nl_Debug_def nl_Info2_def nl_Info_def nl_Warning_def nl_Error_def nl_Critical_def level_defs

definition nl_KeepNextLineOpened :: "NLogger \<Rightarrow> 'w Logger \<Rightarrow> 'w Logger" where
  "nl_KeepNextLineOpened n l = KeepNextLineOpened l"

section \<open>The texts of logged values\<close>

text \<open>A logged value: nil, a text, a function with the value it returns (\<open>None\<close>: a function without result), or another
  value, whose conversions are the results of \<open>json.Marshal\<close>, \<open>json.MarshalIndent\<close> and \<open>Sprintf\<close>. A nil value and a
  function without result make the code panic.\<close>

datatype 'o log_value = LNil | LString string | LFunc "'o log_value option" | LOther 'o

fun AnyToString :: "('o \<Rightarrow> string option) \<Rightarrow> ('o \<Rightarrow> string option) \<Rightarrow> ('o \<Rightarrow> string) \<Rightarrow> 'o log_value \<Rightarrow> bool \<Rightarrow> string option" where
  "AnyToString Marshal MarshalIndent Sprintf LNil ident = None"
| "AnyToString Marshal MarshalIndent Sprintf (LString s) ident = Some s"
| "AnyToString Marshal MarshalIndent Sprintf (LFunc None) ident = None"
| "AnyToString Marshal MarshalIndent Sprintf (LFunc (Some v)) ident = AnyToString Marshal MarshalIndent Sprintf v ident"
| "AnyToString Marshal MarshalIndent Sprintf (LOther x) ident =
     Some (case if ident then MarshalIndent x else Marshal x of Some s \<Rightarrow> s | None \<Rightarrow> Sprintf x)"

section \<open>The writers\<close>

record ConsoleWriter =
  colors :: bool
  displayLinePref :: bool
  displayDateTime :: bool
  cw_logLevel :: int
  printMillis :: bool
  cw_lastLineOpened :: bool
  cw_currIdentPrefix :: string

definition NewConsoleWriter :: "int \<Rightarrow> bool \<Rightarrow> bool \<Rightarrow> bool \<Rightarrow> bool \<Rightarrow> ConsoleWriter" where
  "NewConsoleWriter logLevel useColors displayLinePrefix dateTime millis =
     \<lparr>colors = useColors, displayLinePref = displayLinePrefix, displayDateTime = dateTime, cw_logLevel = logLevel,
      printMillis = millis, cw_lastLineOpened = False, cw_currIdentPrefix = []\<rparr>"

datatype stream = Stdout | Stderr

definition color_of :: "int \<Rightarrow> string option" where
  "color_of level =
     (if level = 30 then Some ''[0;36m'' else if level = 50 then Some ''[0;33m'' else if level = 60 \<or> level = 70 then Some ''[0;31m''
      else if level = 20 then Some ''[0;35m'' else if level = 10 \<or> level = 9 then Some ''[0;90m'' else None)"

definition console_Write :: "message \<Rightarrow> (bool \<Rightarrow> string) \<Rightarrow> ConsoleWriter \<Rightarrow> ConsoleWriter \<times> (stream \<times> string) list" where
  "console_Write m stamp c =
     (if msg_level m < cw_logLevel c then (c, [])
      else let prefixed = displayLinePref c \<and> \<not> cw_lastLineOpened c;
               pre = GenerateLineBeginning (LevelToString (msg_level m) ''INFO'') (msg_name m) (displayDateTime c) stamp (msg_tz m) (printMillis c);
               ident = (if prefixed then replicate (length pre) CHR '' '' else cw_currIdentPrefix c);
               out = Ident (if prefixed then pre @ msg_text m else msg_text m) ident;
               out' = (case (if colors c then color_of (msg_level m) else None) of
                         None \<Rightarrow> out
                       | Some col \<Rightarrow> CHR 27 # col @ out @ CHR 27 # ''[0m'')
           in (c\<lparr>cw_currIdentPrefix := ident, cw_lastLineOpened := \<not> strings_HasSuffix (msg_text m) [CHR 10]\<rparr>,
               [(if msg_level m = 60 \<or> msg_level m = 70 then Stderr else Stdout, out')]))"

text \<open>The file writer with its file on disk (\<open>None\<close>: no file open) and the files moved away at a
  compaction, whose archiving runs outside the server.\<close>

record FileWriter =
  filePath :: string
  fw_file :: "string option"
  fw_logLevel :: int
  printMilliseconds :: bool
  maxFileSize :: int
  fw_lastLineOpened :: bool
  fw_currIdentPrefix :: string
  moved :: "(string \<times> string) list"

text \<open>\<open>os_OpenFile\<close> gives the error of opening the file or what it holds.\<close>

definition NewFileWriter :: "(string \<Rightarrow> string + string) \<Rightarrow> string \<Rightarrow> int \<Rightarrow> bool \<Rightarrow> int \<Rightarrow> string + FileWriter" where
  "NewFileWriter os_OpenFile path logLevel millis maxSize =
     (case os_OpenFile path of
        Inl err \<Rightarrow> Inl err
      | Inr f \<Rightarrow> Inr \<lparr>filePath = path, fw_file = Some f, fw_logLevel = logLevel, printMilliseconds = millis, maxFileSize = maxSize,
                     fw_lastLineOpened = False, fw_currIdentPrefix = [], moved = []\<rparr>)"

text \<open>What the operating system does in a compaction: the formatted time, with a resolution of one second, whether the
  file can be moved and whether the new one can be opened. \<open>os.Rename\<close> replaces a file of the new name.\<close>

record compaction_env =
  ce_stamp :: string
  ce_rename :: bool
  ce_open :: bool

definition compacted_name :: "string \<Rightarrow> string \<Rightarrow> string" where
  "compacted_name path stamp =
     (case strings_LastIndexByte path CHR ''.'' of
        Some pos \<Rightarrow> take pos path @ ''-'' @ stamp @ drop pos path
      | None \<Rightarrow> path @ ''-'' @ stamp)"

definition startCompaction :: "compaction_env \<Rightarrow> FileWriter \<Rightarrow> FileWriter" where
  "startCompaction e fw =
     (let old = (case fw_file fw of Some t \<Rightarrow> t | None \<Rightarrow> []);
          current = (if ce_rename e then [] else old);
          newFname = compacted_name (filePath fw) (ce_stamp e)
      in fw\<lparr>moved := (if ce_rename e then filter (\<lambda>(n, _). n \<noteq> newFname) (moved fw) @ [(newFname, old)] else moved fw),
            fw_file := (if ce_open e then Some current else None)\<rparr>)"

text \<open>The goroutine of a compaction archives the moved file: the archive, the shell command, and its end (\<open>tarOk\<close>: the
  command could write the archive). The moved file is removed in any case.\<close>

definition archive_base :: "string \<Rightarrow> string" where
  "archive_base path =
     (let noext = (case strings_LastIndexByte path CHR ''.'' of Some pos \<Rightarrow> take pos path | None \<Rightarrow> path)
      in case strings_LastIndexByte noext CHR ''/'' of Some pos \<Rightarrow> drop (Suc pos) noext | None \<Rightarrow> noext)"

definition tarXzFile :: "string \<Rightarrow> string \<Rightarrow> string" where
  "tarXzFile path stamp = (path @ ''.history'') @ ''/'' @ archive_base path @ ''-'' @ stamp @ ''.tar.xz''"

definition archive_command :: "string \<Rightarrow> string \<Rightarrow> string" where
  "archive_command path stamp =
     ''nice -n 19 tar -cJf '' @ [CHR 34] @ tarXzFile path stamp @ [CHR 34, CHR '' '', CHR 34] @ compacted_name path stamp @ [CHR 34]"

definition archive_moved :: "bool \<Rightarrow> string \<Rightarrow> FileWriter \<Rightarrow> (string \<times> string) list \<Rightarrow> FileWriter \<times> (string \<times> string) list" where
  "archive_moved tarOk stamp fw archives =
     (let newFname = compacted_name (filePath fw) stamp; (old, rest) = partition (\<lambda>(n, _). n = newFname) (moved fw)
      in (fw\<lparr>moved := rest\<rparr>,
          if tarOk \<and> old \<noteq> [] then archives @ [(tarXzFile (filePath fw) stamp, snd (last old))] else archives))"

definition file_Write :: "message \<Rightarrow> (bool \<Rightarrow> string) \<Rightarrow> bool \<Rightarrow> compaction_env \<Rightarrow> FileWriter \<Rightarrow> FileWriter" where
  "file_Write m stamp statOk e fw =
     (if msg_level m < fw_logLevel fw then fw
      else let header = (if \<not> fw_lastLineOpened fw
                         then GenerateLineBeginning (LevelToString (msg_level m) ''INFO'') (msg_name m) True stamp (msg_tz m) (printMilliseconds fw)
                         else []);
               ident = (if \<not> fw_lastLineOpened fw then replicate (length header) CHR '' '' else fw_currIdentPrefix fw);
               fw1 = fw\<lparr>fw_currIdentPrefix := ident\<rparr>;
               fw2 = (case fw_file fw1 of
                        None \<Rightarrow> fw1
                      | Some t \<Rightarrow>
                          let fw' = fw1\<lparr>fw_file := Some (t @ header @ Ident (msg_text m) ident)\<rparr>
                          in if 0 < maxFileSize fw' \<and> statOk \<and> maxFileSize fw' < int (length (the (fw_file fw')))
                             then startCompaction e fw' else fw')
           in fw2\<lparr>fw_lastLineOpened := \<not> strings_HasSuffix (msg_text m) [CHR 10]\<rparr>)"

record commandEntry =
  ce_header :: string
  ce_text :: string
  ce_name :: string
  ce_level :: int

definition command_Write :: "message \<Rightarrow> (bool \<Rightarrow> string) \<Rightarrow> commandEntry list \<Rightarrow> commandEntry list" where
  "command_Write m stamp cache =
     cache @ [\<lparr>ce_header = GenerateLineBeginning (LevelToString (msg_level m) ''INFO'') (msg_name m) True stamp (msg_tz m) True,
               ce_text = msg_text m, ce_name = msg_name m, ce_level = msg_level m\<rparr>]"

text \<open>The line the loop of the command writer puts into the file it gives to the command.\<close>

definition csv_line :: "commandEntry \<Rightarrow> string" where
  "csv_line e =
     CHR 34 # EscapeString (ce_header e) @ [CHR 34, CHR '','', CHR 34] @ EscapeString (ce_text e) @ [CHR 34, CHR '','', CHR 34] @
     EscapeString (ce_name e) @ [CHR 34, CHR '',''] @ strconv_Itoa (ce_level e) @ [CHR 10]"

text \<open>One turn of that loop: the file handed to the command, if any. \<open>tempOk\<close>: the file could be created.\<close>

definition command_turn :: "bool \<Rightarrow> commandEntry list \<Rightarrow> commandEntry list \<times> string option" where
  "command_turn tempOk cache =
     (if cache = [] then (cache, None) else if \<not> tempOk then ([], None) else ([], Some (concat (map csv_line cache))))"

section \<open>Delivery\<close>

text \<open>The writers of a logger; a lambda writer knows whether it has a function. What a write shows outside: a text on
  a stream or a call of the function.\<close>

datatype log_writer = Console ConsoleWriter | File FileWriter | Command "commandEntry list" | LambdaWriter bool

datatype log_event = Printed stream string | Called message

record write_env =
  we_stamp :: "bool \<Rightarrow> string"
  we_statOk :: bool
  we_compaction :: compaction_env

fun writer_Write :: "write_env \<Rightarrow> message \<Rightarrow> log_writer \<Rightarrow> log_writer \<times> log_event list" where
  "writer_Write e m (Console c) = (let (c', out) = console_Write m (we_stamp e) c in (Console c', map (\<lambda>(s, x). Printed s x) out))"
| "writer_Write e m (File fw) = (File (file_Write m (we_stamp e) (we_statOk e) (we_compaction e) fw), [])"
| "writer_Write e m (Command cache) = (Command (command_Write m (we_stamp e) cache), [])"
| "writer_Write e m (LambdaWriter fn) = (LambdaWriter fn, if fn then [Called m] else [])"

text \<open>The goroutine of \<open>NewLogger\<close> takes a message from the channel and gives it to every writer.\<close>

definition deliver :: "write_env \<Rightarrow> log_writer Logger \<Rightarrow> (log_writer Logger \<times> log_event list) option" where
  "deliver e l =
     (case buffer l of
        [] \<Rightarrow> None
      | m # ms \<Rightarrow> Some (l\<lparr>buffer := ms, writers := map (fst \<circ> writer_Write e m) (writers l)\<rparr>,
                       concat (map (snd \<circ> writer_Write e m) (writers l))))"

text \<open>A logger in use by many goroutines. The channel has room for 100 messages: \<open>Log\<close> waits while it is full. A message may
  have been made with a flag that other calls have changed since. The trace records the logged messages and the
  delivered ones with their circumstances.\<close>

inductive logger_run :: "log_writer Logger \<Rightarrow> message list \<Rightarrow> (write_env \<times> message) list \<Rightarrow> log_writer Logger \<Rightarrow> bool" for l0 where
  start: "logger_run l0 [] [] l0"
| sends: "logger_run l0 sent done l \<Longrightarrow> length (buffer l) < 100 \<Longrightarrow> m = log_message opened level name msgs zone l \<Longrightarrow>
    logger_run l0 (sent @ [m]) done (log_send m l)"
| resets: "logger_run l0 sent done l \<Longrightarrow> logger_run l0 sent done (log_reset l)"
| opens: "logger_run l0 sent done l \<Longrightarrow> logger_run l0 sent done (KeepNextLineOpened l)"
| delivers: "logger_run l0 sent done l \<Longrightarrow> deliver e l = Some (l', out) \<Longrightarrow>
    logger_run l0 sent (done @ [(e, hd (buffer l))]) l'"

text \<open>A call that is not interrupted.\<close>

lemma logger_run_Log:
  assumes "logger_run l0 sent delivered l" and "length (buffer l) < 100"
  shows "logger_run l0 (sent @ [log_message (keepNextLineOpened l) level name msgs zone l]) delivered (Log level name msgs zone l)"
  unfolding Log_def by (rule logger_run.resets [OF logger_run.sends [OF assms refl]])

section \<open>Escaping\<close>

definition esc_char :: "char \<Rightarrow> string" where
  "esc_char x =
     (if x = CHR 92 then [CHR 92, CHR 92] else if x = CHR 34 then [CHR 92, CHR 34] else if x = CHR 10 then [CHR 92, CHR ''n'']
      else if x = CHR 13 then [CHR 92, CHR ''r''] else if x = CHR 9 then [CHR 92, CHR ''t''] else [x])"

lemma ReplaceByte_simps [simp]:
  "strings_ReplaceByte [] c r = []" "strings_ReplaceByte (x # xs) c r = (if x = c then r else [x]) @ strings_ReplaceByte xs c r"
  "strings_ReplaceByte (xs @ ys) c r = strings_ReplaceByte xs c r @ strings_ReplaceByte ys c r"
  by (simp_all add: strings_ReplaceByte_def)

lemma EscapeString_simps [simp]: "EscapeString [] = []" "EscapeString (x # s) = esc_char x @ EscapeString s"
  by (simp_all add: EscapeString_def esc_char_def Let_def)

text \<open>Reading an escaped text back.\<close>

fun unescape :: "string \<Rightarrow> string" where
  "unescape [] = []"
| "unescape [x] = [x]"
| "unescape (x # y # s) =
     (if x = CHR 92
      then (if y = CHR ''n'' then CHR 10 else if y = CHR ''r'' then CHR 13 else if y = CHR ''t'' then CHR 9 else y) # unescape s
      else x # unescape (y # s))"

lemma unescape_plain: "x \<noteq> CHR 92 \<Longrightarrow> unescape (x # s) = x # unescape s"
  by (cases s) auto

lemma unescape_EscapeString: "unescape (EscapeString s) = s"
  by (induction s) (auto simp: esc_char_def unescape_plain)

lemma EscapeString_no_break: "set (EscapeString s) \<inter> {CHR 10, CHR 13, CHR 9} = {}"
  by (induction s) (auto simp: esc_char_def)

text \<open>A quote of an escaped text stands after an odd number of backslashes, so the text up to the first free
  quote is the field.\<close>

fun field :: "string \<Rightarrow> string \<times> string" where
  "field [] = ([], [])"
| "field (x # s) =
     (if x = CHR 34 then ([], s)
      else if x = CHR 92 then (case s of [] \<Rightarrow> ([x], []) | y # s' \<Rightarrow> (let (f, r) = field s' in (x # y # f, r)))
      else let (f, r) = field s in (x # f, r))"

lemma field_EscapeString: "field (EscapeString s @ CHR 34 # r) = (EscapeString s, r)"
  by (induction s) (auto simp: esc_char_def)

definition read_csv_line :: "string \<Rightarrow> string \<times> string \<times> string \<times> string" where
  "read_csv_line l =
     (let (h, r1) = field (tl l); (t, r2) = field (drop 2 r1); (n, r3) = field (drop 2 r2)
      in (unescape h, unescape t, unescape n, butlast (tl r3)))"

section \<open>Indentation and rotation\<close>

lemma nat_dec_no_break: "CHR 10 \<notin> set (strconv_Itoa i)"
  using nat_dec_digits [of "nat i"] nat_dec_digits [of "nat (- i)"] by (auto simp: strconv_Itoa_def digit_chars_def)

section \<open>Properties\<close>

text \<open>The command writer loses nothing: whatever a message contains, its entry is one line of the file, and the
  header, the text and the name are read back from the line.\<close>

theorem csv_line_roundtrip:
  "read_csv_line (csv_line e) = (ce_header e, ce_text e, ce_name e, strconv_Itoa (ce_level e)) \<and>
   CHR 10 \<notin> set (butlast (csv_line e)) \<and> last (csv_line e) = CHR 10"
proof -
  have "CHR 10 \<notin> set (EscapeString s)" for s using EscapeString_no_break [of s] by blast
  moreover have "read_csv_line (csv_line e) = (ce_header e, ce_text e, ce_name e, strconv_Itoa (ce_level e))"
    by (simp add: read_csv_line_def csv_line_def field_EscapeString unescape_EscapeString)
  ultimately show ?thesis
    using nat_dec_no_break by (simp add: csv_line_def butlast_append)
qed

text \<open>A moved log file is removed whether or not it could be archived: when the command fails, its messages are lost.\<close>

lemma free_name:
  assumes "n \<notin> fst ` set fs"
  shows "filter (\<lambda>(k, _). k = n) fs = []" and "filter (\<lambda>(k, _). k \<noteq> n) fs = fs" and "filter (Not \<circ> (\<lambda>(k, _). k = n)) fs = fs"
  using assms by (force simp: filter_empty_conv filter_id_conv)+

theorem failed_archive_loses_log:
  assumes "ce_rename e" and "ce_open e" and "fw_file fw = Some t"
    and "compacted_name (filePath fw) (ce_stamp e) \<notin> fst ` set (moved fw)"
  shows "let fw' = startCompaction e fw
    in moved fw' = moved fw @ [(compacted_name (filePath fw) (ce_stamp e), t)] \<and> fw_file fw' = Some [] \<and>
      archive_moved False (ce_stamp e) fw' archives = (fw'\<lparr>moved := moved fw\<rparr>, archives) \<and>
      archive_moved True (ce_stamp e) fw' archives = (fw'\<lparr>moved := moved fw\<rparr>, archives @ [(tarXzFile (filePath fw) (ce_stamp e), t)])"
  using assms(1-3) by (simp add: startCompaction_def archive_moved_def Let_def free_name [OF assms(4)])

text \<open>Two compactions in the same second lose what the first moved away: both use one name, and the second file replaces
  the first, although every operation succeeds.\<close>

theorem second_rotation_replaces_first:
  assumes "ce_rename e" and "ce_open e" and "ce_rename e'" and "ce_stamp e' = ce_stamp e" and "moved fw = []"
    and "fw1 = startCompaction e fw" and "fw2 = startCompaction e' (fw1\<lparr>fw_file := Some t\<rparr>)"
  shows "moved fw1 = [(compacted_name (filePath fw) (ce_stamp e), case fw_file fw of Some u \<Rightarrow> u | None \<Rightarrow> [])] \<and>
    moved fw2 = [(compacted_name (filePath fw) (ce_stamp e), t)]"
  using assms by (simp add: startCompaction_def Let_def)

lemma tarXzFile_example:
  "tarXzFile ''/var/vss.log'' ''s'' = ''/var/vss.log.history/vss-s.tar.xz''"
  by code_simp


definition demo_writer :: FileWriter where
  "demo_writer = \<lparr>filePath = ''vss.log'', fw_file = Some ''old'', fw_logLevel = 40, printMilliseconds = True, maxFileSize = 10,
     fw_lastLineOpened = False, fw_currIdentPrefix = [], moved = []\<rparr>"


text \<open>C36. Every writer gets every message once and in the order of logging: at any moment the delivered messages followed
  by those in the channel are the logged ones, the channel never holds more than 100, and the state of each
  writer is what it becomes by writing the delivered messages one after the other.\<close>

theorem messages_delivered_in_order:
  assumes "logger_run (NewLogger ws custom off) sent delivered l"
  shows "map snd delivered @ buffer l = sent \<and> length (buffer l) \<le> 100 \<and>
    writers l = map (\<lambda>w. foldl (\<lambda>w (e, m). fst (writer_Write e m w)) w delivered) ws"
  using assms
proof (induction rule: logger_run.induct)
  case (sends sent delivered l m opened level name msgs zone)
  then show ?case by (simp add: log_send_def flip: append_assoc)
next
  case (delivers sent delivered l e l' out)
  then show ?case by (auto simp: deliver_def split: list.splits)
qed (simp_all add: NewLogger_def KeepNextLineOpened_def log_reset_def)

theorem messages_delivered_in_order_witness:
  "\<exists>l. logger_run (NewLogger [LambdaWriter True] False 0)
         [\<lparr>msg_text = ''a'', msg_level = 40, msg_name = [], msg_tz = 0\<rparr>] [] l \<and> map msg_text (buffer l) = [''a'']"
proof -
  let ?new = "NewLogger [LambdaWriter True] False 0"
  let ?l = "Log 40 [] [''a''] 0 (KeepNextLineOpened ?new)"
  have "logger_run ?new ([] @ [last (buffer ?l)]) [] ?l"
    using logger_run_Log [OF logger_run.opens [OF logger_run.start], of ?new 40 "[]" "[''a'']" 0]
    by (simp add: log_defs NewLogger_def KeepNextLineOpened_def)
  moreover have "last (buffer ?l) = \<lparr>msg_text = ''a'', msg_level = 40, msg_name = [], msg_tz = 0\<rparr>"
    by (simp add: log_defs NewLogger_def KeepNextLineOpened_def)
  ultimately have run: "logger_run ?new [\<lparr>msg_text = ''a'', msg_level = 40, msg_name = [], msg_tz = 0\<rparr>] [] ?l" by simp
  then show ?thesis using messages_delivered_in_order [OF run] by (intro exI [of _ ?l]) simp
qed

text \<open>A line that was kept open is continued by the next message: the log file gets one beginning of a line, then
  the two texts, and the line ends after the second.\<close>

theorem kept_line_is_continued:
  assumes "writers l = [File fw]" and "buffer l = []" and "fw_file fw = Some t" and "\<not> fw_lastLineOpened fw"
    and "fw_logLevel fw \<le> level" and "maxFileSize fw \<le> 0"
    and "\<not> strings_HasSuffix a [CHR 10]" and "\<not> strings_HasSuffix b [CHR 10]"
    and "deliver e (nl_Log n level [b] zone (nl_Log n level [a] zone (nl_KeepNextLineOpened n l))) = Some (l1, out1)"
    and "deliver e' l1 = Some (l2, out2)"
  defines "header \<equiv> GenerateLineBeginning (LevelToString level ''INFO'') (nl_name n) True (we_stamp e)
      (if useCustomTimezone l then customTimeZoneOffsetSeconds l - zone else zone) (printMilliseconds fw)"
  defines "pre \<equiv> replicate (length header) CHR '' ''"
  shows "\<exists>fw'. writers l2 = [File fw'] \<and> fw_file fw' = Some (t @ header @ Ident a pre @ Ident (b @ [CHR 10]) pre) \<and>
    \<not> fw_lastLineOpened fw'"
  using assms by (auto simp: deliver_def nl_defs nl_KeepNextLineOpened_def KeepNextLineOpened_def log_defs file_Write_def Let_def
      strings_HasSuffix_def)

text \<open>A turn of the command writer whose file cannot be created drops the cached messages.\<close>

lemma failed_command_turn_drops: "cache \<noteq> [] \<Longrightarrow> command_turn False cache = ([], None)"
  by (simp add: command_turn_def)

text \<open>A negative offset with minutes is printed with a second sign.\<close>

lemma negative_offset_has_two_signs: "tz_text (- 12600) = ''-03-30''"
  by (simp add: tz_text_def Let_def signed_divide_int_def signed_modulo_int_def pad0_def strconv_Itoa_def nat_dec.simps digit_char_def)

end
