(* ===== verification/Startup.thy ===== *)
theory Startup
  imports Confs Controller Persistence Logger
begin

text \<open>
  The start of the server (\<open>main.go\<close>): the help, the configurations and their validations, the directories, the logger,
  the banner, the check of the arguments, and the storage and the controller made from them. The computer is the
  parameter \<open>host\<close>: the arguments, the environment, the files and the functions of \<open>path/filepath\<close>. The warnings about
  refused values are not recorded.
\<close>

section \<open>Directories\<close>

record host =
  os_Args :: "string list"
  os_Getenv :: "string \<Rightarrow> string"
  os_ReadText :: "string \<Rightarrow> string option"
  os_OpenFile :: "string \<Rightarrow> string + string"
  os_Executable :: string
  os_Getwd :: "string option"
  filepath_Dir :: "string \<Rightarrow> string"
  filepath_Join :: "string list \<Rightarrow> string"
  filepath_Rel :: "string \<Rightarrow> string \<Rightarrow> string option"

definition getApplicationDirectory :: "host \<Rightarrow> bool \<Rightarrow> string" where
  "getApplicationDirectory h shortenIfPossible =
     (case (if shortenIfPossible then Option.bind (os_Getwd h) (\<lambda>cwd. filepath_Rel h cwd (os_Executable h)) else None) of
        Some relPath \<Rightarrow>
          if \<not> strings_HasPrefix relPath ''..'' then filepath_Dir h relPath else filepath_Dir h (os_Executable h)
      | None \<Rightarrow> filepath_Dir h (os_Executable h))"

definition runningInPortableMode :: "host \<Rightarrow> bool" where
  "runningInPortableMode h \<longleftrightarrow>
     \<not> (strings_HasPrefix (os_Executable h) ''/usr'' \<or> strings_HasPrefix (os_Executable h) ''/bin'')"

definition findConfigurationFile :: "host \<Rightarrow> string" where
  "findConfigurationFile h =
     (if runningInPortableMode h then filepath_Join h [getApplicationDirectory h False, ''config'', ''vss.conf'']
      else ''/etc/vss/vss.conf'')"

definition determineLogFile :: "host \<Rightarrow> string" where
  "determineLogFile h =
     (if runningInPortableMode h then filepath_Join h [getApplicationDirectory h False, ''vss.log'']
      else ''/var/log/vss.log'')"

definition suggestDataDirectory :: "host \<Rightarrow> string" where
  "suggestDataDirectory h =
     (if runningInPortableMode h then getApplicationDirectory h False @ ''/data'' else ''/var/vss/data'')"

section \<open>Configurations\<close>

text \<open>The validation functions; the texts of the errors are shortened to their fixed part.\<close>

definition must_be_integer :: "conf_data \<Rightarrow> string option" where
  "must_be_integer conf = (if GetInt64e (Value conf) = None then Some ''must be a positive integer'' else None)"

definition must_be_level :: "conf_data \<Rightarrow> string option" where
  "must_be_level conf =
     (if \<not> strings_Contains ''tracedebuginfoinfo2warningerrorcritical'' (strings_ToLower (GetString (NotMappedValue conf)))
      then Some ''must be a valid log level'' else None)"

definition must_be_port :: "conf_data \<Rightarrow> string option" where
  "must_be_port conf =
     (case GetInte (NotMappedValue conf) of
        None \<Rightarrow> Some ''must be a valid TCP port number (1-65535)''
      | Some port \<Rightarrow> if port < 1 \<or> 65535 < port then Some ''must be a valid TCP port number (1-65535)'' else None)"

definition must_be_at_least :: "int \<Rightarrow> conf_data \<Rightarrow> string option" where
  "must_be_at_least lo conf =
     (case GetInte (NotMappedValue conf) of
        None \<Rightarrow> Some ''must be a valid positive integer''
      | Some n \<Rightarrow> if n < lo then Some ''must be a valid positive integer'' else None)"

definition level_map :: "(DynamicVar \<times> DynamicVar) list" where
  "level_map = map (\<lambda>(n, l). (NewDynamicVar_string n, NewDynamicVar_int l))
     [(''trace'', 9), (''debug2'', 10), (''debug'', 20), (''info2'', 30), (''info'', 40), (''warning'', 50), (''error'', 60), (''critical'', 70)]"

definition conf_options :: "string list \<Rightarrow> string \<Rightarrow> (ConfItem \<Rightarrow> ConfItem) list" where
  "conf_options names dflt = [WithPossibleNames names, WithDefaultValue (NewDynamicVar_string dflt)]"

text \<open>The configurations in the order of their creation, in three groups.\<close>

definition log_configs :: "(string \<times> (ConfItem \<Rightarrow> ConfItem) list) list" where
  "log_configs =
     [(''maxLogFileSize'', conf_options [''max-log-file-size'', ''--max-log-file-size'', ''VSS_MAX_LOG_FILE_SIZE''] ''52428800'' @
         [WithValidationFunc must_be_integer]),
      (''fileLogLevel'', conf_options [''file-log-level'', ''--file-log-level'', ''VSS_FILE_LOG_LEVEL''] ''info2'' @
         [WithValueMap level_map, WithValidationFunc must_be_level]),
      (''stdoutLogLevel'', conf_options [''stdout-log-level'', ''--stdout-log-level'', ''VSS_STDOUT_LOG_LEVEL''] ''info'' @
         [WithValueMap level_map, WithValidationFunc must_be_level])]"

definition server_configs :: "(string \<times> (ConfItem \<Rightarrow> ConfItem) list) list" where
  "server_configs =
     [(''serverDiscoveryPort'', conf_options [''server-discovery-port'', ''--server-discovery-port'', ''VSS_SERVER_DISCOVERY_PORT''] ''5022''),
      (''maxTimeWaitingClient_seconds'',
         conf_options [''max-time-waiting-client-seconds'', ''--max-time-waiting-for-clients'', ''VSS_MAX_TIME_WAITING_CLIENTS''] ''43200''),
      (''DbDirectory'', conf_options [''db-directory'', ''--db-directory'', ''VSS_DB_DIRECTORY''] ''%SUGGESTED_DATA_DIRECTORY%/database''),
      (''httpDataDir'',
         conf_options [''http-data-directory'', ''--http-data-directory'', ''--http-data-dir'', ''VSS_HTTP_DATA_DIRECTORY'']
           ''%SUGGESTED_DATA_DIRECTORY%/http_data''),
      (''httpApiPort'', conf_options [''http-api-port'', ''--http-api-port'', ''VSS_HTTP_API_PORT''] ''5024'' @ [WithValidationFunc must_be_port]),
      (''httpApiHttpsPort'',
         conf_options [''http-api-https-port'', ''--http-api-https-port'', ''VSS_HTTP_API_HTTPS_PORT''] ''5025'' @ [WithValidationFunc must_be_port]),
      (''httpApiCertFile'',
         conf_options [''http-api-cert-file'', ''--http-api-cert-file'', ''VSS_HTTP_API_CERT_FILE''] ''%APP_DIR%/ssl/cert/vssCert.pem''),
      (''httpApiKeyFile'',
         conf_options [''http-api-key-file'', ''--http-api-key-file'', ''VSS_HTTP_API_KEY_FILE''] ''%APP_DIR%/ssl/cert/vssKey.pem''),
      (''httpApiReturnsFullPaths'',
         conf_options [''http-api-returns-full-paths'', ''--http-api-returns-full-paths'', ''VSS_HTTP_API_RETURN_FULL_PATHS''] ''false'')]"

definition limit_configs :: "(string \<times> (ConfItem \<Rightarrow> ConfItem) list) list" where
  "limit_configs =
     [(''vstpApiPort'', conf_options [''vstp-api-port'', ''--vstp-api-port'', ''VSS_VSTP_API_PORT''] ''5032'' @ [WithValidationFunc must_be_port]),
      (''RamCacheDbDumpIntervalMs'',
         conf_options [''ram-cache-db-dump-interval-ms'', ''--ram-cache-db-dump-interval-ms'', ''VSS_RAMCACHEDB_DUMP_INTERVAL_MS''] ''60000'' @
         [WithValidationFunc (must_be_at_least 0)]),
      (''maxKeyLength'',
         conf_options [''max-key-length'', ''--max-key-length'', ''VSS_MAX_KEY_LENGTH''] ''255'' @ [WithValidationFunc (must_be_at_least 1)]),
      (''maxKeyWordLength'',
         conf_options [''max-key-word-length'', ''--max-key-word-length'', ''VSS_MAX_KEY_WORD_LENGTH''] ''64'' @ [WithValidationFunc (must_be_at_least 1)]),
      (''maxValueSize'',
         conf_options [''max-value-size'', ''--max-value-size'', ''VSS_MAX_VALUE_SIZE''] ''1048576'' @ [WithValidationFunc (must_be_at_least 1)]),
      (''allowRawDbAccess'', conf_options [''allow-raw-db-access'', ''--allow-raw-db-access'', ''VSS_ALLOW_RAW_DB_ACCESS''] ''false'')]"

definition config_table :: "(string \<times> (ConfItem \<Rightarrow> ConfItem) list) list" where
  "config_table = log_configs @ server_configs @ limit_configs"

lemmas config_defs = config_table_def log_configs_def server_configs_def limit_configs_def

definition initial_confs :: "host \<Rightarrow> Confs" where
  "initial_confs h =
     AddPlaceHolders
       [(''%PROJECT_DIR%'', getApplicationDirectory h False), (''%APP_DIR%'', getApplicationDirectory h False),
        (''%SUGGESTED_DATA_DIRECTORY%'', suggestDataDirectory h)]
       (NewConfs [NewCommandLineSource (tl (os_Args h)), NewEnvSource (os_Getenv h),
                  NewFileSource (os_ReadText h (findConfigurationFile h))])"

definition create_all :: "(string \<times> (ConfItem \<Rightarrow> ConfItem) list) list \<Rightarrow> Confs \<Rightarrow> Confs" where
  "create_all table c = foldl (\<lambda>c (name, opts). snd (CreateConfig name opts c)) c table"

definition initConfigurations :: "host \<Rightarrow> Confs" where
  "initConfigurations h = create_all config_table (initial_confs h)"

section \<open>The start\<close>

text \<open>The help text: the options, then the environment variables.\<close>

definition INFO_VERSION :: string where
  "INFO_VERSION = ''2.0.0+Capella''"

definition help_options :: "string list" where
  "help_options =
     [''VarServerSHU - The variable server for SHU-based systems'',
      ''Version: '' @ INFO_VERSION,
      ''Usage: vss [options]'',
      ''Options:'',
      ''  -h, --help, /?, -?, help          Show this help message and exit'',
      ''  --version                         Show version information and exit'',
      ''  --http-api-port <port>            Set the HTTP API port (default: 5024 or value in conf file)'',
      ''  --http-api-https-port <port>      Set the HTTPS API port (default: 5025 or value in conf file)'',
      ''  --http-data-folder                Set the HTTP data directory (default: /var/vss/data/http_data or value in conf file)'',
      ''  --http-api-cert-file              Set the HTTPS certificate file (default: ./ssl/cert/vssCert.pem or value in conf file)'',
      ''  --http-api-key-file               Set the HTTPS key file (default: ./ssl/cert/vssKey.pem or value in conf file)'',
      ''  --http-api-returns-full-paths     If true, HTTP API will return entire variables paths in the JSON results (default: false or value in conf file)'',
      ''  --ram-cache-db-dump-interval-ms   Set the interval, in milliseconds, to RamCacheDB service check for changes in the memory and dump data to disk (default: 60000 or value in conf file)'',
      ''  --vstp-api-port <port>            Set the VSTP API port (default: 5032 or value in conf file)'',
      ''  --db-directory <path>             Set the database directory (default: /var/vss/data/database or value in conf file)'',
      ''  --http-data-directory <path>      Set the HTTP data directory (default: /var/vss/data/http_data or value in conf file)'',
      ''  --max-log-file-size <size_in_bytes>'',
      ''  '' @ replicate 9 (CHR 9) @ '' Set the maximum log file size in bytes before rotation (default: 52428800 or value in conf file)'',
      ''  --max-time-waiting-for-clients <seconds>'',
      ''  '' @ replicate 9 (CHR 9) @ '' Set the maximum time in seconds to consider a client disconnected (default: 43200 or value in conf file)'',
      ''  --stdout-log-level <level>        Set the log level for console output (default: info or value in conf file)'',
      ''    levels:'',
      ''      trace'' @ replicate 6 (CHR 9) @ ''     Very detailed logs, used for debugging'',
      ''      debug'' @ replicate 6 (CHR 9) @ ''     Detailed logs, used for debugging'',
      ''      info'' @ replicate 7 (CHR 9) @ ''     General information logs'',
      ''      warning'' @ replicate 6 (CHR 9) @ ''     Warnings about potential issues'',
      ''      error'' @ replicate 6 (CHR 9) @ ''     Errors that occurred'',
      ''      critical'' @ replicate 6 (CHR 9) @ ''     Critical errors that may cause shutdown'',
      ''  --file-log-level <level>          Set the log level for file output (default: info or value in conf file)'',
      ''  --max-key-length <length>         Set the maximum key length in characters (default: 255 or value in conf file)'',
      ''  --max-key-word-length <length>    Set the maximum key word length in characters (default: 64 or value in conf file)'',
      ''  --max-value-size <size_in_bytes>  Set the maximum value size in bytes (default: 1048576 or value in conf file)'',
      ''  --allow-raw-db-access <true|false>'',
      ''                                    If true, allows raw database access without '' @ [CHR 39] @ ''vars.'' @ [CHR 39] @ '' prefix (default: false or value in conf file)'',
      []]"

definition help_environment :: "string list" where
  "help_environment =
     [''Environment Variables:'',
      ''  VSS_HTTP_API_PORT                 Same as --http-api-port'',
      ''  VSS_HTTP_API_HTTPS_PORT           Same as --http-api-https-port'',
      ''  VSS_VSTP_API_PORT                 Same as --vstp-api-port'',
      ''  VSS_HTTP_DATA_FOLDER              Same as --http-data-folder'',
      ''  VSS_HTTP_API_CERT_FILE            Same as --http-api-cert-file'',
      ''  VSS_HTTP_API_KEY_FILE             Same as --http-api-key-file'',
      ''  VSS_HTTP_API_RETURN_FULL_PATHS    Same as --http-api-return-full-paths'',
      ''  VSS_RAM_CACHE_DB_DUMP_INTERVAL_MS Same as --ram-cache-db-dump-interval-ms'',
      ''  VSS_VSTP_API_PORT                 Same as --vstp-api-port'',
      ''  VSS_DB_DIRECTORY                  Same as --db-directory'',
      ''  VSS_HTTP_DATA_DIRECTORY           Same as --http-data-directory'',
      ''  VSS_MAX_LOG_FILE_SIZE             Same as --max-log-file-size'',
      ''  VSS_MAX_TIME_WAITING_CLIENTS      Same as --max-time-waiting-clients'',
      ''  VSS_STDOUT_LOG_LEVEL              Same as --stdout-log-level'',
      ''  VSS_FILE_LOG_LEVEL                Same as --file-log-level'',
      ''  VSS_MAX_KEY_LENGTH                Same as --max-key-length'',
      ''  VSS_MAX_KEY_WORD_LENGTH           Same as --max-key-word-length'',
      ''  VSS_MAX_VALUE_SIZE                Same as --max-value-size'',
      ''  VSS_ALLOW_RAW_DB_ACCESS           Same as --allow-raw-db-access'',
      [],
      ''Command line arguments are more important than environment variables, which are more important than configuration file values.'',
      ''For more information, visit the documentation.'']"

text \<open>\<open>displayHelpOrVersion\<close>: the lines it prints and its result, which is always false.\<close>

definition displayHelpOrVersion :: "host \<Rightarrow> string list \<times> bool" where
  "displayHelpOrVersion h =
     (concat (map (\<lambda>arg. if arg \<in> {''--help'', ''-h'', ''/?''} then help_options @ help_environment
                        else if arg \<in> {''--version'', ''-v''} then [''VSS Version: '' @ INFO_VERSION] else [])
        (os_Args h)), False)"

definition argument_name :: "string \<Rightarrow> string" where
  "argument_name arg =
     (case cut_at CHR ''='' arg of
        Some (k, _) \<Rightarrow> k
      | None \<Rightarrow> (case cut_at CHR '':'' arg of Some (k, _) \<Rightarrow> k | None \<Rightarrow> arg))"

definition conf_value :: "Confs \<Rightarrow> string \<Rightarrow> DynamicVar" where
  "conf_value c name = Value (fst (GetConfig name [] c))"

text \<open>\<open>initLogger\<close> panics when the log file cannot be opened: \<open>Inl\<close>.\<close>

definition initLogger :: "host \<Rightarrow> Confs \<Rightarrow> string + log_writer Logger" where
  "initLogger h configs =
     (case NewFileWriter (os_OpenFile h) (determineLogFile h) (GetInt (conf_value configs ''fileLogLevel'')) True
             (GetInt64 (conf_value configs ''maxLogFileSize'')) of
        Inl err \<Rightarrow> Inl (''Failed to initialize file writer: '' @ err)
      | Inr fileWriter \<Rightarrow>
          Inr (NewLogger [Console (NewConsoleWriter (GetInt (conf_value configs ''stdoutLogLevel'')) True True True True),
                          File fileWriter] False 0))"

definition detectInvalidArguments :: "Confs \<Rightarrow> host \<Rightarrow> bool" where
  "detectInvalidArguments c h \<longleftrightarrow> (\<exists>arg \<in> set (tl (os_Args h)). FindConfByParamName c (argument_name arg) = None)"

text \<open>\<open>initStorage\<close>; \<open>NewRamCacheDB\<close> reads its file twice.\<close>

definition initStorage :: "Confs \<Rightarrow> read_result \<Rightarrow> read_result \<Rightarrow> RamCacheDB" where
  "initStorage c rd1 rd2 =
     NewRamCacheDB rd1 rd2 (GetString (conf_value c ''DbDirectory'')) (GetInt (conf_value c ''RamCacheDbDumpIntervalMs''))"

text \<open>\<open>printBanner\<close>: the text it logs.\<close>

definition banner_text :: "host \<Rightarrow> Confs \<Rightarrow> string" where
  "banner_text h configs =
     (let line = (\<lambda>k v. k @ v @ [CHR 10]); conf = (\<lambda>n. GetString (conf_value configs n))
      in line ''The VSS has been started'' [] @ line ''+-- Version: '' INFO_VERSION @
         line ''+-- Portable mode: '' (if runningInPortableMode h then ''Yes'' else ''No'') @
         line ''|   +-- conf file: '' (findConfigurationFile h) @ line ''|   +-- log file: '' (determineLogFile h) @
         line ''|   +-- database folder: '' (conf ''DbDirectory'') @ line ''+-- Services'' [] @
         line ''|   +-- VSTP port: TCP/'' (conf ''vstpApiPort'') @
         line ''|   +-- HTTP port: TCP/'' (conf ''httpApiPort'' @ ''(http) + TCP/'' @ conf ''httpApiHttpsPort'' @ ''(https)'') @
         line ''|   +-- Server discovery port: UDP/'' (conf ''serverDiscoveryPort'') @ line ''+-- All configurations'' [] @
         concat (map (\<lambda>(key, item). line (''    +-- '' @ key @ '': '') (GetString (NotMappedValue item))) (AllConfigs configs)))"

definition printBanner :: "host \<Rightarrow> Confs \<Rightarrow> int \<Rightarrow> 'w Logger \<Rightarrow> 'w Logger" where
  "printBanner h configs zone l = Info [] [banner_text h configs] zone l"

text \<open>\<open>setupStdoutAndStderrInterception\<close>, which \<open>main\<close> does not call: the errors of the two \<open>os.Pipe\<close> calls, the chunks (at
  most 1024 bytes) that the reads of the pipes return, in the order in which the two goroutines log them.\<close>

definition log_chunk :: "int \<Rightarrow> stream \<times> string \<Rightarrow> 'w Logger \<Rightarrow> 'w Logger" where
  "log_chunk zone chunk l =
     (case chunk of
        (Stdout, s) \<Rightarrow> if s \<noteq> [] then Info ''STDOUT'' [s] zone l else l
      | (Stderr, s) \<Rightarrow> if s \<noteq> [] then Error ''STDERR'' [s] zone l else l)"

definition setupStdoutAndStderrInterception ::
    "string option \<Rightarrow> string option \<Rightarrow> (stream \<times> string) list \<Rightarrow> int \<Rightarrow> 'w Logger \<Rightarrow> 'w Logger" where
  "setupStdoutAndStderrInterception outErr errErr chunks zone l =
     (case outErr of
        Some e \<Rightarrow> Error ''Main'' [''Failed to create pipe for stdout interception: '' @ e] zone l
      | None \<Rightarrow>
     (case errErr of
        Some e \<Rightarrow> Error ''Main'' [''Failed to create pipe for stderr interception: '' @ e] zone l
      | None \<Rightarrow> fold (log_chunk zone) chunks l))"

text \<open>\<open>main\<close> up to the start of the APIs: \<open>None\<close> when it ends early, by a panic of \<open>initLogger\<close> or because of an unknown
  argument. \<open>zone\<close> is the offset of the local time. The logger holds the messages of \<open>main\<close>; those of the
  storage are not recorded.\<close>

definition start_server ::
    "host \<Rightarrow> int \<Rightarrow> read_result \<Rightarrow> read_result \<Rightarrow> (Confs \<times> log_writer Logger \<times> RamCacheDB \<times> TheController) option" where
  "start_server h zone rd1 rd2 =
     (if snd (displayHelpOrVersion h) then None
      else let configs = initConfigurations h
           in case initLogger h configs of
                Inl err \<Rightarrow> None
              | Inr logManager \<Rightarrow>
                  if detectInvalidArguments configs h then None
                  else let mainLog = GetNamedLogger 0 ''Main'';
                           l1 = nl_KeepNextLineOpened mainLog (printBanner h configs zone logManager);
                           l2 = nl_Info mainLog [''Starting storage ...''] zone l1;
                           l3 = nl_Info mainLog [''...Storage started.''] zone l2;
                           l4 = nl_Info mainLog [''Starting controller ...''] zone l3;
                           l5 = nl_Info mainLog [''...Controller started.''] zone l4
                       in Some (configs, l5, initStorage configs rd1 rd2, NewController (conf_value configs) INFO_VERSION))"

section \<open>The items of the table\<close>

lemma create_all_Nil [simp]: "create_all [] c = c"
  by (simp add: create_all_def)

lemma create_all_Cons [simp]: "create_all ((n, opts) # table) c = create_all table (snd (CreateConfig n opts c))"
  by (simp add: create_all_def)

lemma create_all_frame:
  "conf_sources (create_all table c) = conf_sources c \<and> placeHolders (create_all table c) = placeHolders c \<and>
   (n \<notin> fst ` set table \<longrightarrow> map_of (items (create_all table c)) n = map_of (items c) n)"
  by (induction table arbitrary: c) (auto simp: CreateConfig_frame CreateConfig_items)

lemma create_all_item:
  assumes "distinct (map fst table)" and "(n, opts) \<in> set table" and "\<forall>m \<in> fst ` set table. map_of (items c) m = None"
  obtains c0 j err c1 where "conf_sources c0 = conf_sources c" and "placeHolders c0 = placeHolders c" and "map_of (items c0) n = None"
    and "CreateConfig n opts c0 = ((j, err), c1)" and "map_of (items (create_all table c)) n = Some j"
proof -
  obtain t1 t2 where t: "table = t1 @ (n, opts) # t2" using assms(2) by (meson split_list)
  let ?c0 = "create_all t1 c"
  obtain j err c1 where e: "CreateConfig n opts ?c0 = ((j, err), c1)" by (metis prod.exhaust)
  have fresh: "map_of (items ?c0) n = None" using assms(1,3) t create_all_frame [of t1 c n] by (simp add: t)
  have "create_all table c = create_all t2 c1" using e by (simp add: t create_all_def)
  moreover have "map_of (items c1) n = Some j" using CreateConfig_items [of n opts ?c0 n] e by simp
  moreover have "n \<notin> fst ` set t2" using assms(1) t by auto
  ultimately have "map_of (items (create_all table c)) n = Some j" using create_all_frame [of t2 c1 n] by simp
  then show thesis using that [OF _ _ fresh e] create_all_frame [of t1 c] by simp
qed

lemma resolve_cong: "placeHolders c = placeHolders c' \<Longrightarrow> resolve c v = resolve c' v"
  by (simp add: resolve_def applyPlaceHolders_def)

lemma resolve_initial:
  assumes "CHR ''%'' \<notin> set d" and "placeHolders c = placeHolders (initial_confs h)"
  shows "resolve c (NewDynamicVar_string d) = NewDynamicVar_string d"
proof -
  have "resolve c (NewDynamicVar_string d) = resolve (initial_confs h) (NewDynamicVar_string d)" using assms(2) by (rule resolve_cong)
  also have "\<dots> = NewDynamicVar_string d"
    using assms(1) by (simp add: resolve_def applyPlaceHolders_def initial_confs_def AddPlaceHolders_def NewConfs_def
        strings_ReplaceAll_absent [of "CHR ''%''"])
  finally show ?thesis .
qed

lemma config_table_distinct: "distinct (map fst config_table)"
  by (simp add: config_defs)

lemma conf_option_simps [simp]:
  "WithPossibleNames ns c = c\<lparr>PossibleNames := ns\<rparr>" "WithDefaultValue v c = c\<lparr>DefaultValue := v\<rparr>"
  "WithValidationFunc f c = c\<lparr>ValidateFunc := f\<rparr>"
  by (simp_all add: WithPossibleNames_def SetPossibleNames_def WithDefaultValue_def SetDefaultValue_def
      WithValidationFunc_def SetValidation_def)

text \<open>The value the sources give to a configuration.\<close>

definition configured :: "host \<Rightarrow> string list \<Rightarrow> string \<Rightarrow> DynamicVar" where
  "configured h names d = resolve (initial_confs h)
     (case first_found (conf_sources (initial_confs h)) names of Some (w, _) \<Rightarrow> w | None \<Rightarrow> NewDynamicVar_string d)"

text \<open>What the start makes of an entry of the table without value map: a validated value or the default.\<close>

lemma config_item:
  assumes "(n, opts) \<in> set config_table" and "opts = conf_options names d @ map WithValidationFunc fs" and "CHR ''%'' \<notin> set d"
  shows "conf_value (initConfigurations h) n = NewDynamicVar_string d \<or>
      conf_value (initConfigurations h) n = configured h names d \<and>
      (fs \<noteq> [] \<longrightarrow> (\<exists>cd. NotMappedValue cd = conf_value (initConfigurations h) n \<and> last fs cd = None))"
    and "fs = [] \<Longrightarrow> conf_value (initConfigurations h) n = configured h names d"
    and "\<exists>j. map_of (items (initConfigurations h)) n = Some j \<and> PossibleNames j = names"
proof -
  have empty: "\<forall>m \<in> fst ` set config_table. map_of (items (initial_confs h)) m = None"
    by (simp add: initial_confs_def AddPlaceHolders_def NewConfs_def)
  obtain c0 j err c1 where c0: "conf_sources c0 = conf_sources (initial_confs h)" "placeHolders c0 = placeHolders (initial_confs h)"
    "map_of (items c0) n = None" "CreateConfig n opts c0 = ((j, err), c1)" "map_of (items (initConfigurations h)) n = Some j"
    using create_all_item [OF config_table_distinct assms(1) empty] unfolding initConfigurations_def by blast
  let ?i = "NewConfItem n opts"
  have fold: "foldl (\<lambda>c opt. opt c) c (map WithValidationFunc fs) = (if fs = [] then c else c\<lparr>ValidateFunc := last fs\<rparr>)" for c
    by (induction fs arbitrary: c) auto
  have i: "PossibleNames ?i = names" "ValueMap ?i = []" "DefaultValue ?i = NewDynamicVar_string d"
    "ValidateFunc ?i = (if fs = [] then (\<lambda>_. None) else last fs)"
    using fold by (simp_all add: NewConfItem_def assms(2) conf_options_def)
  note f = CreateConfig_fields [OF c0(3,4), unfolded i]
  have w: "wanted c0 ?i = configured h names d"
    using resolve_cong [OF c0(2)] c0(1) i by (simp add: wanted_def configured_def split: option.split)
  have cv: "conf_value (initConfigurations h) n = theValue j"
    using c0(5) f(2) by (simp add: conf_value_def GetConfig_def CreateConfig_def Value_def)
  show "conf_value (initConfigurations h) n = NewDynamicVar_string d \<or>
      conf_value (initConfigurations h) n = configured h names d \<and>
      (fs \<noteq> [] \<longrightarrow> (\<exists>cd. NotMappedValue cd = conf_value (initConfigurations h) n \<and> last fs cd = None))"
    unfolding cv using f(1,4) w resolve_initial [OF assms(3) c0(2)]
    by (cases "err = None") (auto intro!: exI [of _ "conf_data_of j"] simp: NotMappedValue_def split: if_splits)
  show "fs = [] \<Longrightarrow> conf_value (initConfigurations h) n = configured h names d"
    unfolding cv using f(1,5) w by simp
  show "\<exists>j. map_of (items (initConfigurations h)) n = Some j \<and> PossibleNames j = names"
    using c0(5) f(3) by blast
qed

lemma config_at_least:
  assumes "(n, conf_options names d @ [WithValidationFunc (must_be_at_least lo)]) \<in> set config_table"
    and "CHR ''%'' \<notin> set d" and "strconv_Atoi d = Some k" and "lo \<le> k"
  shows "lo \<le> GetInt64 (conf_value (initConfigurations h) n)"
proof -
  have "conf_value (initConfigurations h) n = NewDynamicVar_string d \<or>
      (\<exists>cd. NotMappedValue cd = conf_value (initConfigurations h) n \<and> must_be_at_least lo cd = None)"
    using config_item(1) [of n _ names d "[must_be_at_least lo]" h, OF _ refl] assms(1,2) by auto
  then show ?thesis
    using assms(3,4) by (auto simp: must_be_at_least_def GetInte_def GetInt64_def GetInt64e_def split: option.splits if_splits)
qed

text \<open>A configured 0 is refused where at least 1 is asked for.\<close>

lemma config_zero:
  assumes "(n, conf_options names d @ [WithValidationFunc (must_be_at_least 1)]) \<in> set config_table"
    and "CHR ''%'' \<notin> set d" and "GetString (configured h names d) = ''0''"
  shows "conf_value (initConfigurations h) n = NewDynamicVar_string d"
proof -
  have "strconv_Atoi ''0'' = Some 0" by code_simp
  then have "must_be_at_least 1 cd \<noteq> None" if "NotMappedValue cd = configured h names d" for cd
    using that assms(3) by (simp add: must_be_at_least_def GetInte_def GetInt64e_def GetString_def)
  then show ?thesis
    using config_item(1) [of n _ names d "[must_be_at_least 1]" h, OF _ refl] assms(1,2) by (auto simp del: not_None_eq)
qed

lemma config_port:
  assumes "(n, conf_options names d @ [WithValidationFunc must_be_port]) \<in> set config_table"
    and "CHR ''%'' \<notin> set d" and "strconv_Atoi d = Some k" and "1 \<le> k" and "k \<le> 65535"
  shows "GetInt (conf_value (initConfigurations h) n) \<in> {1..65535}"
proof -
  have "conf_value (initConfigurations h) n = NewDynamicVar_string d \<or>
      (\<exists>cd. NotMappedValue cd = conf_value (initConfigurations h) n \<and> must_be_port cd = None)"
    using config_item(1) [of n _ names d "[must_be_port]" h, OF _ refl] assms(1,2) by auto
  then show ?thesis
    using assms(3-5) by (auto simp: must_be_port_def GetInte_def GetInt_def split: option.splits if_splits)
qed

lemma default_numbers:
  "strconv_Atoi ''255'' = Some 255" "strconv_Atoi ''64'' = Some 64" "strconv_Atoi ''1048576'' = Some 1048576"
  "strconv_Atoi ''60000'' = Some 60000" "strconv_Atoi ''5024'' = Some 5024" "strconv_Atoi ''5025'' = Some 5025" "strconv_Atoi ''5032'' = Some 5032"
  by (simp_all add: strconv_Atoi_def digit_val_def int64_range_def Let_def)

section \<open>The parameters\<close>

definition parameter_names :: "string list" where
  "parameter_names = concat (map (\<lambda>(n, opts). PossibleNames (NewConfItem n opts)) config_table)"

lemma distinct_items_create: "distinct (map fst (items c)) \<Longrightarrow> distinct (map fst (items (create_all table c)))"
proof (induction table arbitrary: c)
  case (Cons e table)
  obtain n opts where "e = (n, opts)" by (cases e)
  moreover have "distinct (map fst (items (snd (CreateConfig n opts c))))"
    using Cons.prems by (auto simp: CreateConfig_def Let_def distinct_update split: option.splits)
  ultimately show ?case using Cons.IH by simp
qed simp

lemma table_items:
  "(\<exists>(n, i) \<in> set (items (initConfigurations h)). x \<in> set (PossibleNames i)) \<longleftrightarrow> x \<in> set parameter_names"
proof -
  let ?items = "items (initConfigurations h)"
  have new: "items (initial_confs h) = []" by (simp add: initial_confs_def AddPlaceHolders_def NewConfs_def)
  then have d: "distinct (map fst ?items)" unfolding initConfigurations_def by (intro distinct_items_create) simp
  have at: "\<exists>i. map_of ?items n = Some i \<and> PossibleNames i = PossibleNames (NewConfItem n opts)" if "(n, opts) \<in> set config_table" for n opts
    using create_all_item [OF config_table_distinct that, of "initial_confs h"] new unfolding initConfigurations_def
    by (metis CreateConfig_fields(3) map_of.simps(1))
  have only: "n \<in> fst ` set config_table" if "(n, i) \<in> set ?items" for n i
    using that create_all_frame [of config_table "initial_confs h" n] new d unfolding initConfigurations_def by fastforce
  show ?thesis
  proof
    assume "\<exists>(n, i) \<in> set ?items. x \<in> set (PossibleNames i)"
    then obtain n i where i: "(n, i) \<in> set ?items" "x \<in> set (PossibleNames i)" by auto
    then obtain opts where o: "(n, opts) \<in> set config_table" using only by force
    then have "PossibleNames i = PossibleNames (NewConfItem n opts)" using at [OF o] i(1) d by auto
    then show "x \<in> set parameter_names" using i(2) o by (auto simp: parameter_names_def)
  next
    assume "x \<in> set parameter_names"
    then obtain n opts where "(n, opts) \<in> set config_table" "x \<in> set (PossibleNames (NewConfItem n opts))"
      by (auto simp: parameter_names_def)
    with at [of n opts] obtain i where "(n, i) \<in> set ?items" "x \<in> set (PossibleNames i)"
      by (metis map_of_SomeD)
    then show "\<exists>(n, i) \<in> set ?items. x \<in> set (PossibleNames i)" by blast
  qed
qed

lemma FindConfByParamName_known: "FindConfByParamName (initConfigurations h) x = None \<longleftrightarrow> x \<notin> set parameter_names"
  using table_items [of h x] by (auto simp: FindConfByParamName_def find_None_iff)

lemma start_server_iff:
  "start_server h zone rd1 rd2 \<noteq> None \<longleftrightarrow>
     (\<exists>f. os_OpenFile h (determineLogFile h) = Inr f) \<and> set (map argument_name (tl (os_Args h))) \<subseteq> set parameter_names"
  by (auto simp: start_server_def displayHelpOrVersion_def initLogger_def NewFileWriter_def detectInvalidArguments_def
      FindConfByParamName_known Let_def split: sum.splits if_splits)

section \<open>Properties\<close>

lemma valid_lengths:
  fixes h :: host and version :: string
  defines "c \<equiv> NewController (conf_value (initConfigurations h)) version"
  shows "1 \<le> maxKeyLength c" and "1 \<le> maxKeyWordLength c" and "1 \<le> maxValueSize c"
proof -
  have "1 \<le> GetInt64 (conf_value (initConfigurations h) ''maxKeyLength'')"
    by (rule config_at_least [OF _ _ default_numbers(1)]) (simp_all add: config_defs)
  moreover have "1 \<le> GetInt64 (conf_value (initConfigurations h) ''maxKeyWordLength'')"
    by (rule config_at_least [OF _ _ default_numbers(2)]) (simp_all add: config_defs)
  moreover have "1 \<le> GetInt64 (conf_value (initConfigurations h) ''maxValueSize'')"
    by (rule config_at_least [OF _ _ default_numbers(3)]) (simp_all add: config_defs)
  ultimately show "1 \<le> maxKeyLength c" and "1 \<le> maxKeyWordLength c" and "1 \<le> maxValueSize c"
    by (simp_all add: c_def NewController_def)
qed

text \<open>C27. Whatever the arguments, the environment and the configuration file say, the validation of the start leaves the
  controller with maximal lengths of keys, of their components and of values of at least 1, a positive time to wait for a
  client, a dump interval that is not negative, and ports between 1 and 65535. In particular a limit of 0, which the
  comments of \<open>main.go\<close> describe as no limit, cannot be configured: the default is used instead. The interval is checked
  in milliseconds only; its product in nanoseconds may still wrap around.\<close>

theorem started_with_valid_limits:
  "let conf = conf_value (initConfigurations h); c = NewController conf version
   in 1 \<le> maxKeyLength c \<and> 1 \<le> maxKeyWordLength c \<and> 1 \<le> maxValueSize c \<and> 0 < maxTimeWaitingClientSecond c \<and>
      0 \<le> GetInt64 (conf ''RamCacheDbDumpIntervalMs'') \<and>
      GetInt (conf ''httpApiPort'') \<in> {1..65535} \<and> GetInt (conf ''httpApiHttpsPort'') \<in> {1..65535} \<and>
      GetInt (conf ''vstpApiPort'') \<in> {1..65535} \<and>
      (GetString (configured h [''max-key-word-length'', ''--max-key-word-length'', ''VSS_MAX_KEY_WORD_LENGTH''] ''64'') = ''0'' \<longrightarrow>
        maxKeyWordLength c = 64) \<and>
      (GetString (configured h [''max-value-size'', ''--max-value-size'', ''VSS_MAX_VALUE_SIZE''] ''1048576'') = ''0'' \<longrightarrow>
        maxValueSize c = 1048576)"
proof -
  have "0 \<le> GetInt64 (conf_value (initConfigurations h) ''RamCacheDbDumpIntervalMs'')"
    by (rule config_at_least [OF _ _ default_numbers(4)]) (simp_all add: config_defs)
  moreover have "GetInt (conf_value (initConfigurations h) ''httpApiPort'') \<in> {1..65535}"
    by (rule config_port [OF _ _ default_numbers(5)]) (simp_all add: config_defs)
  moreover have "GetInt (conf_value (initConfigurations h) ''httpApiHttpsPort'') \<in> {1..65535}"
    by (rule config_port [OF _ _ default_numbers(6)]) (simp_all add: config_defs)
  moreover have "GetInt (conf_value (initConfigurations h) ''vstpApiPort'') \<in> {1..65535}"
    by (rule config_port [OF _ _ default_numbers(7)]) (simp_all add: config_defs)
  moreover have "conf_value (initConfigurations h) ''maxKeyWordLength'' = NewDynamicVar_string ''64''"
    if "GetString (configured h [''max-key-word-length'', ''--max-key-word-length'', ''VSS_MAX_KEY_WORD_LENGTH''] ''64'') = ''0''"
    by (rule config_zero [OF _ _ that]) (simp_all add: config_defs)
  moreover have "conf_value (initConfigurations h) ''maxValueSize'' = NewDynamicVar_string ''1048576''"
    if "GetString (configured h [''max-value-size'', ''--max-value-size'', ''VSS_MAX_VALUE_SIZE''] ''1048576'') = ''0''"
    by (rule config_zero [OF _ _ that]) (simp_all add: config_defs)
  ultimately show ?thesis using valid_lengths [of h version] default_numbers(2,3)
    by (auto simp: NewController_def Let_def GetInt64_def GetInt64e_def)
qed

text \<open>The start succeeds exactly when the log file can be opened and every argument, cut at its first separator,
  is the name of a parameter. The documented form with the value as an argument of its own is therefore refused,
  as the value is no name.\<close>

theorem starts_iff_arguments_known:
  "start_server h zone rd1 rd2 \<noteq> None \<longleftrightarrow>
     (\<exists>f. os_OpenFile h (determineLogFile h) = Inr f) \<and> set (map argument_name (tl (os_Args h))) \<subseteq> set parameter_names"
  by (rule start_server_iff)

definition demo_host :: "string list \<Rightarrow> host" where
  "demo_host args = \<lparr>os_Args = ''vss'' # args, os_Getenv = (\<lambda>_. []), os_ReadText = (\<lambda>_. None), os_OpenFile = (\<lambda>_. Inr []),
     os_Executable = ''/usr/bin/vss'',
     os_Getwd = None, filepath_Dir = (\<lambda>_. ''/usr/bin''), filepath_Join = (\<lambda>_. []), filepath_Rel = (\<lambda>_ _. None)\<rparr>"

lemma parameter_names_conf:
  "set parameter_names = (\<Union>(n, opts) \<in> set config_table. set (PossibleNames (NewConfItem n opts)))"
  by (auto simp: parameter_names_def)

theorem started_with_valid_limits_witness:
  "maxKeyWordLength (NewController (conf_value (initConfigurations (demo_host [''--max-key-word-length=0'']))) ''2.0.0'') = 64"
proof -
  let ?h = "demo_host [''--max-key-word-length=0'']"
  let ?names = "[''max-key-word-length'', ''--max-key-word-length'', ''VSS_MAX_KEY_WORD_LENGTH'']"
  have "first_found (conf_sources (initial_confs ?h)) ?names =
    Some (NewDynamicVar_string ''0'', ''--max-key-word-length'', ''Command Line Arguments'')"
    by (simp add: initial_confs_def AddPlaceHolders_def NewConfs_def demo_host_def NewCommandLineSource_def cut_at_def
        underscored_def strings_ReplaceByte_def)
  then have "GetString (configured ?h ?names ''64'') = ''0''"
    using resolve_initial [of "''0''" "initial_confs ?h" ?h] by (simp add: configured_def)
  then show ?thesis using started_with_valid_limits [of ?h "''2.0.0''"] by (simp add: Let_def)
qed

theorem starts_iff_arguments_known_witness:
  "start_server (demo_host [''--vstp-api-port'', ''5032'']) 0 FileNotExist FileNotExist = None \<and>
   start_server (demo_host [''--vstp-api-port=5032'']) 0 FileNotExist FileNotExist \<noteq> None"
proof -
  have "''--vstp-api-port'' \<in> set parameter_names" "''5032'' \<notin> set parameter_names"
    by (simp_all add: parameter_names_conf config_defs NewConfItem_def conf_options_def WithValueMap_def AddValueMap_def)
  moreover have "argument_name ''--vstp-api-port=5032'' = ''--vstp-api-port''" "argument_name ''5032'' = ''5032''"
    by (simp_all add: argument_name_def cut_at_def)
  moreover have "tl (os_Args (demo_host args)) = args" "os_OpenFile (demo_host args) f = Inr []" for args f by (simp_all add: demo_host_def)
  ultimately show ?thesis
    using starts_iff_arguments_known [of "demo_host [''--vstp-api-port'', ''5032'']" 0 FileNotExist FileNotExist]
      starts_iff_arguments_known [of "demo_host [''--vstp-api-port=5032'']" 0 FileNotExist FileNotExist]
    by (simp del: not_None_eq)
qed



text \<open>The names at the beginning of the lines of the help.\<close>

definition documented_name :: "string \<Rightarrow> string option" where
  "documented_name line =
     (let name = takeWhile (\<lambda>c. c \<noteq> CHR '' '') (dropWhile (\<lambda>c. c = CHR '' '') line)
      in if strings_HasPrefix name ''--'' \<or> strings_HasPrefix name ''VSS_'' then Some name else None)"

lemma parameter_names_list:
  "parameter_names =
     [''max-log-file-size'', ''--max-log-file-size'', ''VSS_MAX_LOG_FILE_SIZE'', ''file-log-level'', ''--file-log-level'', ''VSS_FILE_LOG_LEVEL'',
      ''stdout-log-level'', ''--stdout-log-level'', ''VSS_STDOUT_LOG_LEVEL'',
      ''server-discovery-port'', ''--server-discovery-port'', ''VSS_SERVER_DISCOVERY_PORT'',
      ''max-time-waiting-client-seconds'', ''--max-time-waiting-for-clients'', ''VSS_MAX_TIME_WAITING_CLIENTS'',
      ''db-directory'', ''--db-directory'', ''VSS_DB_DIRECTORY'',
      ''http-data-directory'', ''--http-data-directory'', ''--http-data-dir'', ''VSS_HTTP_DATA_DIRECTORY'',
      ''http-api-port'', ''--http-api-port'', ''VSS_HTTP_API_PORT'', ''http-api-https-port'', ''--http-api-https-port'', ''VSS_HTTP_API_HTTPS_PORT'',
      ''http-api-cert-file'', ''--http-api-cert-file'', ''VSS_HTTP_API_CERT_FILE'', ''http-api-key-file'', ''--http-api-key-file'', ''VSS_HTTP_API_KEY_FILE'',
      ''http-api-returns-full-paths'', ''--http-api-returns-full-paths'', ''VSS_HTTP_API_RETURN_FULL_PATHS'',
      ''vstp-api-port'', ''--vstp-api-port'', ''VSS_VSTP_API_PORT'',
      ''ram-cache-db-dump-interval-ms'', ''--ram-cache-db-dump-interval-ms'', ''VSS_RAMCACHEDB_DUMP_INTERVAL_MS'',
      ''max-key-length'', ''--max-key-length'', ''VSS_MAX_KEY_LENGTH'', ''max-key-word-length'', ''--max-key-word-length'', ''VSS_MAX_KEY_WORD_LENGTH'',
      ''max-value-size'', ''--max-value-size'', ''VSS_MAX_VALUE_SIZE'', ''allow-raw-db-access'', ''--allow-raw-db-access'', ''VSS_ALLOW_RAW_DB_ACCESS'']"
  by (simp add: parameter_names_def config_defs NewConfItem_def conf_options_def WithValueMap_def AddValueMap_def)

text \<open>The names that the help documents and the server does not know: the option \<open>--version\<close>, which prints the
  version and then stops the start as unknown, the folder of the HTTP data under a wrong name, and the wrong name
  of the environment variable for the dump interval.\<close>

theorem documented_but_unknown:
  "filter (\<lambda>n. n \<notin> set parameter_names) (List.map_filter documented_name (help_options @ help_environment)) =
     [''--version'', ''--http-data-folder'', ''VSS_HTTP_DATA_FOLDER'', ''VSS_RAM_CACHE_DB_DUMP_INTERVAL_MS'']"
  unfolding parameter_names_list by code_simp

end
