(* ===== verification/Terminal.thy ===== *)
theory Terminal
  imports Misc "HOL-Library.Signed_Division"
begin

text \<open>
  The terminal helpers of \<open>misc.go\<close> and the random names of \<open>namer.go\<close>. The loops that fill or cut a line end only
  for some widths and fillers, so they are partial functions: \<open>None\<close> when they never return, \<open>Inl\<close> when they panic.
  The terminal is the parameter \<open>tty\<close>: its size as the operating system reports it, and the output of \<open>tput\<close>.
\<close>

section \<open>The size of the terminal\<close>

record tty =
  term_GetSize :: "(int \<times> int) option"
  exec_Output :: "string \<Rightarrow> string list \<Rightarrow> string option"

definition executeCommandAndGetOutput :: "tty \<Rightarrow> string \<Rightarrow> string list \<Rightarrow> string option" where
  "executeCommandAndGetOutput t command args = map_option strings_TrimSpace (exec_Output t command args)"

text \<open>\<open>Sscanf\<close> with \<open>%d\<close> on a text without leading space: a sign and the digits up to the first other character.\<close>

definition Sscanf_d :: "string \<Rightarrow> int option" where
  "Sscanf_d s =
     (let n = (if s \<noteq> [] \<and> hd s \<in> {CHR ''+'', CHR ''-''} then 1 else 0)
      in strconv_Atoi (take n s @ takeWhile (\<lambda>c. digit_val c \<noteq> None) (drop n s)))"

text \<open>Width and height, and whether there was an error.\<close>

definition getTerminalSize_tput :: "tty \<Rightarrow> (int \<times> int) \<times> bool" where
  "getTerminalSize_tput t =
     (case executeCommandAndGetOutput t ''tput'' [''cols''] of
        None \<Rightarrow> ((100, 24), True)
      | Some outWidth \<Rightarrow>
     (case executeCommandAndGetOutput t ''tput'' [''lines''] of
        None \<Rightarrow> ((100, 24), True)
      | Some outHeight \<Rightarrow>
     (case Sscanf_d outWidth of
        None \<Rightarrow> ((100, 24), True)
      | Some w \<Rightarrow>
     (case Sscanf_d outHeight of
        None \<Rightarrow> ((100, 24), True)
      | Some h \<Rightarrow> ((w, h), False)))))"

definition getTerminalSize :: "tty \<Rightarrow> (int \<times> int) \<times> bool" where
  "getTerminalSize t = (case term_GetSize t of Some wh \<Rightarrow> (wh, False) | None \<Rightarrow> getTerminalSize_tput t)"

definition terminal_width :: "tty \<Rightarrow> int" where
  "terminal_width t = (let ((width, _), err) = getTerminalSize t in if err then 100 else width)"

section \<open>Separators\<close>

type_synonym 'a run = "(string + 'a) option"

text \<open>The loop \<open>for len(line) < width { line += charToUse }\<close>.\<close>

partial_function (option) fill :: "int \<Rightarrow> string \<Rightarrow> string \<Rightarrow> string option" where
  "fill width charToUse line = (if int (length line) < width then fill width charToUse (line @ charToUse) else Some line)"

definition slice_bounds :: string where
  "slice_bounds = ''slice bounds out of range''"

text \<open>\<open>line[:width]\<close> and \<open>text[width:]\<close>.\<close>

definition slice_to :: "string \<Rightarrow> int \<Rightarrow> string + string" where
  "slice_to s n = (if 0 \<le> n \<and> n \<le> int (length s) then Inr (take (nat n) s) else Inl slice_bounds)"

definition slice_from :: "string \<Rightarrow> int \<Rightarrow> string + string" where
  "slice_from s n = (if 0 \<le> n \<and> n \<le> int (length s) then Inr (drop (nat n) s) else Inl slice_bounds)"

definition CreateTermSeparator :: "int \<Rightarrow> string \<Rightarrow> string \<Rightarrow> string run" where
  "CreateTermSeparator terminalSize charToUse centralText =
     (let width = terminalSize;
          line = (if centralText = [] then fill width charToUse []
                  else Option.bind (fill ((width - int (length centralText)) sdiv 2) charToUse [])
                         (\<lambda>line. fill width charToUse (line @ centralText)))
      in map_option (\<lambda>line. if width < int (length line) then slice_to line width else Inr line) line)"

definition CreateTerminalSeparatorForCurrentTerminal :: "tty \<Rightarrow> string \<Rightarrow> string \<Rightarrow> string run" where
  "CreateTerminalSeparatorForCurrentTerminal t charToUse centralText = CreateTermSeparator (terminal_width t) charToUse centralText"

text \<open>What is written to the standard output.\<close>

definition PrintTerminalSeparator :: "tty \<Rightarrow> string \<Rightarrow> string \<Rightarrow> string run" where
  "PrintTerminalSeparator t charToUse centralText =
     map_option (map_sum id (\<lambda>sep. sep @ [CHR 10])) (CreateTerminalSeparatorForCurrentTerminal t charToUse centralText)"

text \<open>The loop of \<open>PrintAtCenterOfTerminal\<close>, with what it has written so far. \<open>strings.Repeat\<close> would panic for a negative
  count, which the branch excludes.\<close>

partial_function (option) print_centred :: "int \<Rightarrow> string \<Rightarrow> string \<Rightarrow> string run" where
  "print_centred width text out =
     (if width \<le> int (length text)
      then case slice_from text width of
             Inl err \<Rightarrow> Some (Inl err)
           | Inr rest \<Rightarrow> print_centred width rest (out @ text @ [CHR 10])
      else Some (Inr (out @ replicate (nat ((width - int (length text)) sdiv 2)) CHR '' '' @ text @ [CHR 10])))"

definition PrintAtCenterOfTerminal :: "tty \<Rightarrow> string \<Rightarrow> string run" where
  "PrintAtCenterOfTerminal t text = print_centred (terminal_width t) text []"

section \<open>Random names\<close>

text \<open>\<open>intn i n\<close> is what the \<open>i\<close>-th call of \<open>rand.Intn(n)\<close> returns. The word lists of the source are arguments.\<close>

type_synonym random = "nat \<Rightarrow> nat \<Rightarrow> nat"

definition picks :: "random \<Rightarrow> nat \<Rightarrow> string list \<Rightarrow> nat \<Rightarrow> string list" where
  "picks intn k wds n = map (\<lambda>i. wds ! intn (k + i) (length wds)) [0..<n]"

definition CreateHumanLikeName :: "random \<Rightarrow> string list \<Rightarrow> string list \<Rightarrow> int \<Rightarrow> int \<Rightarrow> string" where
  "CreateHumanLikeName intn names surnames numnames numsurnames =
     strings_Join (picks intn 0 names (nat numnames) @ picks intn (nat numnames) surnames (nat numsurnames)) '' ''"

definition CreateFunName :: "random \<Rightarrow> string list \<Rightarrow> string list \<Rightarrow> int \<Rightarrow> int \<Rightarrow> string" where
  "CreateFunName intn adjectives funwords numadjectives funnames =
     strings_Join (picks intn 0 adjectives (nat numadjectives) @ picks intn (nat numadjectives) funwords (nat funnames)) '' ''"

definition consoants :: string where
  "consoants = ''bcdfghjklmnpqrstvwxz''"

definition vogals :: string where
  "vogals = ''aeiouy''"

fun syllable_word :: "random \<Rightarrow> nat \<Rightarrow> nat \<Rightarrow> string" where
  "syllable_word intn k 0 = []"
| "syllable_word intn k (Suc n) =
     consoants ! intn k (length consoants) # vogals ! intn (Suc k) (length vogals) # syllable_word intn (k + 2) n"

fun algorithmic_parts :: "random \<Rightarrow> nat \<Rightarrow> int list \<Rightarrow> string list" where
  "algorithmic_parts intn k [] = []"
| "algorithmic_parts intn k (syllables # rest) =
     syllable_word intn k (nat syllables) # algorithmic_parts intn (k + 2 * nat syllables) rest"

definition CreateAlgorithmicName :: "random \<Rightarrow> int list \<Rightarrow> string" where
  "CreateAlgorithmicName intn syllablecount = strings_Join (algorithmic_parts intn 0 syllablecount) '' ''"

lemma picks_in:
  assumes "\<And>i n. 0 < n \<Longrightarrow> intn i n < n" and "wds \<noteq> []"
  shows "set (picks intn k wds n) \<subseteq> set wds"
  using assms by (auto simp: picks_def intro!: nth_mem)

lemma set_strings_Join: "set (strings_Join xs sep) \<subseteq> (\<Union>x \<in> set xs. set x) \<union> set sep"
  by (induction xs sep rule: strings_Join.induct) auto

text \<open>A fun name consists of the letters of its words and spaces, and never breaks a line of the protocol.\<close>

lemma CreateFunName_chars:
  assumes "\<And>i n. 0 < n \<Longrightarrow> intn i n < n" and "adjectives \<noteq> []" and "funwords \<noteq> []"
  shows "set (CreateFunName intn adjectives funwords n k) \<subseteq> (\<Union>x \<in> set adjectives \<union> set funwords. set x) \<union> {CHR '' ''}"
  using set_strings_Join [of "picks intn 0 adjectives (nat n) @ picks intn (nat n) funwords (nat k)" "'' ''"]
    picks_in [where k = 0 and n = "nat n", OF assms(1,2)] picks_in [where k = "nat n" and n = "nat k", OF assms(1,3)]
  unfolding CreateFunName_def by fastforce

lemma length_syllable_word: "length (syllable_word intn k n) = 2 * n"
  by (induction n arbitrary: k) auto

section \<open>Filling a line\<close>

text \<open>How many fillers a line of \<open>len\<close> characters needs to reach \<open>width\<close>.\<close>

definition fillers :: "int \<Rightarrow> nat \<Rightarrow> nat \<Rightarrow> nat" where
  "fillers width n len = (nat width - len + n - 1) div n"

lemma fill_returns:
  assumes "charToUse \<noteq> []"
  shows "fill width charToUse line =
    Some (line @ concat (replicate (fillers width (length charToUse) (length line)) charToUse))"
proof (induction "nat (width - int (length line))" arbitrary: line rule: less_induct)
  case less
  let ?c = "length charToUse"
  have c: "0 < ?c" using assms by simp
  show ?case
  proof (cases "int (length line) < width")
    case True
    let ?r = "nat width - length line"
    have r: "0 < ?r" using True by simp
    have "fillers width ?c (length line) = Suc (fillers width ?c (length (line @ charToUse)))"
    proof (cases "?c \<le> ?r")
      case le: True
      have "?r + ?c - 1 = (nat width - length (line @ charToUse) + ?c - 1) + ?c"
        using c le by simp
      then show ?thesis unfolding fillers_def using c by (metis Suc_eq_plus1 div_add_self2 less_numeral_extra(3))
    next
      case False
      then have "nat width - length (line @ charToUse) = 0" by simp
      moreover have "(?r + ?c - 1) div ?c = 1"
        using r False c by (intro div_nat_eqI) auto
      ultimately show ?thesis using c by (simp add: fillers_def)
    qed
    moreover have "fill width charToUse (line @ charToUse) =
        Some ((line @ charToUse) @ concat (replicate (fillers width ?c (length (line @ charToUse))) charToUse))"
      using True c by (intro less) simp
    ultimately show ?thesis using True by (subst fill.simps) simp
  next
    case False
    then have "nat width - length line = 0" by simp
    then have "fillers width ?c (length line) = 0" using c by (simp add: fillers_def)
    with False show ?thesis by (subst fill.simps) simp
  qed
qed

lemma fill_empty_filler:
  assumes "fill width charToUse line = Some r" and "charToUse = []"
  shows "width \<le> int (length line)"
  using fill.raw_induct [where P = "\<lambda>w c l r. c = [] \<longrightarrow> w \<le> int (length l)", OF _ assms(1)] assms(2)
  by (metis append_Nil2 linorder_not_less)

lemma fillers_enough: "0 < c \<Longrightarrow> nat width \<le> len + fillers width c len * c"
proof -
  assume c: "0 < c"
  have "nat width - len \<le> ((nat width - len + c - 1) div c) * c"
    using c div_mult_mod_eq [of "nat width - len + c - 1" c] mod_less_divisor [OF c, of "nat width - len + c - 1"] by linarith
  then show ?thesis by (simp add: fillers_def)
qed

lemma fillers_one [simp]: "fillers width (Suc 0) len = nat width - len"
  by (simp add: fillers_def)

lemma concat_replicate_single: "concat (replicate n [c]) = replicate n c"
  by (induction n) auto

lemma length_concat_replicate: "length (concat (replicate n c)) = n * length c"
  by (induction n) auto

lemma separator_length:
  assumes "charToUse \<noteq> []" and "0 \<le> width"
  obtains line where "CreateTermSeparator width charToUse centralText = Some (Inr line)" and "int (length line) = width"
proof -
  have long: "\<exists>l. fill width charToUse s = Some l \<and> width \<le> int (length l)" for s
    using fill_returns [OF assms(1), of width s] fillers_enough [of "length charToUse" width "length s"] assms(1)
    by (auto simp: length_concat_replicate nat_le_iff simp del: length_concat)
  have "\<exists>l. (if centralText = [] then fill width charToUse []
      else Option.bind (fill ((width - int (length centralText)) sdiv 2) charToUse []) (\<lambda>line. fill width charToUse (line @ centralText))) = Some l
      \<and> width \<le> int (length l)"
    using long fill_returns [OF assms(1), of "(width - int (length centralText)) sdiv 2" "[]"] by auto
  then obtain l where "CreateTermSeparator width charToUse centralText =
      Some (if width < int (length l) then slice_to l width else Inr l)" and l: "width \<le> int (length l)"
    by (auto simp: CreateTermSeparator_def Let_def)
  then show thesis using that assms(2) by (cases "width < int (length l)") (auto simp: slice_to_def)
qed

lemma sdiv_2: "0 \<le> a \<Longrightarrow> a sdiv 2 = a div (2 :: int)"
  by (cases "a = 0") (simp_all add: signed_divide_int_def)

lemma separator_centred:
  assumes "centralText \<noteq> []" and "int (length centralText) \<le> width"
  defines "left \<equiv> nat ((width - int (length centralText)) div 2)"
  shows "CreateTermSeparator width [c] centralText =
    Some (Inr (replicate left c @ centralText @ replicate (nat width - left - length centralText) c))"
proof -
  have "(width - int (length centralText)) sdiv 2 = (width - int (length centralText)) div 2"
    using assms(2) by (simp add: sdiv_2)
  moreover have "fill w [c] s = Some (s @ replicate (nat w - length s) c)" for w s
    by (simp add: fill_returns concat_replicate_single)
  moreover have "left + length centralText \<le> nat width" using assms(2) by (auto simp: left_def)
  ultimately show ?thesis
    using assms(1,2) by (simp add: CreateTermSeparator_def left_def Let_def)
qed

lemma separator_negative:
  assumes "charToUse \<noteq> []" and "width < 0"
  shows "CreateTermSeparator width charToUse centralText = Some (Inl slice_bounds)"
proof -
  have neg: "\<not> 0 \<le> width" and "width < int k" for k using assms(2) by auto
  then show ?thesis by (simp add: CreateTermSeparator_def fill_returns [OF assms(1)] slice_to_def Let_def neg del: length_append)
qed

lemma separator_empty_filler: "0 < width \<Longrightarrow> CreateTermSeparator width [] [] = None"
  using fill_empty_filler [of width "[]" "[]"] by (cases "fill width [] []") (auto simp: CreateTermSeparator_def)

section \<open>Centred text\<close>

text \<open>The tails of a text at the multiples of the width that fit.\<close>

fun tails_at :: "nat \<Rightarrow> nat \<Rightarrow> string \<Rightarrow> string list" where
  "tails_at w 0 text = []"
| "tails_at w (Suc n) text = text # tails_at w n (drop w text)"

lemma print_centred_returns:
  assumes "0 < width"
  shows "print_centred width s out =
    Some (Inr (out @ concat (map (\<lambda>l. l @ [CHR 10]) (tails_at (nat width) (length s div nat width) s)) @
      replicate (nat ((width - int (length s) mod width) div 2)) CHR '' '' @ drop (length s div nat width * nat width) s @ [CHR 10]))"
proof (induction "length s" arbitrary: s out rule: less_induct)
  case less
  obtain w where w: "width = int w" "0 < w" using assms by (metis nat_0_less_mult_iff zero_less_imp_eq_int)
  show ?case
  proof (cases "w \<le> length s")
    case True
    have "length s div w = Suc (length (drop w s) div w)"
      using True w(2) by (simp add: le_div_geq)
    moreover have "int (length s) mod width = int (length (drop w s)) mod width"
      using True w by (metis le_mod_geq length_drop zmod_int)
    ultimately show ?thesis
      using True w less [of "drop w s" "out @ s @ [CHR 10]"]
      by (subst print_centred.simps) (simp add: slice_from_def drop_drop add.commute)
  next
    case False
    then show ?thesis using w
      by (subst print_centred.simps) (simp add: sdiv_2)
  qed
qed

lemma print_centred_width_0: "print_centred 0 s out = None"
proof (rule ccontr)
  assume "print_centred 0 s out \<noteq> None"
  then obtain r where r: "print_centred 0 s out = Some r" by auto
  have "0 \<le> (0 :: int) \<longrightarrow> 0 < (0 :: int)"
  proof (rule print_centred.raw_induct [where P = "\<lambda>w t out r. 0 \<le> w \<longrightarrow> 0 < w", OF _ r])
    fix f w t out r
    assume "\<And>w t out r. f w t out = Some r \<Longrightarrow> 0 \<le> w \<longrightarrow> 0 < w"
      and "(if w \<le> int (length t)
            then case slice_from t w of Inl err \<Rightarrow> Some (Inl err) | Inr rest \<Rightarrow> f w rest (out @ t @ [CHR 10])
            else Some (Inr (out @ replicate (nat ((w - int (length t)) sdiv 2)) CHR '' '' @ t @ [CHR 10]))) = Some r"
    then show "0 \<le> w \<longrightarrow> 0 < w" by (cases "w \<le> int (length t)") (auto simp: slice_from_def)
  qed
  then show False by simp
qed

section \<open>Properties\<close>

text \<open>A separator line is made for every terminal: with a filler that is not empty the loops end and the line is
  exactly as wide as the terminal; with a filler of one character and a text that fits, the text stands in the
  middle. With an empty filler the loop never ends, and for a negative width the code panics.\<close>

theorem separator_spans_terminal:
  shows "charToUse \<noteq> [] \<Longrightarrow> 0 \<le> width \<Longrightarrow>
      \<exists>line. CreateTermSeparator width charToUse centralText = Some (Inr line) \<and> int (length line) = width"
    and "centralText \<noteq> [] \<Longrightarrow> int (length centralText) \<le> width \<Longrightarrow>
      \<exists>l r. CreateTermSeparator width [c] centralText = Some (Inr (replicate l c @ centralText @ replicate r c)) \<and> l \<le> r \<and> r \<le> l + 1"
    and "0 < width \<Longrightarrow> CreateTermSeparator width [] [] = None"
proof -
  show "charToUse \<noteq> [] \<Longrightarrow> 0 \<le> width \<Longrightarrow>
      \<exists>line. CreateTermSeparator width charToUse centralText = Some (Inr line) \<and> int (length line) = width"
    using separator_length by metis
  show "centralText \<noteq> [] \<Longrightarrow> int (length centralText) \<le> width \<Longrightarrow>
      \<exists>l r. CreateTermSeparator width [c] centralText = Some (Inr (replicate l c @ centralText @ replicate r c)) \<and> l \<le> r \<and> r \<le> l + 1"
    using separator_centred [of centralText width c] by (intro exI conjI) (assumption, auto)
qed (rule separator_empty_filler)

text \<open>A text as wide as the terminal or wider is not cut into lines: each turn of the loop prints all that is left of
  it, so its parts are printed again and again. On a terminal of width 0 the loop never ends.\<close>

theorem centred_text_is_repeated:
  "term_GetSize t = Some (3, h) \<Longrightarrow>
     PrintAtCenterOfTerminal t ''abcdefg'' = Some (Inr (''abcdefg'' @ [CHR 10] @ ''defg'' @ [CHR 10] @ '' g'' @ [CHR 10]))"
  "term_GetSize t = Some (0, h) \<Longrightarrow> PrintAtCenterOfTerminal t text = None"
  by (simp_all add: PrintAtCenterOfTerminal_def terminal_width_def getTerminalSize_def print_centred_returns print_centred_width_0
      numeral_2_eq_2)

end
