(* ===== verification/Server.thy ===== *)
theory Server
  imports Startup TcpServer HttpApi Terminal
begin

text \<open>
  The function \<open>main\<close> as a whole: the start of \<open>Startup\<close>, the two APIs with their registration, and the notice about raw
  access. The network is the parameter \<open>listen\<close>, the error of \<open>net.Listen\<close> on an address.
\<close>

section \<open>The main function\<close>

record 'f environment =
  en_computer :: host
  en_zone :: int
  en_first_read :: read_result
  en_second_read :: read_result
  en_listen :: "string \<times> string \<Rightarrow> string option"
  en_sendOk :: "conn \<Rightarrow> bool"
  en_writeOk :: "ws_conn \<Rightarrow> bool"
  en_lib :: "'f go_lib"
  en_terminal :: tty

record server =
  sv_configs :: Confs
  sv_database :: RamCacheDB
  sv_controller :: TheController
  sv_vstpApi :: VSTP
  sv_httpApi :: HttpAPI
  sv_mainLog :: "log_writer Logger"
  sv_notice :: "string option"

text \<open>The notice: yellow text between two separators.\<close>

definition yellow :: "string \<Rightarrow> string" where
  "yellow s = CHR 27 # ''[33m'' @ s"

definition uncoloured :: string where
  "uncoloured = CHR 27 # ''[0m''"

definition raw_notice :: "tty \<Rightarrow> string run" where
  "raw_notice t =
     map_option (map_sum id (\<lambda>sep.
       [CHR 10, CHR 10] @ yellow [] @ sep @ uncoloured @
       yellow '' Warning: Raw database access is enabled.'' @ uncoloured @ [CHR 10] @
       yellow '' Warning:This may pose security risks if not properly managed.'' @ uncoloured @ [CHR 10] @
       yellow '' Warning: You should only use it for database maintenance and if you know the internal structures of VSS.'' @ uncoloured @ [CHR 10] @
       yellow '' Warning:Clients should not connect to the database when this option is enabled.'' @ uncoloured @ [CHR 10] @
       yellow [] @ sep @ uncoloured @ [CHR 10, CHR 10]))
     (PrintTerminalSeparator t ''-'' '' [ RAW DATABASE ACCESS NOTICE ] '')"

text \<open>The text of the notice, if raw access is open; the outer \<open>None\<close> is a panic while it is made.\<close>

definition notice_text :: "bool \<Rightarrow> tty \<Rightarrow> string option option" where
  "notice_text raw t =
     (if raw then case raw_notice t of Some (Inr s) \<Rightarrow> Some (Some s) | _ \<Rightarrow> None
      else Some None)"

text \<open>\<open>main\<close> up to the wait for a signal: \<open>None\<close> when it ends before, or when the goroutine of the dumper ends the process
  because its ticker panics. The controller is the one both APIs are registered with, and the APIs refer to it.\<close>

definition main :: "'f environment \<Rightarrow> server option" where
  "main e =
     (case start_server (en_computer e) (en_zone e) (en_first_read e) (en_second_read e) of
        None \<Rightarrow> None
      | Some (confs, l0, db, c) \<Rightarrow>
          let log = GetNamedLogger 0 ''Main'';
              l1 = nl_Info log [''Starting VSTP API ...''] (en_zone e) l0
          in if \<not> backgroundDumper_starts db then None
             else case start_VSTP (en_listen e) (en_sendOk e) (GetInt (conf_value confs ''vstpApiPort'')) (Some c) of
               Inr (v, Some c1) \<Rightarrow>
                 let l2 = nl_Info log [''Starting HTTP API ...''] (en_zone e) (nl_Info log [''...VSTP API started.''] (en_zone e) l1);
                     (h, c2) = http_New (en_lib e) (en_writeOk e) (Some c1);
                     l3 = nl_Info log [''...HTTP API started.''] (en_zone e) l2
                 in map_option (\<lambda>notice.
                      \<lparr>sv_configs = confs, sv_database = db, sv_controller = the c2, sv_vstpApi = v\<lparr>ctrl := c2\<rparr>, sv_httpApi = h\<lparr>h_ctrl := c2\<rparr>,
                       sv_mainLog = l3, sv_notice = notice\<rparr>)
                      (notice_text (GetBool (conf_value confs ''allowRawDbAccess'')) (en_terminal e))
             | _ \<Rightarrow> None)"

section \<open>Properties\<close>

lemma vstp_port_valid: "GetInt (conf_value (initConfigurations h) ''vstpApiPort'') \<in> {1..65535}"
  by (rule config_port [OF _ _ default_numbers(7)]) (simp_all add: config_defs)

lemma start_server_parts:
  assumes "start_server h zn rd1 rd2 = Some (confs, l, db, c)"
  shows "confs = initConfigurations h" and "db = initStorage confs rd1 rd2" and "c = NewController (conf_value confs) INFO_VERSION"
  using assms by (auto simp: start_server_def Let_def split: if_splits sum.splits)

definition vstp_address :: "host \<Rightarrow> string \<times> string" where
  "vstp_address h = (''tcp'', '':'' @ strconv_Itoa (GetInt (conf_value (initConfigurations h) ''vstpApiPort'')))"

text \<open>The interval of the dumper, its ticker, and the notice.\<close>

definition dump_interval :: "host \<Rightarrow> int" where
  "dump_interval h = GetInt (conf_value (initConfigurations h) ''RamCacheDbDumpIntervalMs'')"

lemma dumper_starts_iff:
  "backgroundDumper_starts (initStorage (initConfigurations h) rd1 rd2) \<longleftrightarrow> dump_interval h \<le> 0 \<or> 0 < dumper_period (dump_interval h)"
proof -
  have "dumpIntervalMs (fst (load rd r)) = dumpIntervalMs r" for rd r by (simp add: load_def split: read_result.split)
  moreover have "0 < dumper_period 300000" by (simp add: dumper_period_def wrap64_def)
  ultimately show ?thesis
    by (simp add: backgroundDumper_starts_def initStorage_def NewRamCacheDB_def dump_interval_def Let_def)
qed

text \<open>The notice is printed on a terminal with a width that is not negative, and panics on any other.\<close>

lemma raw_notice_iff: "(\<exists>s. raw_notice t = Some (Inr s)) \<longleftrightarrow> 0 \<le> terminal_width t"
proof (cases "0 \<le> terminal_width t")
  case True
  then obtain line where "CreateTermSeparator (terminal_width t) ''-'' '' [ RAW DATABASE ACCESS NOTICE ] '' = Some (Inr line)"
    using separator_length [of "''-''" "terminal_width t"] by (metis list.distinct(1))
  then show ?thesis
    using True by (simp add: raw_notice_def PrintTerminalSeparator_def CreateTerminalSeparatorForCurrentTerminal_def)
next
  case False
  then show ?thesis
    using separator_negative [of "''-''" "terminal_width t" "'' [ RAW DATABASE ACCESS NOTICE ] ''"]
    by (simp add: raw_notice_def PrintTerminalSeparator_def CreateTerminalSeparatorForCurrentTerminal_def)
qed

lemma notice_text_None: "notice_text raw t = None \<longleftrightarrow> raw \<and> terminal_width t < 0"
  using raw_notice_iff [of t] by (auto simp: notice_text_def split: option.splits sum.splits)

lemma main_None_iff:
  "main e = None \<longleftrightarrow> start_server (en_computer e) (en_zone e) (en_first_read e) (en_second_read e) = None \<or>
     \<not> (dump_interval (en_computer e) \<le> 0 \<or> 0 < dumper_period (dump_interval (en_computer e))) \<or>
     en_listen e (vstp_address (en_computer e)) \<noteq> None \<or>
     GetBool (conf_value (initConfigurations (en_computer e)) ''allowRawDbAccess'') \<and> terminal_width (en_terminal e) < 0"
proof (cases "start_server (en_computer e) (en_zone e) (en_first_read e) (en_second_read e)")
  case (Some s)
  obtain confs l0 db c where s: "s = (confs, l0, db, c)" by (metis prod.exhaust)
  note parts = start_server_parts [OF Some [unfolded s]]
  show ?thesis
    using Some s start_VSTP_outcome [OF vstp_port_valid [of "en_computer e"], of "en_listen e" "en_sendOk e"]
      notice_text_None [of "GetBool (conf_value confs ''allowRawDbAccess'')" "en_terminal e"]
      dumper_starts_iff [of "en_computer e" "en_first_read e" "en_second_read e"]
    by (auto simp: main_def vstp_address_def http_New_def Let_def parts(1,2) split: option.splits)
qed (simp add: main_def)

lemma main_server:
  assumes "main e = Some sv"
  obtains c0 where "sv_configs sv = initConfigurations (en_computer e)"
    and "c0 = NewController (conf_value (sv_configs sv)) INFO_VERSION"
    and "sv_database sv = initStorage (sv_configs sv) (en_first_read e) (en_second_read e)"
    and "sv_controller sv = c0\<lparr>apis := apis (sv_controller sv)\<rparr>"
    and "map fst (apis (sv_controller sv)) = [GetApiId, http_GetApiId]"
    and "ctrl (sv_vstpApi sv) = Some (sv_controller sv)" and "h_ctrl (sv_httpApi sv) = Some (sv_controller sv)"
    and "notice_text (allowRawDbAccess c0) (en_terminal e) = Some (sv_notice sv)"
proof -
  obtain confs l0 db c where st: "start_server (en_computer e) (en_zone e) (en_first_read e) (en_second_read e) = Some (confs, l0, db, c)"
    using assms by (auto simp: main_def split: option.splits)
  note parts = start_server_parts [OF st]
  have vs: "start_VSTP (en_listen e) (en_sendOk e) (GetInt (conf_value confs ''vstpApiPort'')) (Some c) =
      Inr (NewVSTP (Some c), Some (ApiStarted (vstp_api (en_sendOk e) (NewVSTP (Some c))) c))"
    using assms main_None_iff [of e] start_VSTP_outcome [OF vstp_port_valid [of "en_computer e"], of "en_listen e" "en_sendOk e" "Some c"]
    by (simp add: parts(1) vstp_address_def)
  let ?v = "NewVSTP (Some c)" and ?c1 = "ApiStarted (vstp_api (en_sendOk e) (NewVSTP (Some c))) c"
  let ?h = "\<lparr>h_ctrl = Some ?c1, h_clients = [], h_connToId = []\<rparr>"
  let ?c2 = "ApiStarted (http_api (en_lib e) (en_writeOk e) ?h) ?c1"
  have sv: "sv_configs sv = confs" "sv_database sv = db" "sv_controller sv = ?c2" "ctrl (sv_vstpApi sv) = Some ?c2"
    "h_ctrl (sv_httpApi sv) = Some ?c2"
    "notice_text (GetBool (conf_value confs ''allowRawDbAccess'')) (en_terminal e) = Some (sv_notice sv)"
    using assms st vs by (auto simp: main_def http_New_def Let_def split: if_splits)
  have "apis c = []" "allowRawDbAccess c = GetBool (conf_value confs ''allowRawDbAccess'')"
    by (simp_all add: parts(3) NewController_def)
  then have "map fst (apis ?c2) = [GetApiId, http_GetApiId]" "?c2 = c\<lparr>apis := apis ?c2\<rparr>"
    by (simp_all add: ApiStarted_def vstp_api_def http_api_def GetApiId_def http_GetApiId_def)
  then show thesis
    using that [of c] sv parts \<open>allowRawDbAccess c = _\<close> by simp
qed

text \<open>C15. The server runs exactly when its log file can be opened, its arguments are known, the port of the VSTP protocol can
  be listened on, the dump interval in nanoseconds is positive after wrapping around (a configured 0 stands for five
  minutes), and, when raw access is open, the terminal does not report a negative width; the port itself is never
  refused. A running server has one controller, to which both APIs are registered and refer, and has printed the text
  of the notice exactly when raw access is open. Whether the HTTP port could be listened on makes no difference.\<close>

theorem main_runs:
  "(main e \<noteq> None \<longleftrightarrow>
     (\<exists>f. os_OpenFile (en_computer e) (determineLogFile (en_computer e)) = Inr f) \<and>
     set (map argument_name (tl (os_Args (en_computer e)))) \<subseteq> set parameter_names \<and>
     en_listen e (vstp_address (en_computer e)) = None \<and>
     (dump_interval (en_computer e) \<le> 0 \<or> 0 < wrap64 (dump_interval (en_computer e) * 1000000)) \<and>
     (GetBool (conf_value (initConfigurations (en_computer e)) ''allowRawDbAccess'') \<longrightarrow> 0 \<le> terminal_width (en_terminal e))) \<and>
   (\<forall>sv. main e = Some sv \<longrightarrow>
     map fst (apis (sv_controller sv)) = [GetApiId, http_GetApiId] \<and>
     ctrl (sv_vstpApi sv) = Some (sv_controller sv) \<and> h_ctrl (sv_httpApi sv) = Some (sv_controller sv) \<and>
     (if allowRawDbAccess (sv_controller sv)
      then \<exists>s. sv_notice sv = Some s \<and> raw_notice (en_terminal e) = Some (Inr s) else sv_notice sv = None))"
proof -
  have "main e \<noteq> None \<longleftrightarrow> start_server (en_computer e) (en_zone e) (en_first_read e) (en_second_read e) \<noteq> None \<and>
      en_listen e (vstp_address (en_computer e)) = None \<and>
      (dump_interval (en_computer e) \<le> 0 \<or> 0 < wrap64 (dump_interval (en_computer e) * 1000000)) \<and>
      (GetBool (conf_value (initConfigurations (en_computer e)) ''allowRawDbAccess'') \<longrightarrow> 0 \<le> terminal_width (en_terminal e))"
    using main_None_iff [of e] unfolding dumper_period_def by (auto simp del: not_None_eq)
  moreover have "map fst (apis (sv_controller sv)) = [GetApiId, http_GetApiId] \<and>
      ctrl (sv_vstpApi sv) = Some (sv_controller sv) \<and> h_ctrl (sv_httpApi sv) = Some (sv_controller sv) \<and>
      (if allowRawDbAccess (sv_controller sv)
       then \<exists>s. sv_notice sv = Some s \<and> raw_notice (en_terminal e) = Some (Inr s) else sv_notice sv = None)" if sv: "main e = Some sv" for sv
  proof (rule main_server [OF sv])
    fix c0
    assume a: "sv_controller sv = c0\<lparr>apis := apis (sv_controller sv)\<rparr>"
      "map fst (apis (sv_controller sv)) = [GetApiId, http_GetApiId]"
      "ctrl (sv_vstpApi sv) = Some (sv_controller sv)" "h_ctrl (sv_httpApi sv) = Some (sv_controller sv)"
      "notice_text (allowRawDbAccess c0) (en_terminal e) = Some (sv_notice sv)"
    have "allowRawDbAccess (sv_controller sv) = allowRawDbAccess c0" by (subst a(1)) simp
    with a show ?thesis by (auto simp: notice_text_def split: option.splits sum.splits if_splits)
  qed
  ultimately show ?thesis unfolding start_server_iff by blast
qed

definition demo_environment :: "string list \<Rightarrow> read_result \<Rightarrow> int environment" where
  "demo_environment args rd = \<lparr>en_computer = demo_host args, en_zone = 0, en_first_read = rd, en_second_read = rd,
     en_listen = (\<lambda>_. None), en_sendOk = (\<lambda>_. True), en_writeOk = (\<lambda>_. True), en_lib = demo_lib,
     en_terminal = \<lparr>term_GetSize = Some (80, 24), exec_Output = (\<lambda>_ _. None)\<rparr>\<rparr>"

text \<open>A host without arguments, environment and configuration file gives every configuration its default.\<close>

lemma demo_default:
  assumes "(n, conf_options names d @ map WithValidationFunc fs) \<in> set config_table" and "CHR ''%'' \<notin> set d"
    and "first_found (conf_sources (initial_confs (demo_host []))) names = None"
  shows "conf_value (initConfigurations (demo_host [])) n = NewDynamicVar_string d"
  using config_item(1) [OF assms(1) refl assms(2), of "demo_host []"] resolve_initial [OF assms(2) refl, of "demo_host []"] assms(3)
  by (auto simp: configured_def)

lemmas demo_sources = initial_confs_def AddPlaceHolders_def NewConfs_def demo_host_def NewCommandLineSource_def NewEnvSource_def
  NewFileSource_def file_kv_def

lemma demo_confs:
  "dump_interval (demo_host []) = 60000" "\<not> GetBool (conf_value (initConfigurations (demo_host [])) ''allowRawDbAccess'')"
proof -
  let ?ms = "[''ram-cache-db-dump-interval-ms'', ''--ram-cache-db-dump-interval-ms'', ''VSS_RAMCACHEDB_DUMP_INTERVAL_MS'']"
  let ?raw = "[''allow-raw-db-access'', ''--allow-raw-db-access'', ''VSS_ALLOW_RAW_DB_ACCESS'']"
  have "conf_value (initConfigurations (demo_host [])) ''RamCacheDbDumpIntervalMs'' = NewDynamicVar_string ''60000''"
    by (rule demo_default [of _ ?ms _ "[must_be_at_least 0]"]) (simp add: config_defs, simp, simp add: demo_sources)
  then show "dump_interval (demo_host []) = 60000" using default_numbers(4) by (simp add: dump_interval_def GetInt_def GetInte_def)
  have "conf_value (initConfigurations (demo_host [])) ''allowRawDbAccess'' = NewDynamicVar_string ''false''"
    by (rule demo_default [of _ ?raw _ "[]"]) (simp add: config_defs, simp, simp add: demo_sources)
  moreover have "\<not> GetBool (NewDynamicVar_string ''false'')" by code_simp
  ultimately show "\<not> GetBool (conf_value (initConfigurations (demo_host [])) ''allowRawDbAccess'')" by simp
qed

theorem main_runs_witness:
  "\<exists>sv. main (demo_environment [] FileNotExist) = Some sv \<and> map fst (apis (sv_controller sv)) = [''VSTPAPI'', ''HTTPAPI'']"
proof -
  have "main (demo_environment [] FileNotExist) \<noteq> None"
    using main_runs [of "demo_environment [] FileNotExist"] demo_confs
    by (simp add: demo_environment_def wrap64_def) (simp add: demo_host_def)
  then obtain sv where sv: "main (demo_environment [] FileNotExist) = Some sv" by blast
  then have "map fst (apis (sv_controller sv)) = [GetApiId, http_GetApiId]"
    using main_runs [of "demo_environment [] FileNotExist"] by blast
  with sv show ?thesis by (simp add: GetApiId_def http_GetApiId_def)
qed

text \<open>An interval that the start accepts and whose product with a million wraps around to a negative number, such as
  \<open>--ram-cache-db-dump-interval-ms=9223372036855\<close>, ends the server at its start.\<close>

theorem huge_dump_interval_ends_server:
  assumes "2 ^ 63 \<le> dump_interval (en_computer e) * 1000000" and "dump_interval (en_computer e) * 1000000 < 2 ^ 64"
  shows "main e = None"
proof -
  let ?x = "dump_interval (en_computer e) * 1000000"
  have "(?x + 2 ^ 63) mod 2 ^ 64 = (?x - 2 ^ 63 + 2 ^ 64) mod 2 ^ 64" by (rule arg_cong [where f = "\<lambda>y. y mod 2 ^ 64"]) simp
  also have "\<dots> = (?x - 2 ^ 63) mod 2 ^ 64" by (rule mod_add_self2)
  also have "\<dots> = ?x - 2 ^ 63" by (rule mod_pos_pos_trivial) (use assms in simp_all)
  finally have "wrap64 ?x = ?x - 2 ^ 64" unfolding wrap64_def by simp
  then have "dumper_period (dump_interval (en_computer e)) < 0" using assms(2) by (simp add: dumper_period_def)
  moreover have "0 < dump_interval (en_computer e)" using assms(1) by simp
  ultimately show ?thesis using main_None_iff [of e] by auto
qed

section \<open>The end of main\<close>

text \<open>
  \<open>main\<close> waits for a signal, logs it, and then locks a mutex of its own twice, so as not to return. The channel of signals
  holds one; \<open>signal.Notify\<close> drops what does not fit. \<open>me_at\<close> counts the statements: 0 before the receive, 1 and 2 before
  the two locks, 3 returned.
\<close>

record main_end =
  me_at :: nat
  me_sigs :: "string option"
  me_mutex :: bool
  me_log :: "string list"

definition handled_signals :: "string list" where
  "handled_signals = [''interrupt'', ''terminated'']"

inductive main_end_step :: "main_end \<Rightarrow> main_end \<Rightarrow> bool" where
  signal: "sg \<in> set handled_signals \<Longrightarrow>
    main_end_step s (s\<lparr>me_sigs := (case me_sigs s of None \<Rightarrow> Some sg | Some sg0 \<Rightarrow> Some sg0)\<rparr>)"
| receive: "me_at s = 0 \<Longrightarrow> me_sigs s = Some sg \<Longrightarrow>
    main_end_step s (s\<lparr>me_at := 1, me_sigs := None, me_log := me_log s @ [''Received signal: '' @ sg @ '', shutting down...'']\<rparr>)"
| lock: "me_at s \<in> {1, 2} \<Longrightarrow> \<not> me_mutex s \<Longrightarrow> main_end_step s (s\<lparr>me_at := Suc (me_at s), me_mutex := True\<rparr>)"

text \<open>However many signals arrive, \<open>main\<close> never returns, so the process does not end: the first signal is announced as a
  shutdown, nothing is finalized, and all later signals are swallowed.\<close>

theorem signals_do_not_end_the_server:
  assumes "main_end_step\<^sup>*\<^sup>* \<lparr>me_at = 0, me_sigs = None, me_mutex = False, me_log = []\<rparr> s"
  shows "me_at s \<noteq> 3 \<and> length (me_log s) \<le> 1"
proof -
  have "(me_at s = 0 \<and> me_log s = [] \<and> \<not> me_mutex s) \<or> (me_at s = 1 \<and> length (me_log s) = 1 \<and> \<not> me_mutex s) \<or> (me_at s = 2 \<and> length (me_log s) = 1 \<and> me_mutex s)"
    using assms
  proof (induction rule: rtranclp_induct)
    case (step s1 s2)
    from step.hyps(2) step.IH show ?case by (cases rule: main_end_step.cases) auto
  qed simp
  then show ?thesis by auto
qed

theorem signals_do_not_end_the_server_witness:
  "\<exists>s. main_end_step\<^sup>*\<^sup>* \<lparr>me_at = 0, me_sigs = None, me_mutex = False, me_log = []\<rparr> s \<and>
     me_log s = [''Received signal: terminated, shutting down...''] \<and> me_at s \<noteq> 3"
proof -
  let ?s = "\<lambda>n sg m l. \<lparr>me_at = n, me_sigs = sg, me_mutex = m, me_log = l\<rparr>"
  let ?l = "[''Received signal: terminated, shutting down...'']"
  have "main_end_step (?s 0 None False []) (?s 0 (Some ''terminated'') False [])"
    using main_end_step.signal [of "''terminated''" "?s 0 None False []"] by (simp add: handled_signals_def)
  moreover have "main_end_step (?s 0 (Some ''terminated'') False []) (?s 1 None False ?l)"
    using main_end_step.receive [of "?s 0 (Some ''terminated'') False []" "''terminated''"] by simp
  ultimately have run: "main_end_step\<^sup>*\<^sup>* (?s 0 None False []) (?s 1 None False ?l)" by simp
  from signals_do_not_end_the_server [OF this] show ?thesis using run by (intro exI [of _ "?s 1 None False ?l"]) simp
qed

end
