(* ===== verification/System.thy ===== *)
theory System
  imports Server
begin

text \<open>
  The running server: both APIs, the controller's goroutines, the storage and its background dumper as one step
  relation. A step is the work of one goroutine: a callback of the TCP server, the goroutine of a received line, a
  request or a web socket message, a goroutine the controller started, or a turn of the dumper. Steps come in any
  order; each runs as a whole.

  The server accepts connections before \<open>main\<close> has put everything together. A connection that came in before the
  callbacks of the TCP server were set is open but unknown to the API (\<open>sm_early\<close>), and the first data it sends leaves the
  lock of the clients held for ever (\<open>sm_blocked\<close>): whatever needs that lock then waits for ever.
\<close>

section \<open>The state\<close>

record system =
  sm_vstp :: VSTP
  sm_http :: HttpAPI
  sm_db :: RamCacheDB
  sm_file :: "string option"
  sm_open :: "conn list"
  sm_early :: "conn list"
  sm_blocked :: bool
  sm_apis :: nat
  sm_lines :: "(conn \<times> string) list"
  sm_sockets :: "(ws_conn \<times> string) list"
  sm_tasks :: "task list"
  sm_wire :: wire
  sm_frames :: "(ws_conn \<times> string) list"

definition read_of :: "string option \<Rightarrow> read_result" where
  "read_of file = (case file of None \<Rightarrow> FileNotExist | Some t \<Rightarrow> FileText t)"

text \<open>The server that \<open>main\<close> makes, at the moment the callbacks of the TCP server are set, with the file it started from:
  the connections \<open>early\<close> have been accepted before, and no API is registered with the controller yet.\<close>

definition started :: "server \<Rightarrow> conn list \<Rightarrow> string option \<Rightarrow> system" where
  "started sv early file = \<lparr>sm_vstp = sv_vstpApi sv, sm_http = sv_httpApi sv, sm_db = sv_database sv, sm_file = file,
     sm_open = early, sm_early = early, sm_blocked = False, sm_apis = 0,
     sm_lines = [], sm_sockets = [], sm_tasks = [], sm_wire = [], sm_frames = []\<rparr>"

text \<open>The APIs hold references: what the controller reaches through them is their present state. The first \<open>sm_apis\<close> of
  them are registered.\<close>

definition present_api :: "'f go_lib \<Rightarrow> (conn \<Rightarrow> bool) \<Rightarrow> (ws_conn \<Rightarrow> bool) \<Rightarrow> system \<Rightarrow> string \<Rightarrow> IApi" where
  "present_api lib sendOk writeOk s apiId =
     (if apiId = GetApiId then vstp_api sendOk (sm_vstp s) else http_api lib writeOk (sm_http s))"

definition present_controller :: "'f go_lib \<Rightarrow> (conn \<Rightarrow> bool) \<Rightarrow> (ws_conn \<Rightarrow> bool) \<Rightarrow> system \<Rightarrow> TheController \<Rightarrow> TheController" where
  "present_controller lib sendOk writeOk s c = c\<lparr>apis := map (\<lambda>(i, _). (i, present_api lib sendOk writeOk s i)) (take (sm_apis s) (apis c))\<rparr>"

fun present_task :: "'f go_lib \<Rightarrow> (conn \<Rightarrow> bool) \<Rightarrow> (ws_conn \<Rightarrow> bool) \<Rightarrow> system \<Rightarrow> task \<Rightarrow> task" where
  "present_task lib sendOk writeOk s (UpdateClientTask ch) =
     UpdateClientTask (ch\<lparr>ch_api := map_option (\<lambda>a. present_api lib sendOk writeOk s (aGetApiId a)) (ch_api ch)\<rparr>)"
| "present_task lib sendOk writeOk s t = t"

definition to_api :: "string \<Rightarrow> sent \<Rightarrow> sent" where
  "to_api i out = filter (\<lambda>(a, _, _). a = i) out"

text \<open>The commands whose handlers take the lock of the clients, before they do anything else.\<close>

definition takes_clients_lock :: "string \<Rightarrow> bool" where
  "takes_clients_lock line \<longleftrightarrow>
     strings_TrimSpace (fst (separateKeyAndValue line)) \<in> {''subscribe'', ''unsubscribe'', ''setid''}"

text \<open>What the callback for data does to a connection without a buffer before it waits for the lock it holds.\<close>

definition stuck_onData :: "conn \<Rightarrow> VSTP \<Rightarrow> VSTP" where
  "stuck_onData cli v = v\<lparr>incomingDataBuffer := AList.update cli [] (incomingDataBuffer v)\<rparr>"

section \<open>The steps\<close>

text \<open>
  \<open>reliable\<close> restricts the dumper to turns that succeed on a database whose keys and values fit the format of the
  dump. A pending lock request is a line whose goroutine still tries: one of its attempts decides when it gets the
  lock or finds its time over (\<open>elapsed\<close>), which is the schedule with a single entry; an attempt that does not decide
  changes nothing and is no step.

  In a blocked server a callback or handler that needs the lock of the clients never gets on: nothing is read from a VSTP
  connection, none is registered or removed, and a delivery over VSTP ends where it calls the API (\<open>goroutine_stuck\<close>:
  the client's entry has been renewed by then; \<open>updateClientAboutObservatingVars\<close> has done nothing by then). The numbers
  \<open>n\<close> and \<open>m\<close> that a new connection reads from the counter are arbitrary, as the callbacks race on it. Until the
  callbacks are all set the end of a connection may go unnoticed (\<open>closes_unseen\<close>). HTTP requests are allowed from the
  start, and a goroutine that finds a VSTP client gone may end in a blocked server, which only adds runs.
\<close>

inductive system_step :: "'f go_lib \<Rightarrow> bool \<Rightarrow> TheController \<Rightarrow> system \<Rightarrow> system \<Rightarrow> bool" for lib reliable c where
  connect: "\<not> sm_blocked s \<Longrightarrow> map_of (clientsByTcpCli (sm_vstp s)) cli = None \<Longrightarrow> cli \<notin> set (sm_open s) \<Longrightarrow>
    onConnect n m name cli (sm_vstp s) = (v', w) \<Longrightarrow>
    system_step lib reliable c s (s\<lparr>sm_vstp := v', sm_open := cli # sm_open s, sm_wire := sm_wire s @ w\<rparr>)"
| connect_stuck: "sm_blocked s \<Longrightarrow> cli \<notin> set (sm_open s) \<Longrightarrow>
    system_step lib reliable c s (s\<lparr>sm_vstp := connect_store m (sm_vstp s), sm_open := cli # sm_open s, sm_early := cli # sm_early s\<rparr>)"
| receive: "\<not> sm_blocked s \<Longrightarrow> cli \<in> set (sm_open s) \<Longrightarrow> onData cli dat (sm_vstp s) = Some (v', ls) \<Longrightarrow>
    system_step lib reliable c s (s\<lparr>sm_vstp := v', sm_lines := sm_lines s @ map (Pair cli) ls\<rparr>)"
| blocks: "\<not> sm_blocked s \<Longrightarrow> cli \<in> set (sm_open s) \<Longrightarrow> onData cli dat (sm_vstp s) = None \<Longrightarrow>
    system_step lib reliable c s (s\<lparr>sm_vstp := stuck_onData cli (sm_vstp s), sm_blocked := True\<rparr>)"
| disconnect: "\<not> sm_blocked s \<Longrightarrow> cli \<in> set (sm_open s) \<Longrightarrow>
    system_step lib reliable c s (s\<lparr>sm_vstp := onDisconnect cli (sm_vstp s), sm_open := removeAll cli (sm_open s),
      sm_early := removeAll cli (sm_early s)\<rparr>)"
| closes_unseen: "sm_apis s = 0 \<Longrightarrow> cli \<in> set (sm_open s) \<Longrightarrow>
    system_step lib reliable c s (s\<lparr>sm_open := removeAll cli (sm_open s), sm_early := removeAll cli (sm_early s)\<rparr>)"
| registers: "sm_apis s < length (apis c) \<Longrightarrow> system_step lib reliable c s (s\<lparr>sm_apis := Suc (sm_apis s)\<rparr>)"
| command: "sm_lines s = l1 @ (cli, line) # l2 \<Longrightarrow> m_sched me = [] \<or> m_sched me = [(elapsed, id)] \<Longrightarrow>
    sm_blocked s \<longrightarrow> \<not> takes_clients_lock line \<Longrightarrow>
    processReceivedMessage me cli line (sm_vstp s) (sm_db s) = Some (v', db', ts, w) \<Longrightarrow>
    system_step lib reliable c s
      (s\<lparr>sm_vstp := v', sm_db := db', sm_lines := l1 @ l2, sm_tasks := sm_tasks s @ ts, sm_wire := sm_wire s @ w\<rparr>)"
| request: "handlePath lib order (sm_http s) rq (sm_db s) = (outcome, db', ts) \<Longrightarrow>
    system_step lib reliable c s (s\<lparr>sm_db := db', sm_tasks := sm_tasks s @ ts\<rparr>)"
| socket_opens: "map_of (h_connToId (sm_http s)) conn = None \<Longrightarrow>
    ws_open lib writeOk e nanos conn name (sm_http s) (sm_db s) = (cid, h', db', ts, w) \<Longrightarrow>
    system_step lib reliable c s (s\<lparr>sm_http := h', sm_db := db', sm_sockets := (conn, cid) # sm_sockets s,
      sm_tasks := sm_tasks s @ ts, sm_frames := sm_frames s @ w\<rparr>)"
| socket_receives: "(conn, cid) \<in> set (sm_sockets s) \<Longrightarrow>
    ws_message lib writeOk e cid frame (sm_http s) (sm_db s) = (h', db', w) \<Longrightarrow>
    system_step lib reliable c s (s\<lparr>sm_http := h', sm_db := db', sm_frames := sm_frames s @ w\<rparr>)"
| socket_closes: "(conn, cid) \<in> set (sm_sockets s) \<Longrightarrow>
    system_step lib reliable c s
      (s\<lparr>sm_http := ws_close cid conn (sm_http s), sm_sockets := removeAll (conn, cid) (sm_sockets s)\<rparr>)"
| goroutine: "sm_tasks s = t1 @ t # t2 \<Longrightarrow>
    run_task (present_controller lib sendOk writeOk s c) e (present_task lib sendOk writeOk s t) (sm_db s) = (db', ts, out) \<Longrightarrow>
    sm_blocked s \<longrightarrow> to_api GetApiId out = [] \<Longrightarrow>
    deliver lib writeOk (to_api http_GetApiId out) (sm_http s) = (h', w) \<Longrightarrow>
    system_step lib reliable c s (s\<lparr>sm_db := db', sm_http := h', sm_tasks := t1 @ t2 @ ts,
      sm_wire := sm_wire s @ wire_of sendOk (sm_vstp s) (to_api GetApiId out), sm_frames := sm_frames s @ w\<rparr>)"
| goroutine_stuck: "sm_blocked s \<Longrightarrow> sm_tasks s = t1 @ NotifyClientTask cid md name val # t2 \<Longrightarrow>
    NewControllerClientHelperWithApis ramStorage (cl_acq e) (now e) cid (apis (present_controller lib sendOk writeOk s c)) (sm_db s) =
      (Inr \<lparr>ch_clientId = cid, ch_api = Some api\<rparr>, db') \<Longrightarrow> aGetApiId api = GetApiId \<Longrightarrow>
    system_step lib reliable c s (s\<lparr>sm_db := db', sm_tasks := t1 @ t2\<rparr>)"
| dumper: "backgroundDumper_step ev mkdirOk written (sm_db s) (sm_file s) = (db', file', goes_on) \<Longrightarrow>
    (reliable \<Longrightarrow> mkdirOk \<and> written = WriteOk \<and> clean_db (sm_db s)) \<Longrightarrow>
    system_step lib reliable c s (s\<lparr>sm_db := db', sm_file := file'\<rparr>)"

section \<open>Invariants of the storage\<close>

text \<open>Every invariant that implies well-formedness and survives the two writing operations survives everything.\<close>

lemma ram_invariantI:
  assumes "\<And>r. iv r \<Longrightarrow> db_wf r" and "\<And>r n v. iv r \<Longrightarrow> iv (Set r n v)" and "\<And>r n casc. iv r \<Longrightarrow> iv (DeleteValue r n casc)"
  shows "ram_invariant iv"
  unfolding ram_invariant_def
  using storage_strengthen [OF ram.storage_axioms assms(1)] assms(2,3) by simp

text \<open>Nothing is written without being marked as a pending change, and a mark is never lost.\<close>

definition tracked :: "RamCacheDB \<Rightarrow> RamCacheDB \<Rightarrow> bool" where
  "tracked r0 r \<longleftrightarrow> db_wf r \<and> (pendingChanges r \<or> root r = root r0 \<and> \<not> pendingChanges r0)"

interpretation tracked: ram_invariant "tracked r0" for r0
proof (rule ram_invariantI)
  fix r n v casc
  assume r: "tracked r0 r"
  show "db_wf r" using r by (simp add: tracked_def)
  show "tracked r0 (Set r n v)" using r db_wf_Set [of r n v] by (simp add: tracked_def Set_def scrollTree_create)
  show "tracked r0 (DeleteValue r n casc)"
    using r db_wf_DeleteValue [of r n casc] by (auto simp: tracked_def DeleteValue_def Let_def split: option.split)
qed

text \<open>Which database a command leaves.\<close>

lemma dispatch_db:
  assumes "dispatch me cli cmd p v db = Some (v', db', ts, w)"
  shows "db' = db \<or> db' = fst (handle_set v cli p db) \<or> db' = fst (handle_delete v cli p db) \<or>
    db' = fst (snd (handle_subscribe me v cli p db)) \<or> db' = fst (handle_unsubscribe me v cli p db) \<or>
    db' = fst (handle_unlock v cli p db) \<or> db' = fst (snd (handle_setid me v cli p db)) \<or>
    (\<exists>w. handle_lock me v cli p db = Some (db', w))"
  using assms unfolding dispatch_def
  by (elim if_SomeE) (auto simp: Let_def split_beta map_option_case split: option.splits)

context ram_invariant
begin

text \<open>The handlers of VSTP and of the HTTP API keep the invariant.\<close>

lemma ok_LockVar:
  assumes "ok X c r" and "sched = [] \<or> sched = [(elapsed, id)]" and "LockVar c n to sched r = Some (err, r')"
  shows "ok X c r'"
proof -
  have "ok X c (snd (tryLock ramStorage (vh_for c n) r))" using assms(1) by (auto intro: ok_ops)
  then show ?thesis using assms(2,3) by (auto simp: LockVar_def vh_Lock_def split: prod.splits if_splits)
qed

lemma ok_handle_set: "ok X c r \<Longrightarrow> ctrl v = Some c \<Longrightarrow> ok X c (fst (handle_set v cli p r))"
  by (auto simp: handle_set_def Let_def intro: ok_SetVar split: prod.splits)

lemma ok_handle_delete: "ok X c r \<Longrightarrow> ctrl v = Some c \<Longrightarrow> ok X c (fst (handle_delete v cli p r))"
  by (auto simp: handle_delete_def Let_def intro: ok_DelVar split: prod.splits)

lemma ok_handle_subscribe: "ok X c r \<Longrightarrow> ctrl v = Some c \<Longrightarrow> ok X c (fst (snd (handle_subscribe me v cli p r)))"
  by (auto simp: handle_subscribe_def Let_def intro: ok_ObserveVar split: prod.splits)

lemma ok_handle_unsubscribe: "ok X c r \<Longrightarrow> ctrl v = Some c \<Longrightarrow> ok X c (fst (handle_unsubscribe me v cli p r))"
  by (auto simp: handle_unsubscribe_def Let_def intro: ok_StopObservingVar split: prod.splits option.splits)

lemma ok_handle_unlock: "ok X c r \<Longrightarrow> ctrl v = Some c \<Longrightarrow> ok X c (fst (handle_unlock v cli p r))"
  by (auto simp: handle_unlock_def UnlockVar_def Let_def intro: ok_ops)

lemma ok_ClientConnected: "ok X c r \<Longrightarrow> ClientConnected e nanos cid api r = (res, r', ts) \<Longrightarrow> ok X c r'"
  by (auto simp: ClientConnected_def Let_def intro: ok_NewControllerClientHelper split: prod.splits)

lemma ok_handle_setid: "ok X c r \<Longrightarrow> ctrl v = Some c \<Longrightarrow> ok X c (fst (snd (handle_setid me v cli p r)))"
  by (auto simp: handle_setid_def Let_def intro: ok_ClientConnected split: prod.splits)

lemma ok_handle_lock:
  assumes "ok X c r" and "ctrl v = Some c" and "m_sched me = [] \<or> m_sched me = [(elapsed, id)]"
    and "handle_lock me v cli p r = Some (r', w)"
  shows "ok X c r'"
  using assms(4) ok_LockVar [OF assms(1,3)] by (auto simp: handle_lock_def assms(2) Let_def split: prod.splits)

lemma ok_processReceivedMessage:
  assumes "ok X c r" and "ctrl v = Some c" and "m_sched me = [] \<or> m_sched me = [(elapsed, id)]"
    and "processReceivedMessage me cli line v r = Some (v', r', ts, w)"
  shows "ok X c r'"
proof -
  obtain cmd p where "dispatch me cli cmd p v r = Some (v', r', ts, w)"
    using assms(4) by (auto simp: processReceivedMessage_def split: prod.splits)
  from dispatch_db [OF this] show ?thesis
    using assms(1) ok_handle_lock [OF assms(1-3)] ok_handle_set [OF assms(1,2), of cli p] ok_handle_delete [OF assms(1,2), of cli p]
      ok_handle_subscribe [OF assms(1,2), of me cli p] ok_handle_unsubscribe [OF assms(1,2), of me cli p]
      ok_handle_unlock [OF assms(1,2), of cli p] ok_handle_setid [OF assms(1,2), of me cli p]
    by metis
qed

lemma ok_set_loop:
  "ok X c r \<Longrightarrow> set_loop lib (Some c) pre obj r = (ret, r', ts) \<Longrightarrow> ok X c r'"
proof (induction "obj_size obj" arbitrary: pre obj r ret r' ts rule: less_induct)
  case less
  show ?case
  proof (cases obj)
    case Nil
    then show ?thesis using less.prems by simp
  next
    case (Cons kv rest)
    then obtain key val where kv: "obj = (key, val) # rest" by (cases kv) simp
    have rest: "ok X c r2" if "ok X c r1" "set_loop lib (Some c) pre rest r1 = (a, r2, ts2)" for r1 a r2 ts2
      by (rule less.hyps [OF _ that]) (simp add: kv)
    show ?thesis
    proof (cases "\<exists>t. val = JObj t")
      case True
      then obtain t where t: "val = JObj t" by blast
      obtain a r1 ts1 where s: "set_loop lib (Some c) (dotted (pre @ key)) t r = (a, r1, ts1)" by (metis prod_cases3)
      have "obj_size t < obj_size obj" using obj_size_JObj [of t] by (simp add: kv t del: json.size)
      then have "ok X c r1" using less.hyps less.prems(1) s by blast
      then show ?thesis
        using less.prems(2) rest s by (auto simp: kv t split: option.splits prod.splits)
    next
      case False
      then show ?thesis
        using less.prems
        by (cases val) (auto simp: kv Let_def intro: rest [OF ok_SetVar [OF less.prems(1)]] ok_SetVar [OF less.prems(1)]
            split: option.splits prod.splits)
    qed
  qed
qed

lemma ok_handlePath:
  assumes "ok X c r" and "h_ctrl h = Some c" and "handlePath lib order h rq r = (outcome, r', ts)"
  shows "ok X c r'"
proof -
  have "ok X c r1" if "handlePostByName lib h rq name r = (a, r1, ts1)" for name a r1 ts1
    using that assms(1) unfolding handlePostByName_def setJson_def assms(2)
    by (auto simp: Let_def intro: ok_SetVar ok_set_loop split: if_splits option.splits json.splits prod.splits)
  moreover have "ok X c r1" if "handleDeleteByName h name r = (a, r1, ts1)" for name a r1 ts1
    using that assms(1,2) by (auto simp: handleDeleteByName_def Let_def intro: ok_DelVar split: prod.splits)
  ultimately show ?thesis
    using assms(1,3) by (auto simp: handlePath_def Let_def split: if_splits prod.splits)
qed

lemma ok_ws_open:
  assumes "ok X c r" and "h_ctrl h = Some c" and "ws_open lib writeOk e nanos conn name h r = (cid, h', r', ts, w)"
  shows "ok X c r'"
  using assms by (auto simp: ws_open_def Let_def intro: ok_ObserveVar ok_ClientConnected split: prod.splits)

lemma ok_ws_message:
  assumes "ok X c r" and "h_ctrl h = Some c" and "ws_message lib writeOk e cid frame h r = (h', r', w)"
  shows "ok X c r'"
  using assms by (auto simp: ws_message_def Let_def intro: ok_ObserveVar ok_StopObservingVar
      split: prod.splits if_splits ws_frame.splits)

lemma ok_WithApis:
  assumes "ok X c r" and "NewControllerClientHelperWithApis ramStorage a t cid as r = (res, r')"
  shows "ok X c r'"
  using assms by (auto simp: NewControllerClientHelperWithApis_def Let_def intro: ok_NewControllerClientHelper split: if_splits option.splits prod.splits)

lemma ok_present: "ok X (present_controller lib sendOk writeOk s c) r = ok X c r"
  by (simp add: ok_def confined_def present_controller_def)

end

section \<open>Well-typed states\<close>

definition refs :: "TheController \<Rightarrow> system \<Rightarrow> bool" where
  "refs c s \<longleftrightarrow> ctrl (sm_vstp s) = Some c \<and> h_ctrl (sm_http s) = Some c"

definition vstp_typed :: "VSTP \<Rightarrow> bool" where
  "vstp_typed v \<longleftrightarrow> ids_ok v \<and> distinct (map fst (clientsById v)) \<and> distinct (map fst (clientsByTcpCli v)) \<and>
     distinct (map fst (incomingDataBuffer v)) \<and> int64_range (cliIdCount v) \<and>
     (\<forall>cli b. map_of (incomingDataBuffer v) cli = Some b \<longrightarrow> nl \<notin> set b)"

definition http_typed :: "HttpAPI \<Rightarrow> bool" where
  "http_typed h \<longleftrightarrow> distinct (map fst (h_clients h)) \<and> distinct (map fst (h_connToId h))"

text \<open>Every open connection that the API was told about has its buffer, those that came too early have none as long as the
  server is not blocked, and what waits to be worked off is single lines.\<close>

definition system_typed :: "TheController \<Rightarrow> system \<Rightarrow> bool" where
  "system_typed c s \<longleftrightarrow> refs c s \<and> db_wf (sm_db s) \<and> vstp_typed (sm_vstp s) \<and> http_typed (sm_http s) \<and>
     set (sm_early s) \<subseteq> set (sm_open s) \<and>
     (\<forall>cli \<in> set (sm_open s) - set (sm_early s). map_of (incomingDataBuffer (sm_vstp s)) cli \<noteq> None) \<and>
     (\<not> sm_blocked s \<longrightarrow> (\<forall>cli \<in> set (sm_early s). map_of (incomingDataBuffer (sm_vstp s)) cli = None)) \<and>
     (\<forall>(cli, l) \<in> set (sm_lines s). nl \<notin> set l)"

lemma message_state:
  assumes "processReceivedMessage me cli m v db = Some (v', db', ts, w)"
  shows "v' = v \<or> (\<exists>i. v' = assign_id cli i v)"
proof -
  obtain cmd p where "dispatch me cli cmd p v db = Some (v', db', ts, w)"
    using assms by (auto simp: processReceivedMessage_def split: prod.splits)
  from dispatch_state [OF this] show ?thesis by (metis fst_handle_setid fst_handle_subscribe)
qed

lemma assign_id_simps [simp]:
  "ctrl (assign_id cli i v) = ctrl v" "incomingDataBuffer (assign_id cli i v) = incomingDataBuffer v"
  "cliIdCount (assign_id cli i v) = cliIdCount v"
  by (simp_all add: assign_id_def)

lemma typed_message:
  assumes "vstp_typed v" and "processReceivedMessage me cli m v db = Some (v', db', ts, w)"
  shows "vstp_typed v' \<and> ctrl v' = ctrl v \<and> incomingDataBuffer v' = incomingDataBuffer v"
proof -
  have "distinct (map fst (clientsById (assign_id cli i v))) \<and> distinct (map fst (clientsByTcpCli (assign_id cli i v)))" for i
    using assms(1) by (simp add: vstp_typed_def assign_id_def distinct_update distinct_delete)
  then show ?thesis
    using assms(1) message_state [OF assms(2)] ids_ok_processReceivedMessage [OF _ assms(2)] by (auto simp: vstp_typed_def)
qed

lemma typed_connect:
  assumes "vstp_typed v" and "map_of (clientsByTcpCli v) cli = None" and "onConnect n m name cli v = (v', w)"
  shows "vstp_typed v' \<and> ctrl v' = ctrl v \<and> map_of (incomingDataBuffer v') = (map_of (incomingDataBuffer v))(cli \<mapsto> [])"
  using assms ids_ok_onConnect [of v cli n m name]
  by (auto simp: vstp_typed_def connect_defs Let_def distinct_update update_conv split: if_splits)

lemma typed_connect_stuck:
  "vstp_typed v \<Longrightarrow> vstp_typed (connect_store m v) \<and> ctrl (connect_store m v) = ctrl v \<and>
     incomingDataBuffer (connect_store m v) = incomingDataBuffer v"
  by (simp add: vstp_typed_def connect_store_def ids_ok_def)

lemma typed_stuck_onData:
  "vstp_typed v \<Longrightarrow> vstp_typed (stuck_onData cli v) \<and> ctrl (stuck_onData cli v) = ctrl v \<and>
     map_of (incomingDataBuffer (stuck_onData cli v)) = (map_of (incomingDataBuffer v))(cli \<mapsto> [])"
  by (auto simp: vstp_typed_def stuck_onData_def ids_ok_def distinct_update update_conv)

lemma typed_disconnect:
  assumes "vstp_typed v"
  shows "vstp_typed (onDisconnect cli v) \<and> ctrl (onDisconnect cli v) = ctrl v \<and>
    map_of (incomingDataBuffer (onDisconnect cli v)) = (map_of (incomingDataBuffer v))(cli := None)"
proof -
  have "distinct (map fst (clientsById (onDisconnect cli v)))" "distinct (map fst (clientsByTcpCli (onDisconnect cli v)))"
    "cliIdCount (onDisconnect cli v) = cliIdCount v" "ctrl (onDisconnect cli v) = ctrl v"
    "incomingDataBuffer (onDisconnect cli v) = AList.delete cli (incomingDataBuffer v)"
    using assms by (simp_all add: vstp_typed_def onDisconnect_def Let_def distinct_delete split: option.split prod.split)
  then show ?thesis
    using assms ids_ok_onDisconnect [of v cli]
    by (auto simp: vstp_typed_def distinct_delete fun_eq_iff split: if_splits)
qed

lemma take_lines_typed: "nl \<notin> set (snd (take_lines s)) \<and> (\<forall>l \<in> set (fst (take_lines s)). nl \<notin> set l)"
proof (induction "length s" arbitrary: s rule: less_induct)
  case less
  show ?case
  proof (cases rule: newline_cases [of s])
    case 1
    then show ?thesis by (simp add: take_lines_no_newline)
  next
    case (2 l t)
    moreover have "set (strings_TrimRightByte l (CHR 13)) \<subseteq> set l"
      by (auto simp: strings_TrimRightByte_def dest: set_dropWhileD)
    ultimately show ?thesis using less.hyps [of t] by (auto simp: take_lines_newline)
  qed
qed

lemma typed_receive:
  assumes "vstp_typed v" and "onData cli dat v = Some (v', ls)"
  shows "vstp_typed v' \<and> ctrl v' = ctrl v \<and> (\<forall>c. map_of (incomingDataBuffer v') c = None \<longleftrightarrow> map_of (incomingDataBuffer v) c = None) \<and>
    (\<forall>l \<in> set ls. nl \<notin> set l)"
proof -
  obtain buf where buf: "map_of (incomingDataBuffer v) cli = Some buf"
    and v': "v' = v\<lparr>incomingDataBuffer := AList.update cli (snd (take_lines (buf @ dat))) (incomingDataBuffer v)\<rparr>"
    and ls: "ls = fst (take_lines (buf @ dat))"
    using assms(2) by (auto simp: onData_def split: option.splits prod.splits)
  then show ?thesis
    using assms(1) take_lines_typed [of "buf @ dat"] by (auto simp: vstp_typed_def ids_ok_def distinct_update)
qed

lemma typed_deliver:
  "http_typed h \<Longrightarrow> deliver lib writeOk out h = (h', w) \<Longrightarrow> http_typed h' \<and> h_ctrl h' = h_ctrl h"
proof (induction out arbitrary: h h' w)
  case (Cons o1 out)
  obtain a cid pl where o1: "o1 = (a, cid, pl)" by (metis prod_cases3)
  obtain b h1 w1 where n: "http_NotifyClient lib writeOk h cid pl = (b, h1, w1)" by (metis prod_cases3)
  have "http_typed h1 \<and> h_ctrl h1 = h_ctrl h"
    using n Cons.prems(1) by (auto simp: http_NotifyClient_def forget_conn_def http_typed_def distinct_delete
        split: option.splits if_splits)
  moreover obtain h2 w2 where d: "deliver lib writeOk out h1 = (h2, w2)" by fastforce
  moreover have "h' = h2" using Cons.prems(2) by (simp add: o1 n d)
  ultimately show ?case using Cons.IH [OF _ d] by simp
qed simp

lemma typed_ws_open:
  assumes "http_typed h" and "ws_open lib writeOk e nanos conn name h r = (cid, h', r', ts, w)"
  shows "http_typed h' \<and> h_ctrl h' = h_ctrl h"
proof -
  let ?i = "strconv_Itoa nanos"
  let ?h = "h\<lparr>h_clients := AList.update ?i conn (h_clients h), h_connToId := AList.update conn ?i (h_connToId h)\<rparr>"
  have h: "http_typed ?h" "h_ctrl ?h = h_ctrl h" using assms(1) by (simp_all add: http_typed_def distinct_update)
  then show ?thesis
    using assms(2) by (auto simp: ws_open_def Let_def dest!: typed_deliver [OF h(1)] split: option.splits prod.splits)
qed

lemma typed_ws_message:
  assumes "http_typed h" and "ws_message lib writeOk e cid frame h r = (h', r', w)"
  shows "http_typed h' \<and> h_ctrl h' = h_ctrl h"
  using assms
  by (auto simp: ws_message_def Let_def dest: typed_deliver [OF assms(1)] split: ws_frame.splits if_splits option.splits prod.splits)

lemma typed_ws_close: "http_typed h \<Longrightarrow> http_typed (ws_close cid conn h) \<and> h_ctrl (ws_close cid conn h) = h_ctrl h"
  by (simp add: http_typed_def ws_close_def distinct_delete)

section \<open>What a step does to the storage\<close>

definition dumper_turn :: "bool \<Rightarrow> system \<Rightarrow> system \<Rightarrow> bool" where
  "dumper_turn reliable s s' \<longleftrightarrow> (\<exists>ev mkdirOk written goes_on.
     backgroundDumper_step ev mkdirOk written (sm_db s) (sm_file s) = (sm_db s', sm_file s', goes_on) \<and>
     (reliable \<longrightarrow> mkdirOk \<and> written = WriteOk \<and> clean_db (sm_db s)))"

context ram_invariant
begin

text \<open>A step is a turn of the dumper, or keeps every invariant of the storage and leaves the file alone.\<close>

lemma ok_system_step:
  assumes "system_step lib reliable c s s'" and "refs c s" and "ok X c (sm_db s)"
  shows "dumper_turn reliable s s' \<or> ok X c (sm_db s') \<and> sm_file s' = sm_file s"
  using assms
proof (induction rule: system_step.induct)
  case (command s l1 cli line l2 me elapsed v' db' ts w)
  then show ?case using ok_processReceivedMessage [of X c "sm_db s" "sm_vstp s" me elapsed] by (auto simp: refs_def)
next
  case (request order s rq outcome db' ts)
  then show ?case by (auto simp: refs_def intro: ok_handlePath)
next
  case (socket_opens s conn writeOk e nanos name cid h' db' ts w)
  then show ?case by (auto simp: refs_def intro: ok_ws_open)
next
  case (socket_receives conn cid s writeOk e frame h' db' w)
  then show ?case by (auto simp: refs_def intro: ok_ws_message)
next
  case (goroutine s t1 t t2 sendOk writeOk e db' ts out h' w)
  then have "ok X (present_controller lib sendOk writeOk s c) (sm_db s)" by (simp add: ok_present)
  then have "ok X (present_controller lib sendOk writeOk s c) db'" by (rule ok_run_task [OF _ goroutine.hyps(2)])
  then show ?case by (simp add: ok_present)
next
  case (goroutine_stuck s t1 cid md name val t2 e sendOk writeOk api db')
  then show ?case by (auto intro: ok_WithApis)
next
  case (dumper ev mkdirOk written s db' file' goes_on)
  then show ?case by (auto simp: dumper_turn_def)
qed simp_all

end

lemma dumper_turn_tree: "dumper_turn reliable s s' \<Longrightarrow> root (sm_db s') = root (sm_db s)"
  by (auto simp: dumper_turn_def backgroundDumper_step_def Let_def split: if_splits dest!: arg_cong [of _ "sm_db s'" root])

lemma wf_root: "db_wf r \<Longrightarrow> root r' = root r \<Longrightarrow> db_wf r'"
  by (simp add: db_wf_def)

lemma confined_UNIV [simp]: "confined UNIV c r"
  by (simp add: confined_def)

lemma system_typed_step:
  assumes "system_step lib reliable c s s'" and "system_typed c s"
  shows "system_typed c s'"
proof -
  have wf: "db_wf (sm_db s')"
    using wf.ok_system_step [OF assms(1), of UNIV] assms(2) dumper_turn_tree [of reliable s s'] wf_root [of "sm_db s" "sm_db s'"]
    by (auto simp: system_typed_def wf.ok_def)
  show ?thesis
    using assms wf
  proof (induction rule: system_step.induct)
    case (connect s cli n m name v' w)
    then show ?case using typed_connect [OF _ _ connect.hyps(4)] by (auto simp: system_typed_def refs_def)
  next
    case (connect_stuck s cli m)
    then show ?case using typed_connect_stuck [of "sm_vstp s" m] by (auto simp: system_typed_def refs_def)
  next
    case (receive s cli dat v' ls)
    then show ?case using typed_receive [OF _ receive.hyps(3)] by (auto simp: system_typed_def refs_def)
  next
    case (blocks s cli dat)
    then show ?case using typed_stuck_onData [of "sm_vstp s" cli] by (auto simp: system_typed_def refs_def)
  next
    case (disconnect s cli)
    then show ?case using typed_disconnect [of "sm_vstp s" cli] by (auto simp: system_typed_def refs_def)
  next
    case (command s l1 cli line l2 me elapsed v' db' ts w)
    then show ?case using typed_message [OF _ command.hyps(4)] by (auto simp: system_typed_def refs_def)
  next
    case (socket_opens s conn writeOk e nanos name cid h' db' ts w)
    then show ?case using typed_ws_open [OF _ socket_opens.hyps(2)] by (auto simp: system_typed_def refs_def)
  next
    case (socket_receives conn cid s writeOk e frame h' db' w)
    then show ?case using typed_ws_message [OF _ socket_receives.hyps(2)] by (auto simp: system_typed_def refs_def)
  next
    case (socket_closes conn cid s)
    then show ?case using typed_ws_close by (auto simp: system_typed_def refs_def)
  next
    case (goroutine s t1 t t2 sendOk writeOk e db' ts out h' w)
    then show ?case using typed_deliver [OF _ goroutine.hyps(4)] by (auto simp: system_typed_def refs_def)
  qed (auto simp: system_typed_def refs_def)
qed

lemma started_typed:
  assumes "main e = Some sv"
  shows "system_typed (sv_controller sv) (started sv early file)"
proof (rule main_server [OF assms])
  assume "sv_database sv = initStorage (sv_configs sv) (en_first_read e) (en_second_read e)"
    and "ctrl (sv_vstpApi sv) = Some (sv_controller sv)" and "h_ctrl (sv_httpApi sv) = Some (sv_controller sv)"
  moreover have "vstp_typed (sv_vstpApi sv) \<and> http_typed (sv_httpApi sv) \<and> incomingDataBuffer (sv_vstpApi sv) = []"
    using assms by (auto simp: main_def start_VSTP_def http_New_def NewVSTP_def vstp_typed_def ids_ok_def http_typed_def
        int64_range_def Let_def split: option.splits sum.splits if_splits)
  ultimately show ?thesis by (simp add: system_typed_def refs_def started_def initStorage_def)
qed

lemma system_run_typed:
  assumes "(system_step lib reliable c)\<^sup>*\<^sup>* s s'" and "system_typed c s"
  shows "system_typed c s'"
  using assms by (induction rule: rtranclp_induct) (auto intro: system_typed_step)

lemma ok_root: "wf.ok X c r \<Longrightarrow> root r' = root r \<Longrightarrow> wf.ok X c r'"
  using wf_root [of r r'] by (simp only: wf.ok_def confined_def db_node_def)

lemma system_run_ok:
  assumes "(system_step lib reliable c)\<^sup>*\<^sup>* s s'" and "system_typed c s" and "wf.ok X c (sm_db s)"
  shows "wf.ok X c (sm_db s')"
  using assms
proof (induction rule: rtranclp_induct)
  case (step s1 s2)
  have "refs c s1" using system_run_typed [OF step.hyps(1) step.prems(1)] by (simp add: system_typed_def)
  from wf.ok_system_step [OF step.hyps(2) this step.IH [OF step.prems]] show ?case
    using ok_root [OF step.IH [OF step.prems]] dumper_turn_tree [of reliable s1 s2] by blast
qed simp

section \<open>Durability\<close>

text \<open>What a restart would show is what the database shows, unless changes are still pending.\<close>

definition durable :: "system \<Rightarrow> bool" where
  "durable s \<longleftrightarrow> pendingChanges (sm_db s) \<or>
     (\<forall>dir ms p. p \<noteq> [] \<longrightarrow> db_peek (NewRamCacheDB (read_of (sm_file s)) (read_of (sm_file s)) dir ms) p = db_peek (sm_db s) p)"

lemma NewRamCacheDB_root: "root (NewRamCacheDB rd1 rd2 dir ms) = root (NewRamCacheDB rd1 rd2 dir' ms')"
  by (cases rd1; cases rd2) (simp_all add: NewRamCacheDB_def load_def Let_def)

lemma NewRamCacheDB_dir: "db_peek (NewRamCacheDB rd1 rd2 dir ms) p = db_peek (NewRamCacheDB rd1 rd2 dir' ms') p"
  using NewRamCacheDB_root [of rd1 rd2 dir ms dir' ms'] by (simp add: db_peek_def)

lemma durable_step:
  assumes "system_step lib True c s s'" and "system_typed c s" and "durable s"
  shows "durable s'"
proof -
  have wf: "db_wf (sm_db s)" and refs: "refs c s" using assms(2) by (simp_all add: system_typed_def)
  then have "tracked.ok (sm_db s) UNIV c (sm_db s)" by (simp add: tracked.ok_def tracked_def)
  from tracked.ok_system_step [OF assms(1) refs this] show ?thesis
  proof (elim disjE conjE)
    assume "dumper_turn True s s'"
    then obtain ev goes_on where "clean_db (sm_db s)"
      and turn: "backgroundDumper_step ev True WriteOk (sm_db s) (sm_file s) = (sm_db s', sm_file s', goes_on)"
      by (auto simp: dumper_turn_def)
    show ?thesis
    proof (cases "pendingChanges (sm_db s)")
      case True
      have "db_peek (sm_db s') = db_peek (sm_db s)"
        using dumper_turn_tree [OF \<open>dumper_turn True s s'\<close>] by (simp add: db_peek_def fun_eq_iff)
      then show ?thesis
        using dumper_text [OF True turn] restart_peek [OF wf \<open>clean_db (sm_db s)\<close>] by (simp add: durable_def read_of_def)
    next
      case False
      then show ?thesis using turn assms(3) by (simp add: backgroundDumper_step_def durable_def)
    qed
  next
    assume "tracked.ok (sm_db s) UNIV c (sm_db s')" and "sm_file s' = sm_file s"
    then show ?thesis using assms(3) by (auto simp: tracked.ok_def tracked_def durable_def db_peek_def)
  qed
qed

lemma durable_run:
  assumes "(system_step lib True c)\<^sup>*\<^sup>* s s'" and "system_typed c s" and "durable s"
  shows "durable s'"
  using assms
proof (induction rule: rtranclp_induct)
  case (step s1 s2)
  then show ?case using durable_step system_run_typed by blast
qed simp

lemma started_durable:
  assumes "main e = Some sv" and "en_first_read e = read_of file" and "en_second_read e = read_of file"
  shows "durable (started sv early file)"
proof (rule main_server [OF assms(1)])
  assume "sv_database sv = initStorage (sv_configs sv) (en_first_read e) (en_second_read e)"
  then show ?thesis
    using NewRamCacheDB_dir [of "read_of file" "read_of file"] assms(2,3) by (simp add: durable_def started_def initStorage_def)
qed

section \<open>A blocked server\<close>

text \<open>What the VSTP side of a server still does once it is blocked in the state \<open>s0\<close>: it may answer commands that were
  pending then, and nothing else.\<close>

definition frozen :: "system \<Rightarrow> system \<Rightarrow> bool" where
  "frozen s0 s \<longleftrightarrow> sm_blocked s \<and> clientsById (sm_vstp s) = clientsById (sm_vstp s0) \<and>
     clientsByTcpCli (sm_vstp s) = clientsByTcpCli (sm_vstp s0) \<and> incomingDataBuffer (sm_vstp s) = incomingDataBuffer (sm_vstp s0) \<and>
     set (sm_lines s) \<subseteq> set (sm_lines s0) \<and>
     (\<exists>w. sm_wire s = sm_wire s0 @ w \<and> fst ` set w \<subseteq> fst ` set (sm_lines s0))"

lemma replies_to_sender:
  "fst ` set (reply cli req b) = insert cli (fst ` set b)"
  "fst ` set (snd (snd (handle_set v cli p db))) \<subseteq> {cli}"
  "fst ` set (snd (snd (handle_delete v cli p db))) \<subseteq> {cli}"
  "fst ` set (handle_get v cli p db) \<subseteq> {cli}"
  "handle_lock me v cli p db = Some (db', w) \<Longrightarrow> fst ` set w \<subseteq> {cli}"
  "fst ` set (snd (handle_unlock v cli p db)) \<subseteq> {cli}"
  "fst ` set (handle_getchilds v cli p db) \<subseteq> {cli}"
  "fst ` set (handle_lockstatus v cli p db) \<subseteq> {cli}"
proof -
  show reply: "fst ` set (reply cli req b) = insert cli (fst ` set b)" for req b
    by (auto simp: reply_def protocolWrite_def)
  show "fst ` set (snd (snd (handle_set v cli p db))) \<subseteq> {cli}"
    by (auto simp: handle_set_def Let_def split_beta reply protocolWrite_def split: option.splits)
  show "fst ` set (snd (snd (handle_delete v cli p db))) \<subseteq> {cli}"
    by (auto simp: handle_delete_def Let_def split_beta reply protocolWrite_def split: option.splits)
  show "fst ` set (handle_get v cli p db) \<subseteq> {cli}"
  proof (cases "ctrl v")
    case (Some c)
    then show ?thesis
      by (cases "GetVars c (fst (separateKeyAndValue p)) (NewDynamicVar_string []) db")
        (auto simp: handle_get_def Let_def split_beta reply protocolWrite_def image_image)
  qed (simp add: handle_get_def Let_def)
  show "fst ` set w \<subseteq> {cli}" if "handle_lock me v cli p db = Some (db', w)"
  proof -
    have "\<exists>req x y. w = reply cli req [protocolWrite cli x y]"
      using that by (auto simp: handle_lock_def Let_def split_beta split: option.splits)
    then obtain req x y where "w = reply cli req [protocolWrite cli x y]" by blast
    then show ?thesis by (simp add: reply protocolWrite_def)
  qed
  show "fst ` set (snd (handle_unlock v cli p db)) \<subseteq> {cli}"
    by (auto simp: handle_unlock_def Let_def split_beta reply protocolWrite_def)
  show "fst ` set (handle_getchilds v cli p db) \<subseteq> {cli}"
    by (cases "ctrl v") (simp_all add: handle_getchilds_def reply protocolWrite_def)
  show "fst ` set (handle_lockstatus v cli p db) \<subseteq> {cli}"
    by (cases "ctrl v") (simp_all add: handle_lockstatus_def protocolWrite_def)
qed

lemma unlocked_command:
  assumes "processReceivedMessage me cli line v db = Some (v', db', ts, w)" and "\<not> takes_clients_lock line"
  shows "v' = v \<and> fst ` set w \<subseteq> {cli}"
proof -
  obtain key p where kp: "separateKeyAndValue line = (key, p)" by fastforce
  let ?cmd = "strings_TrimSpace key" and ?p = "strings_TrimSpace p"
  have cmd: "?cmd \<noteq> ''subscribe''" "?cmd \<noteq> ''unsubscribe''" "?cmd \<noteq> ''setid''"
    using assms(2) by (simp_all add: takes_clients_lock_def kp)
  have ping: "fst ` set (reply cli req [protocolWrite cli x y]) \<subseteq> {cli}" for req x y
    by (simp add: replies_to_sender(1) protocolWrite_def)
  have "dispatch me cli ?cmd ?p v db = Some (v', db', ts, w)" using assms(1) by (simp add: processReceivedMessage_def kp)
  then have "v' = v \<and> (w = snd (snd (handle_set v cli ?p db)) \<or> w = snd (snd (handle_delete v cli ?p db)) \<or> w = handle_get v cli ?p db \<or>
      (\<exists>d. handle_lock me v cli ?p db = Some (d, w)) \<or> w = snd (handle_unlock v cli ?p db) \<or> w = handle_getchilds v cli ?p db \<or>
      w = handle_lockstatus v cli ?p db \<or> w = reply cli (''ping:'' @ ?p) [protocolWrite cli ''pong'' []] \<or> w = [])"
    using cmd unfolding dispatch_def by (elim if_SomeE) (auto simp: Let_def split_beta)
  then show ?thesis
    using ping replies_to_sender(2-4,6-8) [of v cli ?p db] replies_to_sender(5) [of me v cli ?p db]
    by (elim conjE disjE exE) simp_all
qed

lemma frozen_step:
  assumes "system_step lib reliable c s s'" and "frozen s0 s"
  shows "frozen s0 s'"
  using assms
proof (induction rule: system_step.induct)
  case (connect_stuck s cli m)
  then show ?case by (simp add: frozen_def connect_store_def)
next
  case (command s l1 cli line l2 me elapsed v' db' ts w)
  have b: "sm_blocked s" using command.prems by (simp add: frozen_def)
  have v: "v' = sm_vstp s" and w: "fst ` set w \<subseteq> {cli}"
    using unlocked_command [OF command.hyps(4)] command.hyps(3) b by blast+
  have "cli \<in> fst ` set (sm_lines s0)" using command.prems command.hyps(1) by (force simp: frozen_def)
  then have "fst ` set w \<subseteq> fst ` set (sm_lines s0)" using w by blast
  with command.prems command.hyps(1) v show ?case
    by (auto simp: frozen_def image_Un)
next
  case (goroutine s t1 t t2 sendOk writeOk e db' ts out h' w)
  then have "to_api GetApiId out = []" by (simp add: frozen_def)
  then show ?case using goroutine.prems by (simp add: frozen_def wire_of_def)
qed (auto simp: frozen_def)

lemma frozen_run: "(system_step lib reliable c)\<^sup>*\<^sup>* s s' \<Longrightarrow> frozen s0 s \<Longrightarrow> frozen s0 s'"
  by (induction rule: rtranclp_induct) (auto intro: frozen_step)

section \<open>One client that writes a variable twice\<close>

definition set_request :: "string \<Rightarrow> string \<Rightarrow> string" where
  "set_request n val = ''set:'' @ n @ ''='' @ val"

text \<open>What such a line needs to be carried out.\<close>

definition settable :: "TheController \<Rightarrow> RamCacheDB \<Rightarrow> string \<Rightarrow> string \<Rightarrow> bool" where
  "settable c r n val \<longleftrightarrow> set n \<subseteq> set valid_name_chars - {CHR ''*''} \<and> accepts c n (NewDynamicVar_string val) \<and>
     strings_TrimSpace (n @ ''='' @ val) = n @ ''='' @ val \<and> \<not> IsLocked ramStorage (vh_for c n) r"

lemma settable_SetValue: "db_wf r \<Longrightarrow> settable c (SetValue ramStorage (vh_for c n) v r) n val = settable c r n val"
  by (simp add: settable_def IsLocked_SetValue)

lemma set_line:
  assumes "system_typed c s" and "sm_lines s = l1 @ (cli, set_request n val) # l2" and "settable c (sm_db s) n val"
  obtains s' where "system_step lib reliable c s s'" and "sm_lines s' = l1 @ l2"
    and "sm_db s' = SetValue ramStorage (vh_for c n) (NewDynamicVar_string val) (sm_db s)"
proof -
  let ?me = "\<lparr>m_env = demo_env, m_nanos = 0, m_sendOk = (\<lambda>_. True), m_sched = []\<rparr>"
  have n: "set n \<subseteq> set valid_name_chars" "n \<noteq> []" and c: "ctrl (sm_vstp s) = Some c"
    using assms by (auto simp: settable_def accepts_def system_typed_def refs_def)
  have split: "separateKeyAndValue (n @ ''='' @ val) = (n, val)"
    using separateKeyAndValue_split [OF name_no_separator [OF n(1)], of "CHR ''=''" val] by simp
  have "SetVar c n (NewDynamicVar_string val) (sm_db s) =
      (None, SetValue ramStorage (vh_for c n) (NewDynamicVar_string val) (sm_db s), [NotifyModification n (NewDynamicVar_string val)])"
    using assms(3) GetOnly_id [OF n(1)] SetString_self [of "NewDynamicVar_string val"]
    by (cases rule: SetVar_cases [of c n "NewDynamicVar_string val" "sm_db s"]) (auto simp: settable_def)
  then obtain w where "processReceivedMessage ?me cli (set_request n val) (sm_vstp s) (sm_db s) =
      Some (sm_vstp s, SetValue ramStorage (vh_for c n) (NewDynamicVar_string val) (sm_db s), [NotifyModification n (NewDynamicVar_string val)], w)"
    using assms(3) c split n(2) unfolding set_request_def process_set by (simp add: settable_def dispatch_def handle_set_def)
  note step = system_step.command [OF assms(2) _ _ this]
  have free: "\<not> takes_clients_lock (set_request n val)"
    using separateKeyAndValue_split [of "''set''" "CHR '':''" "n @ ''='' @ val"]
    by (simp add: takes_clients_lock_def set_request_def TrimSpace_set)
  show thesis by (rule that, rule step) (simp_all add: free)
qed

text \<open>Both lines are carried out, the one with \<open>va\<close> before the one with \<open>vb\<close>.\<close>

lemma set_lines:
  assumes "system_typed c s" and "sm_lines s = [(cli, set_request n v1), (cli, set_request n v2)]"
    and "settable c (sm_db s) n v1" and "settable c (sm_db s) n v2" and "(va, vb) \<in> {(v1, v2), (v2, v1)}"
  obtains s' where "(system_step lib reliable c)\<^sup>*\<^sup>* s s'" and "sm_lines s' = []" and "db_peek (sm_db s') (var_path c n) = vb"
proof -
  have wf: "db_wf (sm_db s)" using assms(1) by (simp add: system_typed_def)
  have star: "CHR ''*'' \<notin> set n" using assms(3) by (auto simp: settable_def)
  obtain l1 l2 where l: "sm_lines s = l1 @ (cli, set_request n va) # l2" "l1 @ l2 = [(cli, set_request n vb)]"
  proof (cases "va = v1")
    case True
    then show thesis using assms(2,5) by (intro that [of "[]" "[(cli, set_request n v2)]"]) auto
  next
    case False
    then show thesis using assms(2,5) by (intro that [of "[(cli, set_request n v1)]" "[]"]) auto
  qed
  have "settable c (sm_db s) n va" using assms(3-5) by auto
  then obtain s1 where s1: "system_step lib reliable c s s1" "sm_lines s1 = [(cli, set_request n vb)]"
    "sm_db s1 = SetValue ramStorage (vh_for c n) (NewDynamicVar_string va) (sm_db s)"
    using set_line [OF assms(1) l(1)] unfolding l(2) by metis
  have t1: "system_typed c s1" by (rule system_typed_step [OF s1(1) assms(1)])
  have "settable c (sm_db s1) n vb" using assms(3-5) by (auto simp: s1(3) settable_SetValue [OF wf])
  then obtain s2 where s2: "system_step lib reliable c s1 s2" "sm_lines s2 = []"
    "sm_db s2 = SetValue ramStorage (vh_for c n) (NewDynamicVar_string vb) (sm_db s1)"
    using set_line [OF t1, of "[]" cli n vb "[]"] unfolding s1(2) append.simps by metis
  have "db_peek (sm_db s2) (var_path c n) = vb"
    using SetValue_peek [of "sm_db s1" c n] SetValue_wf [OF wf] star by (simp add: s2(3) s1(3) star_vh_name)
  with that [of s2] s1(1) s2 show thesis by (meson converse_rtranclp_into_rtranclp r_into_rtranclp)
qed

section \<open>A run of the default configuration\<close>

lemma started_accepts:
  assumes "main e = Some sv" and "x \<noteq> CHR ''_''" and "x \<noteq> CHR ''.''" and "length val \<le> 1"
  shows "accepts (sv_controller sv) [x] (NewDynamicVar_string val)"
proof (rule main_server [OF assms(1)])
  fix c0
  assume "sv_configs sv = initConfigurations (en_computer e)" and c0: "c0 = NewController (conf_value (sv_configs sv)) INFO_VERSION"
    and c: "sv_controller sv = c0\<lparr>apis := apis (sv_controller sv)\<rparr>"
  then have "1 \<le> maxKeyLength c0 \<and> 1 \<le> maxKeyWordLength c0 \<and> 1 \<le> maxValueSize c0"
    using valid_lengths [of "en_computer e" INFO_VERSION] by simp
  moreover have "\<not> strings_Contains [x] ''._''" by simp
  ultimately have "accepts c0 [x] (NewDynamicVar_string val)" using assms(2-4) by (simp add: accepts_def parts_no_dot)
  then show ?thesis by (subst c) (simp add: accepts_def)
qed

lemma demo_start:
  obtains sv where "main (demo_environment [] rd) = Some sv" and "\<not> allowRawDbAccess (sv_controller sv)"
proof -
  let ?h = "demo_host []"
  have env: "en_computer (demo_environment [] rd) = ?h" "en_listen (demo_environment [] rd) = (\<lambda>_. None)"
    by (simp_all add: demo_environment_def)
  have raw: "\<not> allowRawDbAccess (NewController (conf_value (initConfigurations ?h)) INFO_VERSION)"
    using demo_confs(2) by (simp add: NewController_def)
  have "start_server ?h z rd1 rd2 \<noteq> None" for z rd1 rd2
    using start_server_iff [of ?h z rd1 rd2] by (simp add: demo_host_def)
  then have "main (demo_environment [] rd) \<noteq> None"
    using demo_confs by (simp add: main_None_iff env dumper_period_def wrap64_def)
  then obtain sv where sv: "main (demo_environment [] rd) = Some sv" by blast
  show thesis
  proof (rule main_server [OF sv])
    fix c0
    assume "sv_configs sv = initConfigurations (en_computer (demo_environment [] rd))"
      and "c0 = NewController (conf_value (sv_configs sv)) INFO_VERSION" and c: "sv_controller sv = c0\<lparr>apis := apis (sv_controller sv)\<rparr>"
    then have "\<not> allowRawDbAccess c0" using raw env by simp
    moreover have "allowRawDbAccess (sv_controller sv) = allowRawDbAccess c0" by (subst c) simp
    ultimately show thesis using that sv by simp
  qed
qed

text \<open>One client is connected to a server that started without a dump.\<close>

lemma demo_run:
  obtains sv s where "main (demo_environment [] FileNotExist) = Some sv" and "\<not> allowRawDbAccess (sv_controller sv)" and "sm_db s = sv_database sv" and "sm_lines s = []"
    and "(system_step demo_lib reliable (sv_controller sv))\<^sup>*\<^sup>* (started sv [] None) s" and "7 \<in> set (sm_open s)" and "\<not> sm_blocked s"
    and "map_of (incomingDataBuffer (sm_vstp s)) 7 = Some []"
proof -
  obtain sv where sv: "main (demo_environment [] FileNotExist) = Some sv" "\<not> allowRawDbAccess (sv_controller sv)" by (rule demo_start)
  let ?s = "started sv [] None"
  have v: "clientsByTcpCli (sm_vstp ?s) = []"
    using sv(1) by (auto simp: main_def start_VSTP_def http_New_def NewVSTP_def started_def Let_def split: option.splits sum.splits if_splits)
  obtain v' w where o: "onConnect 0 0 ''x'' 7 (sm_vstp ?s) = (v', w)" by fastforce
  have "system_step demo_lib reliable (sv_controller sv) ?s (?s\<lparr>sm_vstp := v', sm_open := [7], sm_wire := w\<rparr>)"
    using system_step.connect [OF _ _ _ o] v by (simp add: started_def)
  moreover have "map_of (incomingDataBuffer v') 7 = Some []"
    using o by (auto simp: connect_defs Let_def update_conv)
  ultimately show thesis using sv by (intro that [of sv "?s\<lparr>sm_vstp := v', sm_open := [7], sm_wire := w\<rparr>"]) (auto simp: started_def)
qed

lemma received:
  assumes "map_of (incomingDataBuffer v) cli = Some []" and "take_lines dat = (ls, rest)"
  shows "onData cli dat v = Some (v\<lparr>incomingDataBuffer := AList.update cli rest (incomingDataBuffer v)\<rparr>, ls)"
  using assms by (simp add: onData_def)

lemma demo_root:
  assumes "main (demo_environment [] FileNotExist) = Some sv"
  shows "root (sv_database sv) = RamNode [] NewEmptyDynamicVar []"
  by (rule main_server [OF assms])
    (simp add: demo_environment_def initStorage_def NewRamCacheDB_def load_def Let_def)

lemma demo_settable:
  assumes "main (demo_environment [] FileNotExist) = Some sv" and "val \<in> {''1'', ''2''}"
  shows "settable (sv_controller sv) (sv_database sv) ''a'' val"
proof -
  have "db_peek (sv_database sv) p = []" if "p \<noteq> []" for p
    using that by (cases p) (simp_all add: demo_root [OF assms(1)] db_peek_def value_at_def)
  moreover have "db_wf (sv_database sv)" by (simp add: db_wf_def demo_root [OF assms(1)])
  ultimately have "\<not> IsLocked ramStorage (vh_for (sv_controller sv) ''a'') (sv_database sv)" by (simp add: ram.IsLocked_peek)
  moreover have "strings_TrimSpace ''a=1'' = ''a=1''" "strings_TrimSpace ''a=2'' = ''a=2''" by code_simp+
  ultimately show ?thesis
    using started_accepts [OF assms(1), of "CHR ''a''" val] assms(2) by (auto simp: settable_def valid_name_chars_def)
qed

lemma demo_pipeline:
  obtains sv s dat v' where "main (demo_environment [] FileNotExist) = Some sv" and "\<not> allowRawDbAccess (sv_controller sv)"
    and "(system_step demo_lib reliable (sv_controller sv))\<^sup>*\<^sup>* (started sv [] None) s" and "sm_lines s = []" and "\<not> sm_blocked s" and "7 \<in> set (sm_open s)"
    and "onData 7 dat (sm_vstp s) = Some (v', [set_request ''a'' ''1'', set_request ''a'' ''2''])" and "sm_db s = sv_database sv"
proof -
  have "\<exists>rest. take_lines (''set:a=1'' @ nl # ''set:a=2'' @ [nl]) = ([set_request ''a'' ''1'', set_request ''a'' ''2''], rest)"
    by (rule exI [of _ "[]"]) code_simp
  then show thesis using received that by (elim exE) (rule demo_run, blast)
qed

text \<open>The first of the two lines has been carried out.\<close>

lemma demo_written:
  obtains sv s where "main (demo_environment [] FileNotExist) = Some sv" and "\<not> allowRawDbAccess (sv_controller sv)"
    and "(system_step demo_lib reliable (sv_controller sv))\<^sup>*\<^sup>* (started sv [] None) s" and "pendingChanges (sm_db s)"
    and "root (sm_db s) = RamNode [] NewEmptyDynamicVar
      [(''vars'', RamNode ''vars'' NewEmptyDynamicVar [(''a'', RamNode ''a'' (NewDynamicVar_string ''1'') [])])]"
proof -
  obtain sv s dat v' where sv: "main (demo_environment [] FileNotExist) = Some sv" "\<not> allowRawDbAccess (sv_controller sv)"
    and run: "(system_step demo_lib reliable (sv_controller sv))\<^sup>*\<^sup>* (started sv [] None) s" and s: "sm_lines s = []" "\<not> sm_blocked s" "7 \<in> set (sm_open s)"
    and d: "onData 7 dat (sm_vstp s) = Some (v', [set_request ''a'' ''1'', set_request ''a'' ''2''])" and db: "sm_db s = sv_database sv"
    by (rule demo_pipeline)
  let ?c = "sv_controller sv" and ?s1 = "s\<lparr>sm_vstp := v', sm_lines := [(7, set_request ''a'' ''1''), (7, set_request ''a'' ''2'')]\<rparr>"
  have "system_step demo_lib reliable ?c s ?s1" using system_step.receive [OF s(2,3) d] s(1) by simp
  with run have run1: "(system_step demo_lib reliable ?c)\<^sup>*\<^sup>* (started sv [] None) ?s1" by simp
  have typed: "system_typed ?c ?s1" by (rule system_run_typed [OF run1 started_typed [OF sv(1)]])
  obtain s2 where s2: "system_step demo_lib reliable ?c ?s1 s2"
    "sm_db s2 = SetValue ramStorage (vh_for ?c ''a'') (NewDynamicVar_string ''1'') (sv_database sv)"
    by (rule set_line [OF typed, of "[]" 7 "''a''" "''1''"]) (use demo_settable [OF sv(1)] db in simp_all)
  have "vh_name (vh_for ?c ''a'') = ''vars.a''" using sv(2) by (simp add: vh_name_for strings_HasPrefix_def)
  moreover have "key_path ''vars.a'' = [''vars'', ''a'']" by code_simp
  ultimately show thesis using that [of sv s2] sv run1 s2 demo_root [OF sv(1)]
    by (simp add: SetValue_def Set_def ramStorage_def scrollTree_create new_node_def rtranclp.rtrancl_into_rtrancl)
qed

section \<open>Properties\<close>

text \<open>C8. Every state the running server can reach, by any interleaving of its goroutines and whatever connections were
  accepted before its callbacks were set, is well typed: the tree is well formed, the maps of clients agree with each
  other and have one entry for a key, no buffer holds a whole line and no pending command contains a line break. Every
  open connection has its buffer, but for those accepted too early, which have none (the first data of one blocks the
  server), and those that come in while the server is blocked.\<close>

theorem system_state_typed:
  assumes "main e = Some sv" and "(system_step lib reliable (sv_controller sv))\<^sup>*\<^sup>* (started sv early file) s"
  shows "system_typed (sv_controller sv) s"
  by (rule system_run_typed [OF assms(2) started_typed [OF assms(1)]])

theorem system_state_typed_witness:
  "\<exists>sv s. main (demo_environment [] FileNotExist) = Some sv \<and> 7 \<in> set (sm_open s) \<and> system_typed (sv_controller sv) s"
proof -
  obtain sv s where "main (demo_environment [] FileNotExist) = Some sv" "7 \<in> set (sm_open s)"
    "(system_step demo_lib True (sv_controller sv))\<^sup>*\<^sup>* (started sv [] None) s" by (rule demo_run)
  then show ?thesis using system_state_typed by blast
qed

text \<open>C10. The server keeps to its own part of the database: without raw access no run of it, whatever the clients send,
  creates a key outside the subtrees of the variables and of the client data, other than below a top-level key that
  the loaded file already had.\<close>

theorem server_keeps_to_its_subtrees:
  assumes "main e = Some sv" and "\<not> allowRawDbAccess (sv_controller sv)"
    and "(system_step lib reliable (sv_controller sv))\<^sup>*\<^sup>* (started sv early file) s" and "p \<noteq> []" and "db_node (sm_db s) p"
  shows "hd p \<in> {''vars'', ''internal''} \<or> (\<exists>q. q \<noteq> [] \<and> hd q = hd p \<and> db_node (sv_database sv) q)"
proof -
  let ?X = "{x. \<exists>q. q \<noteq> [] \<and> hd q = x \<and> db_node (sv_database sv) q}"
  note typed = started_typed [OF assms(1)]
  have "wf.ok ?X (sv_controller sv) (sm_db (started sv early file))"
    using typed by (auto simp: wf.ok_def confined_def started_def system_typed_def)
  from system_run_ok [OF assms(3) typed this] show ?thesis using assms(2,4,5) by (auto simp: wf.ok_def confined_def)
qed

theorem server_keeps_to_its_subtrees_witness:
  "\<exists>sv s. main (demo_environment [] FileNotExist) = Some sv \<and>
     (system_step demo_lib True (sv_controller sv))\<^sup>*\<^sup>* (started sv [] None) s \<and> db_node (sm_db s) [''vars'', ''a''] \<and>
     (''vars'' \<in> {''vars'', ''internal''} \<or> (\<exists>q. q \<noteq> [] \<and> hd q = ''vars'' \<and> db_node (sv_database sv) q))"
proof -
  obtain sv s where sv: "main (demo_environment [] FileNotExist) = Some sv" "\<not> allowRawDbAccess (sv_controller sv)"
    and run: "(system_step demo_lib True (sv_controller sv))\<^sup>*\<^sup>* (started sv [] None) s"
    and root: "root (sm_db s) = RamNode [] NewEmptyDynamicVar
      [(''vars'', RamNode ''vars'' NewEmptyDynamicVar [(''a'', RamNode ''a'' (NewDynamicVar_string ''1'') [])])]"
    by (rule demo_written)
  have node: "db_node (sm_db s) [''vars'', ''a'']" by (simp add: db_node_def root value_at_def)
  from server_keeps_to_its_subtrees [OF sv run _ this] sv(1) run node show ?thesis by auto
qed

text \<open>C7. The database is durable: take any run of the server, started from the file of the last one, in which the
  dumper's turns succeed and meet keys and values that fit the format of the dump. Whenever no change is
  pending, a server started from the file that is on the disk then shows every variable with the value it has.\<close>

theorem database_is_durable:
  assumes "main e = Some sv" and "en_first_read e = read_of file" and "en_second_read e = read_of file"
    and "(system_step lib True (sv_controller sv))\<^sup>*\<^sup>* (started sv early file) s" and "\<not> pendingChanges (sm_db s)"
    and "main e' = Some sv'" and "en_first_read e' = read_of (sm_file s)" and "en_second_read e' = read_of (sm_file s)"
    and "p \<noteq> []"
  shows "db_peek (sv_database sv') p = db_peek (sm_db s) p"
proof -
  have "durable s"
    by (rule durable_run [OF assms(4) started_typed [OF assms(1)] started_durable [OF assms(1-3)]])
  then show ?thesis using assms(5,7-9) by (auto simp: durable_def initStorage_def intro: main_server [OF assms(6)])
qed

theorem database_is_durable_witness:
  "\<exists>sv s sv'. main (demo_environment [] FileNotExist) = Some sv \<and>
     (system_step demo_lib True (sv_controller sv))\<^sup>*\<^sup>* (started sv [] None) s \<and>
     main (demo_environment [] (read_of (sm_file s))) = Some sv' \<and> db_peek (sv_database sv') [''vars'', ''a''] = ''1''"
proof -
  obtain sv s where sv: "main (demo_environment [] FileNotExist) = Some sv"
    and run: "(system_step demo_lib True (sv_controller sv))\<^sup>*\<^sup>* (started sv [] None) s" and pending: "pendingChanges (sm_db s)"
    and root: "root (sm_db s) = RamNode [] NewEmptyDynamicVar
      [(''vars'', RamNode ''vars'' NewEmptyDynamicVar [(''a'', RamNode ''a'' (NewDynamicVar_string ''1'') [])])]"
    by (rule demo_written)
  let ?s = "s\<lparr>sm_db := (sm_db s)\<lparr>pendingChanges := False\<rparr>, sm_file := Some (dumpToStringLocked (root (sm_db s)) [])\<rparr>"
  have "clean_db (sm_db s)" unfolding clean_db_def root by code_simp
  then have "system_step demo_lib True (sv_controller sv) s ?s"
    using pending by (intro system_step.dumper [where ev = TickerFired and goes_on = True])
      (simp_all add: backgroundDumper_step_def dump_def)
  with run have run1: "(system_step demo_lib True (sv_controller sv))\<^sup>*\<^sup>* (started sv [] None) ?s" by simp
  obtain sv' where sv': "main (demo_environment [] (read_of (sm_file ?s))) = Some sv'" by (rule demo_start)
  have "db_peek (sv_database sv') [''vars'', ''a''] = db_peek (sm_db ?s) [''vars'', ''a'']"
    by (rule database_is_durable [OF sv _ _ run1 _ sv']) (simp_all add: demo_environment_def read_of_def)
  also have "... = ''1''" by (simp add: db_peek_def root value_at_def)
  finally show ?thesis using sv run1 sv' by blast
qed



text \<open>C39. Each received line runs in a goroutine of its own, so two commands that one client sends together to a server that
  still reads may be carried out in either order: after \<open>set:n=v1\<close> and \<open>set:n=v2\<close> in one piece of data the variable may
  end with either value.\<close>

theorem pipelined_sets_may_swap:
  assumes "system_typed c s" and "sm_lines s = []" and "\<not> sm_blocked s" and "cli \<in> set (sm_open s)"
    and "onData cli dat (sm_vstp s) = Some (v', [set_request n v1, set_request n v2])"
    and "settable c (sm_db s) n v1" and "settable c (sm_db s) n v2" and "val \<in> {v1, v2}"
  shows "\<exists>s'. (system_step lib reliable c)\<^sup>*\<^sup>* s s' \<and> sm_lines s' = [] \<and> db_peek (sm_db s') (var_path c n) = val"
proof -
  let ?s = "s\<lparr>sm_vstp := v', sm_lines := [(cli, set_request n v1), (cli, set_request n v2)]\<rparr>"
  have step: "system_step lib reliable c s ?s" using system_step.receive [OF assms(3-5)] assms(2) by simp
  have typed: "system_typed c ?s" by (rule system_typed_step [OF step assms(1)])
  obtain va where va: "(va, val) \<in> {(v1, v2), (v2, v1)}" using assms(8) by blast
  have "\<exists>s'. (system_step lib reliable c)\<^sup>*\<^sup>* ?s s' \<and> sm_lines s' = [] \<and> db_peek (sm_db s') (var_path c n) = val"
    by (rule set_lines [OF typed _ _ _ va]) (use assms(6,7) in auto)
  then obtain s' where "(system_step lib reliable c)\<^sup>*\<^sup>* ?s s'" "sm_lines s' = []" "db_peek (sm_db s') (var_path c n) = val" by blast
  with converse_rtranclp_into_rtranclp [of "system_step lib reliable c", OF step] show ?thesis by blast
qed

theorem pipelined_sets_may_swap_witness:
  "\<exists>sv s1 s2. (system_step demo_lib True (sv_controller sv))\<^sup>*\<^sup>* (started sv [] None) s1 \<and>
     (system_step demo_lib True (sv_controller sv))\<^sup>*\<^sup>* (started sv [] None) s2 \<and> sm_lines s1 = [] \<and> sm_lines s2 = [] \<and>
     db_peek (sm_db s1) [''vars'', ''a''] = ''1'' \<and> db_peek (sm_db s2) [''vars'', ''a''] = ''2''"
proof -
  obtain sv s dat v' where sv: "main (demo_environment [] FileNotExist) = Some sv" "\<not> allowRawDbAccess (sv_controller sv)"
    and run: "(system_step demo_lib True (sv_controller sv))\<^sup>*\<^sup>* (started sv [] None) s" and s: "sm_lines s = []" "\<not> sm_blocked s" "7 \<in> set (sm_open s)"
    and d: "onData 7 dat (sm_vstp s) = Some (v', [set_request ''a'' ''1'', set_request ''a'' ''2''])" and db: "sm_db s = sv_database sv"
    by (rule demo_pipeline)
  have typed: "system_typed (sv_controller sv) s" by (rule system_run_typed [OF run started_typed [OF sv(1)]])
  have ok: "settable (sv_controller sv) (sm_db s) ''a'' ''1''" "settable (sv_controller sv) (sm_db s) ''a'' ''2''"
    using demo_settable [OF sv(1)] db by simp_all
  have path: "var_path (sv_controller sv) ''a'' = [''vars'', ''a'']"
    using sv(2) by (simp add: var_path_def vh_name_for strings_HasPrefix_def key_path.simps split_key_def)
  have "\<exists>s'. (system_step demo_lib True (sv_controller sv))\<^sup>*\<^sup>* s s' \<and> sm_lines s' = [] \<and> db_peek (sm_db s') [''vars'', ''a''] = val"
    if "val \<in> {''1'', ''2''}" for val
    using pipelined_sets_may_swap [OF typed s d ok that] by (simp only: path)
  from this [of "''1''"] this [of "''2''"] run show ?thesis by (meson insertI1 insertI2 rtranclp_trans)
qed

end
