(* ===== verification/VarLocks.thy ===== *)
theory VarLocks
  imports Controller NamedLock
begin

text \<open>
  The lock of a variable under concurrency: \<open>Lock\<close> and \<open>Unlock\<close> of \<open>controller_varhelper.go\<close> and \<open>SetVar\<close> of
  \<open>controller.go\<close>, with a step for each access to the storage. \<open>Lock\<close> and \<open>Unlock\<close> run their accesses inside the named
  lock \<open>varLockerSystem\<close>, \<open>SetVar\<close> does not.
\<close>

section \<open>Goroutines\<close>

text \<open>Goroutine \<open>p\<close> carries out the request \<open>req p\<close>.\<close>

datatype request = LockRequest string | UnlockRequest string | SetRequest string string

text \<open>
  Where a goroutine is: not inside the named lock, waiting for its token, inside and before its first access, after the
  test found the variable free, after the flag was set, before the release with the result of the attempt; a
  \<open>SetVar\<close> past its test; and returned, with the error.
\<close>

datatype point = Begins | Waits | Enters | SawFree | FlagSet | Leaves bool | MayWrite | Answered "string option"

text \<open>What has happened. A lock belongs to the text of a key: a test, a grant and a release name that text. A write names the
  path of the variable in the tree, which two texts may share, as the tree drops a final dot.\<close>

datatype event = Checked nat string | Granted nat string | Freed nat string | Written nat path

record grain =
  g_db :: RamCacheDB
  g_locks :: locks
  g_at :: "nat \<Rightarrow> point"
  g_hist :: "event list"

definition moves :: "nat \<Rightarrow> point \<Rightarrow> grain \<Rightarrow> grain" where
  "moves p x s = s\<lparr>g_at := (g_at s)(p := x)\<rparr>"

abbreviation varLockerSystem :: string where
  "varLockerSystem \<equiv> ''varLockerSystem''"

abbreviation key_of :: "TheController \<Rightarrow> string \<Rightarrow> string" where
  "key_of c n \<equiv> vh_name (vh_for c n)"

definition lock_flag :: "TheController \<Rightarrow> string \<Rightarrow> string \<Rightarrow> RamCacheDB \<Rightarrow> RamCacheDB" where
  "lock_flag c n v db = SetFlag ramStorage (vh_for c n) ''lock'' (NewDynamicVar_string v) db"

text \<open>
  \<open>lookup\<close>, \<open>enter\<close> and \<open>leave\<close> are \<open>NamedLockRun\<close> with the timeout 0, which waits without limit. A failed attempt
  tries again, or ends when the time is over. A name with \<open>*\<close> is accepted and writes nothing.
\<close>

inductive lock_step :: "TheController \<Rightarrow> (nat \<Rightarrow> request) \<Rightarrow> grain \<Rightarrow> grain \<Rightarrow> bool" for c req where
  lookup: "g_at s p = Begins \<Longrightarrow> \<forall>n v. req p \<noteq> SetRequest n v \<Longrightarrow>
    lock_step c req s (moves p Waits (s\<lparr>g_locks := lookupNamedLock varLockerSystem (g_locks s)\<rparr>))"
| enter: "g_at s p = Waits \<Longrightarrow> takeToken varLockerSystem (g_locks s) = Some ls \<Longrightarrow>
    lock_step c req s (moves p Enters (s\<lparr>g_locks := ls\<rparr>))"
| test: "g_at s p = Enters \<Longrightarrow> req p = LockRequest n \<Longrightarrow>
    lock_step c req s (moves p (if IsLocked ramStorage (vh_for c n) (g_db s) then Leaves False else SawFree) s)"
| set_flag: "g_at s p = SawFree \<Longrightarrow> req p = LockRequest n \<Longrightarrow>
    lock_step c req s (moves p FlagSet (s\<lparr>g_db := lock_flag c n ''1'' (g_db s), g_hist := g_hist s @ [Granted p (key_of c n)]\<rparr>))"
| retest: "g_at s p = FlagSet \<Longrightarrow> req p = LockRequest n \<Longrightarrow>
    lock_step c req s (moves p (Leaves (IsLocked ramStorage (vh_for c n) (g_db s))) s)"
| clear_flag: "g_at s p = Enters \<Longrightarrow> req p = UnlockRequest n \<Longrightarrow>
    lock_step c req s (moves p (Leaves True) (s\<lparr>g_db := lock_flag c n ''0'' (g_db s), g_hist := g_hist s @ [Freed p (key_of c n)]\<rparr>))"
| leave: "g_at s p = Leaves got \<Longrightarrow> x \<in> (if got then {Answered None} else {Begins, Answered (Some ''timeout reached'')}) \<Longrightarrow>
    lock_step c req s (moves p x (s\<lparr>g_locks := releaseNamedLock varLockerSystem (g_locks s)\<rparr>))"
| refuse: "g_at s p = Begins \<Longrightarrow> req p = SetRequest n v \<Longrightarrow> \<not> accepts c (GetOnly n valid_name_chars) (NewDynamicVar_string v) \<Longrightarrow>
    lock_step c req s (moves p (Answered (fst (SetVar c n (NewDynamicVar_string v) (g_db s)))) s)"
| check: "g_at s p = Begins \<Longrightarrow> req p = SetRequest n v \<Longrightarrow> accepts c (GetOnly n valid_name_chars) (NewDynamicVar_string v) \<Longrightarrow>
    lock_step c req s (moves p (if IsLocked ramStorage (vh_for c (GetOnly n valid_name_chars)) (g_db s)
        then Answered (Some ''variable is locked'') else MayWrite)
        (s\<lparr>g_hist := g_hist s @ [Checked p (key_of c (GetOnly n valid_name_chars))]\<rparr>))"
| write_value: "g_at s p = MayWrite \<Longrightarrow> req p = SetRequest n v \<Longrightarrow>
    lock_step c req s (moves p (Answered None)
      (s\<lparr>g_db := SetValue ramStorage (vh_for c (GetOnly n valid_name_chars)) (NewDynamicVar_string v) (g_db s),
         g_hist := g_hist s @ (if CHR ''*'' \<in> set (GetOnly n valid_name_chars) then []
                               else [Written p (var_path c (GetOnly n valid_name_chars))])\<rparr>))"

definition at_rest :: "RamCacheDB \<Rightarrow> grain" where
  "at_rest db = \<lparr>g_db = db, g_locks = (\<lambda>_. None), g_at = (\<lambda>_. Begins), g_hist = []\<rparr>"

section \<open>The history of a lock\<close>

fun lock_event :: "string \<Rightarrow> bool \<Rightarrow> event \<Rightarrow> bool" where
  "lock_event k b (Granted p m) = (b \<or> m = k)"
| "lock_event k b (Freed p m) = (b \<and> m \<noteq> k)"
| "lock_event k b (Checked p m) = b"
| "lock_event k b (Written p m) = b"

text \<open>Whether the variable is locked after a history.\<close>

definition locked_after :: "string \<Rightarrow> bool \<Rightarrow> event list \<Rightarrow> bool" where
  "locked_after k b h = foldl (lock_event k) b h"

lemma locked_after_simps [simp]:
  "locked_after k b [] = b" "locked_after k b (h @ [e]) = lock_event k (locked_after k b h) e"
  "locked_after k b (e # h) = locked_after k (lock_event k b e) h"
  "locked_after k b (h @ h') = locked_after k (locked_after k b h) h'"
  by (simp_all add: locked_after_def)

lemma locked_stays: "locked_after k True h \<or> (\<exists>r. Freed r k \<in> set h)"
proof (induction h rule: rev_induct)
  case (snoc e h)
  then show ?case by (cases e) auto
qed simp

section \<open>The flag of a lock\<close>

definition flag_at :: "string \<Rightarrow> RamCacheDB \<Rightarrow> bool" where
  "flag_at k r \<longleftrightarrow> db_peek r (parts k @ [''_lock'']) \<notin> {[], ''0''}"

lemma IsLocked_flag: "db_wf r \<Longrightarrow> IsLocked ramStorage (vh_for c n) r = flag_at (key_of c n) r"
  by (simp add: ram.IsLocked_peek flag_at_def)

lemma flag_at_lock_flag:
  "db_wf r \<Longrightarrow> flag_at k (lock_flag c n v r) = (if k = key_of c n then v \<notin> {[], ''0''} else flag_at k r)"
  using ram.lock_flag_set(2) [of r "vh_for c n" "NewDynamicVar_string v"]
    ram.lock_flag_set(3) [where db = r and c = "vh_for c n" and v = "NewDynamicVar_string v"]
  by (auto simp: lock_flag_def flag_at_def ram.IsLocked_peek ram.lock_flag_set(1))

lemma lock_flag_wf: "db_wf r \<Longrightarrow> db_wf (lock_flag c n v r)"
  by (simp add: lock_flag_def ram.lock_flag_set)

text \<open>A variable that \<open>SetVar\<close> accepts is no lock.\<close>

lemma accepted_path_visible:
  assumes "\<not> allowRawDbAccess c" and "accepts c n v"
  shows "visible (var_path c n)"
proof -
  have vis: "visible (key_path n)"
    using assms by (intro visible_key_path guarded_name_visible) (auto simp: accepts_def containsUnderscoreDot_iff)
  show ?thesis
  proof (cases "strings_HasPrefix n ''vars.''")
    case True
    then show ?thesis using vis by (simp add: var_path_def vh_name_for)
  next
    case False
    then have "plain c n" using assms(1) by (simp add: plain_def)
    then show ?thesis using vis assms(2) by (simp add: var_path_plain accepts_def)
  qed
qed

lemma flag_at_SetValue:
  assumes "\<not> allowRawDbAccess c" and "accepts c n v" and "db_wf r"
  shows "flag_at k (SetValue ramStorage (vh_for c n) v' r) = flag_at k r"
proof -
  have "\<not> visible (parts k @ [''_lock''])" by simp
  then have "parts k @ [''_lock''] \<noteq> var_path c n" using accepted_path_visible [OF assms(1,2)] by metis
  then show ?thesis using SetValue_peek [OF assms(3), of c n v'] by (simp add: flag_at_def)
qed

section \<open>The invariant\<close>

fun has_token :: "point \<Rightarrow> bool" where
  "has_token Begins = False"
| "has_token Waits = False"
| "has_token MayWrite = False"
| "has_token (Answered e) = False"
| "has_token x = True"

fun event_ok :: "(string \<Rightarrow> bool) \<Rightarrow> event list \<Rightarrow> event \<Rightarrow> bool" where
  "event_ok L h (Granted p k) = (\<not> locked_after k (L k) h)"
| "event_ok L h (Written p x) = (\<exists>a k b. h = a @ Checked p k # b \<and> key_path k = x \<and> \<not> locked_after k (L k) a)"
| "event_ok L h e = True"

definition hist_ok :: "(string \<Rightarrow> bool) \<Rightarrow> event list \<Rightarrow> bool" where
  "hist_ok L h \<longleftrightarrow> (\<forall>xs e ys. h = xs @ e # ys \<longrightarrow> event_ok L xs e)"

lemma hist_ok_snoc [simp]: "hist_ok L [] \<and> (hist_ok L (h @ [e]) \<longleftrightarrow> hist_ok L h \<and> event_ok L h e)"
proof -
  have "h @ [e] = xs @ x # ys \<longleftrightarrow> (ys = [] \<and> h = xs \<and> e = x) \<or> (\<exists>zs. ys = zs @ [e] \<and> h = xs @ x # zs)" for xs x ys
    by (cases ys rule: rev_cases) auto
  then show ?thesis by (auto simp: hist_ok_def)
qed

definition point_ok :: "TheController \<Rightarrow> (nat \<Rightarrow> request) \<Rightarrow> (string \<Rightarrow> bool) \<Rightarrow> grain \<Rightarrow> nat \<Rightarrow> bool" where
  "point_ok c req L s p =
     (case g_at s p of
        SawFree \<Rightarrow> \<exists>n. req p = LockRequest n \<and> \<not> flag_at (key_of c n) (g_db s)
      | FlagSet \<Rightarrow> \<exists>n. req p = LockRequest n \<and> flag_at (key_of c n) (g_db s) \<and> Granted p (key_of c n) \<in> set (g_hist s)
      | Leaves got \<Rightarrow> got \<longrightarrow> (\<forall>n. req p = LockRequest n \<longrightarrow> Granted p (key_of c n) \<in> set (g_hist s))
      | Answered e \<Rightarrow> e = None \<longrightarrow> (\<forall>n. req p = LockRequest n \<longrightarrow> Granted p (key_of c n) \<in> set (g_hist s))
      | MayWrite \<Rightarrow> \<exists>n v a b. req p = SetRequest n v \<and> accepts c (GetOnly n valid_name_chars) (NewDynamicVar_string v) \<and>
          g_hist s = a @ Checked p (key_of c (GetOnly n valid_name_chars)) # b \<and> \<not> locked_after (key_of c (GetOnly n valid_name_chars)) (L (key_of c (GetOnly n valid_name_chars))) a
      | _ \<Rightarrow> True)"

definition grain_inv :: "TheController \<Rightarrow> (nat \<Rightarrow> request) \<Rightarrow> (string \<Rightarrow> bool) \<Rightarrow> grain \<Rightarrow> bool" where
  "grain_inv c req L s \<longleftrightarrow> db_wf (g_db s) \<and> (\<forall>p q. has_token (g_at s p) \<longrightarrow> has_token (g_at s q) \<longrightarrow> p = q) \<and>
     (\<forall>p. has_token (g_at s p) \<longrightarrow> g_locks s varLockerSystem = Some False) \<and>
     (\<forall>k. flag_at k (g_db s) = locked_after k (L k) (g_hist s)) \<and> hist_ok L (g_hist s) \<and> (\<forall>p. point_ok c req L s p)"

lemma moves_simps [simp]:
  "g_db (moves p x s) = g_db s" "g_locks (moves p x s) = g_locks s" "g_at (moves p x s) = (g_at s)(p := x)"
  "g_hist (moves p x s) = g_hist s"
  by (simp_all add: moves_def)

text \<open>A step of one goroutine that changes flags only inside the named lock leaves the others as they are.\<close>

lemma point_ok_other:
  assumes "point_ok c req L s q" and "g_at s' q = g_at s q" and "g_hist s' = g_hist s @ es"
    and "has_token (g_at s q) \<Longrightarrow> \<forall>k. flag_at k (g_db s') = flag_at k (g_db s)"
  shows "point_ok c req L s' q"
proof -
  have "\<exists>b'. (a @ Checked q k # b) @ es = a @ Checked q k # b'" for a k b by simp
  then show ?thesis
    using assms unfolding point_ok_def by (cases "g_at s q") (auto 0 4)
qed

lemma grain_invD:
  assumes "grain_inv c req L s"
  shows "db_wf (g_db s)" and "hist_ok L (g_hist s)" and "point_ok c req L s p"
    and "flag_at k (g_db s) = locked_after k (L k) (g_hist s)"
    and "has_token (g_at s p) \<Longrightarrow> g_locks s varLockerSystem = Some False"
    and "has_token (g_at s p) \<Longrightarrow> q \<noteq> p \<Longrightarrow> \<not> has_token (g_at s q)"
  using assms by (auto simp: grain_inv_def)

lemma grain_inv_move:
  assumes inv: "grain_inv c req L s" and s1: "g_at s1 = g_at s" "g_hist s1 = g_hist s @ es"
    and wf: "db_wf (g_db s1)" and flags: "\<And>k. flag_at k (g_db s1) = locked_after k (flag_at k (g_db s)) es"
    and hist: "hist_ok L (g_hist s @ es)" and own: "point_ok c req L (moves p x s1) p"
    and excl: "has_token x \<Longrightarrow> g_locks s1 varLockerSystem = Some False \<and> (\<forall>q. q \<noteq> p \<longrightarrow> \<not> has_token (g_at s q))"
    and token: "\<not> has_token (g_at s p) \<Longrightarrow> g_locks s varLockerSystem = Some False \<Longrightarrow> g_locks s1 varLockerSystem = Some False"
    and change: "\<not> has_token (g_at s p) \<Longrightarrow> (\<forall>k. flag_at k (g_db s1) = flag_at k (g_db s))"
  shows "grain_inv c req L (moves p x s1)"
proof -
  note D = grain_invD [OF inv]
  have points: "point_ok c req L (moves p x s1) q" for q
  proof (cases "q = p")
    case False
    have "\<forall>k. flag_at k (g_db s1) = flag_at k (g_db s)" if "has_token (g_at s q)"
    proof (rule change)
      show "\<not> has_token (g_at s p)" using D(6) [OF that, of p] False by simp
    qed
    with point_ok_other [OF D(3) [of q], of "moves p x s1" es] show ?thesis using False s1 by simp
  qed (simp add: own)
  have locks: "g_locks s1 varLockerSystem = Some False" if "has_token (if q = p then x else g_at s q)" for q
  proof (cases "q = p")
    case True
    then show ?thesis using that excl by simp
  next
    case False
    then have q: "has_token (g_at s q)" using that by simp_all
    have "\<not> has_token (g_at s p)" using D(6) [OF q, of p] False by simp
    then show ?thesis by (rule token) (rule D(5) [OF q])
  qed
  have one: "q = r" if q: "has_token (if q = p then x else g_at s q)" and r: "has_token (if r = p then x else g_at s r)" for q r
  proof (rule ccontr)
    assume "q \<noteq> r"
    then consider "q = p" "r \<noteq> p" | "r = p" "q \<noteq> p" | "q \<noteq> p" "r \<noteq> p" by metis
    then show False
    proof cases
      case 3
      then have "has_token (g_at s q)" "has_token (g_at s r)" using q r by simp_all
      then show False using D(6) \<open>q \<noteq> r\<close> by metis
    qed (use q r excl in simp_all)
  qed
  have fl: "flag_at k (g_db s1) = locked_after k (L k) (g_hist s1)" for k
    unfolding flags D(4) s1(2) by simp
  show ?thesis
    unfolding grain_inv_def moves_simps fun_upd_def s1(1)
    by (intro conjI allI impI) ((rule one locks, assumption+) | (rule wf fl points hist [folded s1(2)]))+
qed

lemma lock_step_inv:
  assumes "lock_step c req s s'" and "\<not> allowRawDbAccess c" and inv: "grain_inv c req L s"
  shows "grain_inv c req L s'"
  using assms
proof (induction rule: lock_step.induct)
  case (lookup s p)
  note D = grain_invD [OF lookup(4)]
  show ?case
    using lookup(1) D(1,2)
    by (intro grain_inv_move [OF lookup(4), where es = "[]"]) (simp_all add: point_ok_def lookupNamedLock_def)
next
  case (enter s p ls)
  note D = grain_invD [OF enter(4)]
  have "g_locks s varLockerSystem = Some True" "ls = (g_locks s)(varLockerSystem := Some False)"
    using enter(2) by (simp_all add: takeToken_def split: if_splits)
  moreover from this have "\<not> has_token (g_at s q)" for q using D(5) [of q] by auto
  ultimately show ?case
    using enter(1) D(1,2) by (intro grain_inv_move [OF enter(4), where es = "[]"]) (simp_all add: point_ok_def)
next
  case (test s p n)
  note D = grain_invD [OF test(4)]
  show ?case
    using test(1,2) D(5) [of p] D(6) [of p] D(1,2)
    by (intro grain_inv_move [OF test(4), where es = "[]"]) (simp_all add: point_ok_def IsLocked_flag)
next
  case (set_flag s p n)
  note D = grain_invD [OF set_flag(4)]
  have "\<not> flag_at (key_of c n) (g_db s)" using set_flag(1,2) D(3) [of p] by (simp add: point_ok_def)
  then show ?case
    using set_flag(1,2) D(5) [of p] D(6) [of p] D(1,2) D(4) [of "key_of c n"]
    by (intro grain_inv_move [OF set_flag(4), where es = "[Granted p (key_of c n)]"])
      (simp_all add: point_ok_def flag_at_lock_flag lock_flag_wf)
next
  case (retest s p n)
  note D = grain_invD [OF retest(4)]
  show ?case
    using retest(1,2) D(5) [of p] D(6) [of p] D(1,2) D(3) [of p]
    by (intro grain_inv_move [OF retest(4), where es = "[]"]) (simp_all add: point_ok_def IsLocked_flag)
next
  case (clear_flag s p n)
  note D = grain_invD [OF clear_flag(4)]
  show ?case
    using clear_flag(1,2) D(5) [of p] D(6) [of p] D(1,2)
    by (intro grain_inv_move [OF clear_flag(4), where es = "[Freed p (key_of c n)]"])
      (simp_all add: point_ok_def flag_at_lock_flag lock_flag_wf)
next
  case (leave s p got x)
  note D = grain_invD [OF leave(4)]
  show ?case
    using leave(1,2) D(5) [of p] D(6) [of p] D(1,2) D(3) [of p]
    by (intro grain_inv_move [OF leave(4), where es = "[]"]) (auto simp: point_ok_def split: if_splits)
next
  case (refuse s p n v)
  note D = grain_invD [OF refuse(5)]
  show ?case
    using refuse(1,2) D(1,2) by (intro grain_inv_move [OF refuse(5), where es = "[]"]) (simp_all add: point_ok_def)
next
  case (check s p n v)
  note D = grain_invD [OF check(5)]
  let ?k = "key_of c (GetOnly n valid_name_chars)"
  have "\<exists>a b. g_hist s @ [Checked p ?k] = a @ Checked p ?k # b \<and> \<not> locked_after ?k (L ?k) a" if "\<not> flag_at ?k (g_db s)"
    using that D(4) [of ?k] by blast
  then show ?case
    using check(1-3) D(1,2)
    by (intro grain_inv_move [OF check(5), where es = "[Checked p ?k]"]) (auto simp: point_ok_def IsLocked_flag split: if_splits)
next
  case (write_value s p n v)
  note D = grain_invD [OF write_value(4)]
  let ?k = "key_of c (GetOnly n valid_name_chars)"
  have "accepts c (GetOnly n valid_name_chars) (NewDynamicVar_string v)"
    and "\<exists>a k b. g_hist s = a @ Checked p k # b \<and> key_path k = var_path c (GetOnly n valid_name_chars) \<and> \<not> locked_after k (L k) a"
    using write_value(1,2) D(3) [of p] by (auto simp: point_ok_def var_path_def)
  then show ?case
    using write_value(1-3) D(1,2)
    by (intro grain_inv_move [OF write_value(4), where es = "if CHR ''*'' \<in> set (GetOnly n valid_name_chars) then []
          else [Written p (var_path c (GetOnly n valid_name_chars))]"])
      (simp_all add: point_ok_def flag_at_SetValue [OF write_value(3)] SetValue_wf)
qed

lemma grain_run:
  assumes "(lock_step c req)\<^sup>*\<^sup>* (at_rest db) s" and "\<not> allowRawDbAccess c" and "db_wf db"
  shows "grain_inv c req (\<lambda>k. flag_at k db) s"
  using assms(1)
proof (induction rule: rtranclp_induct)
  case base
  then show ?case using assms(3) by (simp add: grain_inv_def point_ok_def at_rest_def)
next
  case (step s1 s2)
  then show ?case using lock_step_inv assms(2) by blast
qed

lemma grain_event:
  assumes "(lock_step c req)\<^sup>*\<^sup>* (at_rest db) s" and "\<not> allowRawDbAccess c" and "db_wf db" and "g_hist s = xs @ e # ys"
  shows "event_ok (\<lambda>k. flag_at k db) xs e"
  using grain_invD(2) [OF grain_run [OF assms(1-3)]] assms(4) by (simp add: hist_ok_def)

text \<open>A test that found the lock free and comes after the last release is no later than the grant.\<close>

lemma checked_before_grant:
  assumes ab: "xs @ Granted q k # ys = a @ Checked p k # b" and free: "\<not> locked_after k l a" and "\<forall>r. Freed r k \<notin> set ys"
  shows "Checked p k \<in> set xs"
proof (cases "length a < length xs")
  case True
  then have "xs = a @ Checked p k # take (length xs - Suc (length a)) b"
    using arg_cong [OF ab, of "take (length xs)"] by (simp add: take_Cons')
  then show ?thesis by (metis in_set_conv_decomp)
next
  case False
  then obtain us where us: "a = xs @ us" "Granted q k # ys = us @ Checked p k # b"
    using ab by (auto simp: append_eq_append_conv2)
  then obtain vs where "us = Granted q k # vs" "ys = vs @ Checked p k # b" by (cases us) auto
  then show ?thesis using free us(1) locked_stays [of k vs] assms(3) by auto
qed

text \<open>Two keys of one path differ in a final dot.\<close>

lemma same_key_path:
  assumes "key_path k' = key_path k"
  shows "k' = k \<or> k' = k @ ''.'' \<or> k = k' @ ''.''"
proof -
  have cases: "parts x = key_path x \<or> parts x = key_path x @ [[]]" for x
  proof (cases "last (parts x) = [] \<and> length (parts x) > 1")
    case True
    then show ?thesis using append_butlast_last_id [OF parts_neq_Nil, of x] by (metis key_path_parts)
  next
    case False
    then have "key_path x = parts x" unfolding key_path_parts by (rule if_not_P)
    then show ?thesis by simp
  qed
  have dot: "parts (x @ ''.'') = parts x @ [[]]" for x using parts_append_dot [of x "[]"] by (simp add: parts_no_dot)
  show ?thesis using cases [of k] cases [of k'] assms dot [of k] dot [of k'] by (metis parts_inj)
qed

lemma demo_unlocked: "\<not> IsLocked ramStorage (vh_for demo_ctl ''a'') one_var_db"
  by (simp add: ram.IsLocked_peek one_var_db_wf one_var_peek demo_paths)

section \<open>A run\<close>

text \<open>Goroutine \<open>p\<close> tests the lock, goroutine \<open>q\<close> gets it, and \<open>p\<close> writes.\<close>

lemma slip_run:
  assumes "GetOnly n valid_name_chars = n" and "CHR ''*'' \<notin> set n" and "accepts c n (NewDynamicVar_string v)" and "db_wf db"
    and "\<not> IsLocked ramStorage (vh_for c n) db" and "req p = SetRequest n v" and "req q = LockRequest n"
  shows "(lock_step c req)\<^sup>*\<^sup>* (at_rest db)
    \<lparr>g_db = SetValue ramStorage (vh_for c n) (NewDynamicVar_string v) (lock_flag c n ''1'' db),
     g_locks = [varLockerSystem \<mapsto> True], g_at = (\<lambda>_. Begins)(p := Answered None, q := Answered None),
     g_hist = [Checked p (key_of c n), Granted q (key_of c n), Written p (var_path c n)]\<rparr>"
proof -
  have pq: "p \<noteq> q" using assms(6,7) by auto
  let ?k = "key_of c n" and ?db1 = "lock_flag c n ''1'' db" and ?ls = "\<lambda>b. [varLockerSystem \<mapsto> b]"
  let ?s = "\<lambda>d l x y h. \<lparr>g_db = d, g_locks = l, g_at = (\<lambda>_. Begins)(p := x, q := y), g_hist = h\<rparr>"
  note step = converse_rtranclp_into_rtranclp [of "lock_step c req"]
  have wf1: "db_wf ?db1" using assms(4) by (rule lock_flag_wf)
  have locked1: "IsLocked ramStorage (vh_for c n) ?db1" using assms(4) by (simp add: IsLocked_flag wf1 flag_at_lock_flag)
  have 1: "lock_step c req (at_rest db) (?s db Map.empty MayWrite Begins [Checked p ?k])"
    using lock_step.check [of "at_rest db" p req n v c] assms pq by (simp add: moves_def at_rest_def fun_upd_idem)
  have 2: "lock_step c req (?s db Map.empty MayWrite Begins [Checked p ?k]) (?s db (?ls True) MayWrite Waits [Checked p ?k])"
    using lock_step.lookup [of "?s db Map.empty MayWrite Begins [Checked p ?k]" q req c] assms pq
    by (simp add: moves_def lookupNamedLock_def)
  have 3: "lock_step c req (?s db (?ls True) MayWrite Waits [Checked p ?k]) (?s db (?ls False) MayWrite Enters [Checked p ?k])"
    using lock_step.enter [of "?s db (?ls True) MayWrite Waits [Checked p ?k]" q _ c req] pq
    by (simp add: moves_def takeToken_def)
  have 4: "lock_step c req (?s db (?ls False) MayWrite Enters [Checked p ?k]) (?s db (?ls False) MayWrite SawFree [Checked p ?k])"
    using lock_step.test [of "?s db (?ls False) MayWrite Enters [Checked p ?k]" q req n c] assms pq by (simp add: moves_def)
  have 5: "lock_step c req (?s db (?ls False) MayWrite SawFree [Checked p ?k]) (?s ?db1 (?ls False) MayWrite FlagSet [Checked p ?k, Granted q ?k])"
    using lock_step.set_flag [of "?s db (?ls False) MayWrite SawFree [Checked p ?k]" q req n c] assms pq by (simp add: moves_def)
  have 6: "lock_step c req (?s ?db1 (?ls False) MayWrite FlagSet [Checked p ?k, Granted q ?k])
      (?s ?db1 (?ls False) MayWrite (Leaves True) [Checked p ?k, Granted q ?k])"
    using lock_step.retest [of "?s ?db1 (?ls False) MayWrite FlagSet [Checked p ?k, Granted q ?k]" q req n c] assms pq locked1
    by (simp add: moves_def)
  have 7: "lock_step c req (?s ?db1 (?ls False) MayWrite (Leaves True) [Checked p ?k, Granted q ?k])
      (?s ?db1 (?ls True) MayWrite (Answered None) [Checked p ?k, Granted q ?k])"
    using lock_step.leave [of "?s ?db1 (?ls False) MayWrite (Leaves True) [Checked p ?k, Granted q ?k]" q True "Answered None" c req] pq
    by (simp add: moves_def releaseNamedLock_def)
  let ?db2 = "SetValue ramStorage (vh_for c n) (NewDynamicVar_string v) ?db1"
  have 8: "lock_step c req (?s ?db1 (?ls True) MayWrite (Answered None) [Checked p ?k, Granted q ?k])
      (?s ?db2 (?ls True) (Answered None) (Answered None) [Checked p ?k, Granted q ?k, Written p (var_path c n)])"
    using lock_step.write_value [of "?s ?db1 (?ls True) MayWrite (Answered None) [Checked p ?k, Granted q ?k]" p req n v c] assms pq
    by (simp add: moves_def fun_upd_twist)
  show ?thesis
    by (intro step [OF 1] step [OF 2] step [OF 3] step [OF 4] step [OF 5] step [OF 6] step [OF 7] step [OF 8] rtranclp.rtrancl_refl)
qed

lemma demo_slip:
  "(lock_step demo_ctl (\<lambda>p. if p = 0 then SetRequest ''a'' ''5'' else LockRequest ''a''))\<^sup>*\<^sup>* (at_rest one_var_db)
    \<lparr>g_db = SetValue ramStorage (vh_for demo_ctl ''a'') (NewDynamicVar_string ''5'') (lock_flag demo_ctl ''a'' ''1'' one_var_db),
     g_locks = [varLockerSystem \<mapsto> True], g_at = (\<lambda>_. Begins)(0 := Answered None, 1 := Answered None),
     g_hist = [Checked 0 ''vars.a'', Granted 1 ''vars.a'', Written 0 [''vars'', ''a'']]\<rparr>"
proof -
  have "accepts demo_ctl ''a'' (NewDynamicVar_string ''5'')" by (simp add: accepts_def demo_ctl_def parts_def)
  moreover have "GetOnly ''a'' valid_name_chars = ''a''" by (simp add: GetOnly_def valid_name_chars_def)
  ultimately show ?thesis
    using slip_run [of "''a''" demo_ctl "''5''" one_var_db "\<lambda>p. if p = 0 then SetRequest ''a'' ''5'' else LockRequest ''a''" 0 1]
      one_var_db_wf demo_unlocked by (simp add: demo_paths)
qed

section \<open>Properties\<close>

text \<open>C11. The lock of a variable excludes, at the granularity of single accesses to the storage and in every interleaving
  of calls of \<open>Lock\<close>, \<open>Unlock\<close> and \<open>SetVar\<close> on any variables: a call of \<open>Lock\<close> that returned without an error
  was granted the lock, between two grants of the lock of a variable there is an \<open>Unlock\<close> of it, and the variable
  is locked exactly when its last grant has not been followed by one. A lock belongs to the text of the name: \<open>a\<close> and
  \<open>a.\<close>, which name one stored variable, have two locks.\<close>

theorem variable_lock_excludes:
  assumes "(lock_step c req)\<^sup>*\<^sup>* (at_rest db) s" and "\<not> allowRawDbAccess c" and "db_wf db"
  shows "(\<forall>p n. req p = LockRequest n \<and> g_at s p = Answered None \<longrightarrow> Granted p (key_of c n) \<in> set (g_hist s)) \<and>
    (\<forall>xs p k ys q zs. g_hist s = xs @ Granted p k # ys @ Granted q k # zs \<longrightarrow> (\<exists>r. Freed r k \<in> set ys)) \<and>
    (\<forall>n. IsLocked ramStorage (vh_for c n) (g_db s) =
       locked_after (key_of c n) (IsLocked ramStorage (vh_for c n) db) (g_hist s))"
proof -
  note inv = grain_run [OF assms]
  have "Granted p (key_of c n) \<in> set (g_hist s)" if "req p = LockRequest n" "g_at s p = Answered None" for p n
    using grain_invD(3) [OF inv, of p] that by (simp add: point_ok_def)
  moreover have "\<exists>r. Freed r k \<in> set ys" if "g_hist s = xs @ Granted p k # ys @ Granted q k # zs" for xs p k ys q zs
    using grain_event [OF assms, of "xs @ Granted p k # ys" "Granted q k" zs] that locked_stays [of k ys] by simp
  moreover have "IsLocked ramStorage (vh_for c n) (g_db s) =
       locked_after (key_of c n) (IsLocked ramStorage (vh_for c n) db) (g_hist s)" for n
    using grain_invD(1) [OF inv] grain_invD(4) [OF inv, of "key_of c n"] assms(3) by (simp add: IsLocked_flag)
  ultimately show ?thesis by blast
qed

theorem variable_lock_excludes_witness:
  "IsLocked ramStorage (vh_for demo_ctl ''a'')
     (SetValue ramStorage (vh_for demo_ctl ''a'') (NewDynamicVar_string ''5'') (lock_flag demo_ctl ''a'' ''1'' one_var_db))"
  using variable_lock_excludes [OF demo_slip _ one_var_db_wf] by (simp add: demo_paths)

text \<open>C12. What a lock means for writers: a \<open>SetVar\<close> that writes a stored variable while somebody has the lock of a key of
  it had tested this lock before it was granted, or it used the other spelling of the key, with or without a final dot,
  which names the same variable and has a lock of its own. So under the spelling that is locked no \<open>SetVar\<close> that starts
  after the grant writes before the release.\<close>

theorem writers_under_lock_tested_before:
  assumes "(lock_step c req)\<^sup>*\<^sup>* (at_rest db) s" and "\<not> allowRawDbAccess c" and "db_wf db"
    and "g_hist s = xs @ Granted q k # ys @ Written p (key_path k) # zs" and "\<forall>r. Freed r k \<notin> set ys"
  shows "Checked p k \<in> set xs \<or>
    (\<exists>k'. (k' = k @ ''.'' \<or> k = k' @ ''.'') \<and> Checked p k' \<in> set (xs @ Granted q k # ys))"
proof -
  obtain a k' b where ab: "xs @ Granted q k # ys = a @ Checked p k' # b" and k': "key_path k' = key_path k"
    and free: "\<not> locked_after k' (flag_at k' db) a"
    using grain_event [OF assms(1-3), of "xs @ Granted q k # ys" "Written p (key_path k)" zs] assms(4) by auto
  show ?thesis
  proof (cases "k' = k")
    case False
    then have "k' = k @ ''.'' \<or> k = k' @ ''.''" using same_key_path [OF k'] by blast
    moreover have "Checked p k' \<in> set (xs @ Granted q k # ys)" unfolding ab by simp
    ultimately show ?thesis by blast
  next
    case True
    then show ?thesis using checked_before_grant [OF ab [unfolded True] free [unfolded True] assms(5)] by blast
  qed
qed

theorem writers_under_lock_tested_before_witness:
  "\<exists>s xs. (lock_step demo_ctl (\<lambda>p. if p = 0 then SetRequest ''a'' ''5'' else LockRequest ''a''))\<^sup>*\<^sup>* (at_rest one_var_db) s \<and>
     g_hist s = xs @ [Granted 1 ''vars.a'', Written 0 [''vars'', ''a'']] \<and> Checked 0 ''vars.a'' \<in> set xs"
proof -
  let ?xs = "[Checked 0 ''vars.a'']"
  have path: "key_path ''vars.a'' = [''vars'', ''a'']" by code_simp
  have "Checked 0 ''vars.a'' \<in> set ?xs \<or>
    (\<exists>k'. (k' = ''vars.a'' @ ''.'' \<or> ''vars.a'' = k' @ ''.'') \<and> Checked 0 k' \<in> set (?xs @ Granted 1 ''vars.a'' # []))"
    by (rule writers_under_lock_tested_before [OF demo_slip _ one_var_db_wf, of ?xs 1 "''vars.a''" "[]" 0 "[]"]) (simp_all add: path)
  then have "Checked 0 ''vars.a'' \<in> set ?xs" by auto
  moreover have "[Checked 0 ''vars.a'', Granted 1 ''vars.a'', Written 0 [''vars'', ''a'']] = ?xs @ [Granted 1 ''vars.a'', Written 0 [''vars'', ''a'']]"
    by simp
  ultimately show ?thesis using demo_slip by (metis grain.select_convs(4))
qed

text \<open>The lock of a variable can be passed by a final dot: while \<open>n\<close> is locked, \<open>SetVar\<close> of \<open>n.\<close> finds another lock, succeeds
  and overwrites the variable \<open>n\<close>, which is still locked.\<close>

theorem final_dot_passes_lock:
  assumes "\<not> allowRawDbAccess c" and "db_wf db" and "set n \<subseteq> set valid_name_chars - {CHR ''*''}" and "last (parts n) \<noteq> []" and "n \<noteq> ''vars''"
    and "accepts c (n @ ''.'') (NewDynamicVar_string v)" and "IsLocked ramStorage (vh_for c n) db"
    and "\<not> IsLocked ramStorage (vh_for c (n @ ''.'')) db"
  shows "\<exists>db' ts. SetVar c (n @ ''.'') (NewDynamicVar_string v) db = (None, db', ts) \<and>
    db_peek db' (var_path c n) = v \<and> IsLocked ramStorage (vh_for c n) db'"
proof -
  define m where "m = n @ ''.''"
  let ?db = "SetValue ramStorage (vh_for c m) (NewDynamicVar_string v) db"
  have "CHR ''.'' \<in> set valid_name_chars" by (simp add: valid_name_chars_def)
  then have m: "set m \<subseteq> set valid_name_chars" "CHR ''*'' \<notin> set m" using assms(3) by (auto simp: m_def)
  have ok: "accepts c m (NewDynamicVar_string v)" "\<not> IsLocked ramStorage (vh_for c m) db" using assms(6,8) by (simp_all add: m_def)
  have "SetVar c m (NewDynamicVar_string v) db = (None, ?db, [NotifyModification m (NewDynamicVar_string v)])"
    using ok GetOnly_id [OF m(1)] m(2) SetString_self [of "NewDynamicVar_string v"]
    by (cases rule: SetVar_cases [of c m "NewDynamicVar_string v" db]) auto
  moreover have "n @ ''.'' \<noteq> ''vars'' @ ''.''" using assms(5) by simp
  then have "strings_HasPrefix m ''vars.'' = strings_HasPrefix n ''vars.''" by (auto simp: m_def strings_HasPrefix_def prefix_snoc)
  then have "key_of c m = key_of c n @ ''.''" using assms(1) by (simp add: m_def vh_name_for)
  then have "var_path c m = var_path c n"
    using key_path_trailing_dot [of "key_of c n"] assms(1,4) parts_append_dot [of "''vars''" n] by (simp add: var_path_def vh_name_for)
  then have "db_peek ?db (var_path c n) = v"
    using SetValue_peek [OF assms(2), of c m] m(2) by (simp add: star_vh_name)
  moreover have "IsLocked ramStorage (vh_for c n) ?db"
    using flag_at_SetValue [OF assms(1) ok(1) assms(2)] assms(2,7) by (simp add: IsLocked_flag SetValue_wf)
  ultimately show ?thesis unfolding m_def by blast
qed

theorem final_dot_passes_lock_witness:
  "\<exists>db' ts. SetVar demo_ctl ''a.'' (NewDynamicVar_string ''5'') (lock_flag demo_ctl ''a'' ''1'' one_var_db) = (None, db', ts) \<and>
     db_peek db' [''vars'', ''a''] = ''5'' \<and> IsLocked ramStorage (vh_for demo_ctl ''a'') db'"
proof -
  let ?db = "lock_flag demo_ctl ''a'' ''1'' one_var_db"
  have key: "key_of demo_ctl ''a.'' = ''vars.a.''" by (simp add: vh_name_for strings_HasPrefix_def)
  have wf: "db_wf ?db" by (rule lock_flag_wf [OF one_var_db_wf])
  have "IsLocked ramStorage (vh_for demo_ctl ''a'') ?db" by (simp add: IsLocked_flag wf flag_at_lock_flag one_var_db_wf)
  moreover have "\<not> IsLocked ramStorage (vh_for demo_ctl ''a.'') ?db"
    using flag_at_lock_flag [OF one_var_db_wf, of "''vars.a.''" demo_ctl "''a''" "''1''"]
    by (simp add: IsLocked_flag wf key demo_paths) (simp add: flag_at_def one_var_peek)
  moreover have "accepts demo_ctl ''a.'' (NewDynamicVar_string ''5'')" by (simp add: accepts_def demo_ctl_def parts_def)
  ultimately show ?thesis
    using final_dot_passes_lock [of demo_ctl ?db "''a''" "''5''"] wf by (simp add: demo_paths valid_name_chars_def parts_def)
qed

text \<open>C37. The test and the write of \<open>SetVar\<close> are not one: a \<open>SetVar\<close> that has found the variable free may write it after
  another client was granted the lock, and reports success while the other client holds it.\<close>

theorem write_slips_past_lock:
  assumes "\<not> allowRawDbAccess c" and "db_wf db" and "set n \<subseteq> set valid_name_chars - {CHR ''*''}"
    and "accepts c n (NewDynamicVar_string v)" and "\<not> IsLocked ramStorage (vh_for c n) db"
    and "req p = SetRequest n v" and "req q = LockRequest n"
  shows "\<exists>s. (lock_step c req)\<^sup>*\<^sup>* (at_rest db) s \<and> g_hist s = [Checked p (key_of c n), Granted q (key_of c n), Written p (var_path c n)] \<and>
    g_at s q = Answered None \<and> g_at s p = Answered None \<and>
    IsLocked ramStorage (vh_for c n) (g_db s) \<and> db_peek (g_db s) (var_path c n) = v"
proof -
  let ?db1 = "lock_flag c n ''1'' db"
  let ?db2 = "SetValue ramStorage (vh_for c n) (NewDynamicVar_string v) ?db1"
  have wf1: "db_wf ?db1" using assms(2) by (rule lock_flag_wf)
  have "IsLocked ramStorage (vh_for c n) ?db2"
    using wf1 assms(2) flag_at_SetValue [OF assms(1,4) wf1] by (simp add: IsLocked_flag SetValue_wf flag_at_lock_flag)
  moreover have "db_peek ?db2 (var_path c n) = v"
    using assms(3) by (auto simp: SetValue_peek [OF wf1] star_vh_name)
  moreover have "GetOnly n valid_name_chars = n" using assms(3) by (intro GetOnly_id) blast
  moreover have "CHR ''*'' \<notin> set n" using assms(3) by blast
  ultimately show ?thesis using slip_run [of n c v db req p q] assms by (intro exI conjI) auto
qed

theorem write_slips_past_lock_witness:
  "\<exists>s. (lock_step demo_ctl (\<lambda>p. if p = 0 then SetRequest ''a'' ''5'' else LockRequest ''a''))\<^sup>*\<^sup>* (at_rest one_var_db) s \<and>
     IsLocked ramStorage (vh_for demo_ctl ''a'') (g_db s) \<and> db_peek (g_db s) [''vars'', ''a''] = ''5''"
proof -
  have "accepts demo_ctl ''a'' (NewDynamicVar_string ''5'')" by (simp add: accepts_def demo_ctl_def parts_def)
  then show ?thesis
    using write_slips_past_lock [of demo_ctl one_var_db "''a''" "''5''"
        "\<lambda>p. if p = 0 then SetRequest ''a'' ''5'' else LockRequest ''a''" 0 1] one_var_db_wf demo_unlocked
    by (auto simp: demo_paths valid_name_chars_def)
qed

end
