(* ===== verification/Ordering.thy ===== *)
theory Ordering
  imports Controller
begin

text \<open>
  In which order the notifications of two changes reach a client. \<open>SetVar\<close> starts a goroutine that looks for the observers,
  which starts one goroutine for each of them; every goroutine carries the value of its own change.
\<close>

section \<open>One delivery\<close>

text \<open>A client that a notification reaches: it is registered with an API that can send to it.\<close>

definition reachable_client :: "TheController \<Rightarrow> RamCacheDB \<Rightarrow> string \<Rightarrow> IApi \<Rightarrow> bool" where
  "reachable_client c r cid api \<longleftrightarrow> db_wf r \<and> db_peek r (cl_root cid @ [''apiId'']) = aGetApiId api \<and> aGetApiId api \<noteq> [] \<and>
     map_of (apis c) (aGetApiId api) = Some api \<and> (\<forall>pl. aNotifyClient api cid pl)"

context storage
begin

lemma initialize_keeps_apiId:
  assumes "invar db" and "ch_api h = Some api" and "peek db (cl_root (ch_clientId h) @ [''apiId'']) = aGetApiId api"
  shows "peek (initialize S a t h db) (cl_root (ch_clientId h) @ [''apiId'']) = aGetApiId api"
  using assms
  by (cases a) (simp_all add: initialize_def runLocked_def Let_def UpdateLiveTime_def peek_set invar_set key_path_live)

end

lemma delivery:
  assumes "reachable_client c r cid api" and "notify_one c e cid md n v r = (r', out)"
  shows "out = [(aGetApiId api, cid, [(n, md, GetString v)])]" and "reachable_client c r' cid api"
    and "\<And>p. p \<noteq> [] \<Longrightarrow> hd p \<noteq> ''internal'' \<Longrightarrow> db_peek r' p = db_peek r p"
proof -
  note R = assms(1) [unfolded reachable_client_def]
  show "out = [(aGetApiId api, cid, [(n, md, GetString v)])]"
    using task_delivers [of r cid api c e md n v] R assms(2) by simp
  let ?h = "\<lparr>ch_clientId = cid, ch_api = Some api\<rparr>" and ?i = "\<lambda>r. initialize ramStorage (cl_acq e) (now e) \<lparr>ch_clientId = cid, ch_api = Some api\<rparr> r"
  have "getString ramStorage r (cl_key cid @ ''.apiId'') = aGetApiId api"
    using R by (simp add: ram.getString_peek key_path_live)
  then have r': "r' = UpdateLiveTime ramStorage (now e) ?h (?i r)"
    using R assms(2)
    by (simp add: notify_one_def NewControllerClientHelperWithApis_def NewControllerClientHelper_def Let_def
        notify_checked_def Notify_def)
  have st: "ram.stays ''internal'' r (?i r)" using R by (intro ram.stays_client_ops(2)) simp
  then have st': "ram.stays ''internal'' r r'"
    unfolding r' by (rule ram.stays_trans [OF _ ram.stays_client_ops(1) [OF ram.stays_invar [OF st]]])
  then show "db_peek r' p = db_peek r p" if "p \<noteq> []" "hd p \<noteq> ''internal''" for p
    using that by (simp add: within_def)
  have "db_peek (?i r) (cl_root cid @ [''apiId'']) = aGetApiId api"
    using ram.initialize_keeps_apiId [of r ?h api "cl_acq e" "now e"] R by simp
  then have "db_peek r' (cl_root cid @ [''apiId'']) = aGetApiId api"
    unfolding r' by (simp add: ram.UpdateLiveTime_spec(2) [OF ram.stays_invar [OF st]])
  then show "reachable_client c r' cid api"
    using R ram.stays_invar [OF st'] by (simp add: reachable_client_def)
qed

section \<open>Two changes\<close>

lemma SetValue_keeps_client:
  assumes "reachable_client c r cid api" and "\<not> allowRawDbAccess c"
  shows "reachable_client c (SetValue ramStorage (vh_for c n) v r) cid api"
proof -
  have "hd (var_path c n) = ''vars''" using hd_var_path [OF assms(2)] by blast
  then have "cl_root cid @ [''apiId''] \<noteq> var_path c n" by (auto simp: cl_root_def dest: arg_cong [of _ _ hd])
  then show ?thesis using assms(1) by (simp add: reachable_client_def SetValue_wf SetValue_peek)
qed

lemma SetValue_keeps_observers:
  assumes "db_wf r"
  shows "obs_list db_peek (SetValue ramStorage (vh_for c n) v r) (vh_name (vh_for c n)) = obs_list db_peek r (vh_name (vh_for c n))"
proof (rule obs_cong(1))
  fix q
  have "obs_root (vh_name (vh_for c n)) @ q \<noteq> var_path c n"
    using register_keeps_value [of c n] by (metis prefixI)
  then show "db_peek (SetValue ramStorage (vh_for c n) v r) (obs_root (vh_name (vh_for c n)) @ q) =
      db_peek r (obs_root (vh_name (vh_for c n)) @ q)" using assms by (simp add: SetValue_peek)
qed

lemma spawn:
  assumes "sy_tasks s = ts1 @ NotifyModification m v # ts2" and "db_wf (sy_db s)" and "cid \<noteq> []"
    and "(cid, md) \<in> set (obs_list db_peek (sy_db s) (vh_name (vh_for c m)))"
  obtains as bs where "sys_step c s (s\<lparr>sy_tasks := ts1 @ ts2 @ as @ NotifyClientTask cid md m v # bs\<rparr>)"
proof -
  let ?e = "\<lparr>acq = (\<lambda>_. True), now = 0\<rparr>"
  have "NotifyClientTask cid md m v \<in> set (notifyVarModification c ?e m v (sy_db s))"
    by (rule observer_gets_task [OF assms(2) _ _ assms(4,3)]) simp_all
  then obtain as bs where "notifyVarModification c ?e m v (sy_db s) = as @ NotifyClientTask cid md m v # bs" by (meson split_list)
  with sys_step.goroutine [OF assms(1), of c ?e "sy_db s" "notifyVarModification c ?e m v (sy_db s)" "[]"] that show thesis by simp
qed

lemma deliver_task:
  assumes "sy_tasks s = ts1 @ NotifyClientTask cid md m v # ts2" and "reachable_client c (sy_db s) cid api"
  obtains db' where "sys_step c s (s\<lparr>sy_db := db', sy_tasks := ts1 @ ts2, sy_sent := sy_sent s @ [(aGetApiId api, cid, [(m, md, GetString v)])]\<rparr>)"
    and "reachable_client c db' cid api" and "\<And>p. p \<noteq> [] \<Longrightarrow> hd p \<noteq> ''internal'' \<Longrightarrow> db_peek db' p = db_peek (sy_db s) p"
proof -
  let ?e = "\<lparr>acq = (\<lambda>_. True), now = 0\<rparr>"
  obtain db' out where n: "notify_one c ?e cid md m v (sy_db s) = (db', out)" by fastforce
  note d = delivery [OF assms(2) n]
  show thesis
    by (rule that [OF _ d(2,3)]) (use sys_step.goroutine [OF assms(1), of c ?e db' "[]" out] n d(1) in simp_all)
qed

text \<open>Two pending deliveries in any order.\<close>

lemma deliver_two:
  assumes "sy_tasks s = as @ NotifyClientTask cid md m v1 # bs @ NotifyClientTask cid md m v2 # cs"
    and "reachable_client c (sy_db s) cid api"
  obtains s' where "(sys_step c)\<^sup>*\<^sup>* s s'" and "\<And>p. p \<noteq> [] \<Longrightarrow> hd p \<noteq> ''internal'' \<Longrightarrow> db_peek (sy_db s') p = db_peek (sy_db s) p"
    and "sy_sent s' = sy_sent s @ [(aGetApiId api, cid, [(m, md, GetString v2)]), (aGetApiId api, cid, [(m, md, GetString v1)])]"
proof -
  obtain db1 where s1: "sys_step c s (s\<lparr>sy_db := db1, sy_tasks := (as @ NotifyClientTask cid md m v1 # bs) @ cs,
      sy_sent := sy_sent s @ [(aGetApiId api, cid, [(m, md, GetString v2)])]\<rparr>)" (is "sys_step c s ?s1")
    and r1: "reachable_client c db1 cid api" "\<And>p. p \<noteq> [] \<Longrightarrow> hd p \<noteq> ''internal'' \<Longrightarrow> db_peek db1 p = db_peek (sy_db s) p"
    using deliver_task [of s "as @ NotifyClientTask cid md m v1 # bs" cid md m v2 cs c api] assms by auto
  obtain db2 where s2: "sys_step c ?s1 (?s1\<lparr>sy_db := db2, sy_tasks := as @ bs @ cs,
      sy_sent := sy_sent ?s1 @ [(aGetApiId api, cid, [(m, md, GetString v1)])]\<rparr>)" (is "sys_step c _ ?s2")
    and r2: "\<And>p. p \<noteq> [] \<Longrightarrow> hd p \<noteq> ''internal'' \<Longrightarrow> db_peek db2 p = db_peek db1 p"
    using deliver_task [of ?s1 as cid md m v1 "bs @ cs" c api] r1(1) by auto
  have "(sys_step c)\<^sup>*\<^sup>* s ?s2" using s1 s2 by (meson r_into_rtranclp rtranclp.rtrancl_into_rtrancl)
  then show thesis using r1(2) r2 by (intro that [of ?s2]) simp_all
qed

section \<open>Properties\<close>

text \<open>C38. The last notification may be stale: when a variable that a client observes is set twice, one \<open>SetVar\<close> after the
  other, the goroutines of the two changes may deliver in the other order. The client then receives the old value
  last, while the variable holds the new one.\<close>

theorem stale_notification_last:
  assumes "SetVar c n v1 (sy_db s) = (None, db1, ts1)" and "SetVar c n v2 db1 = (None, db2, ts2)" and "sy_tasks s = []"
    and "\<not> allowRawDbAccess c" and "m = GetOnly n valid_name_chars" and "CHR ''*'' \<notin> set m"
    and "reachable_client c (sy_db s) cid api" and "(cid, md) \<in> set (obs_list db_peek (sy_db s) (vh_name (vh_for c m)))" and "cid \<noteq> []"
  shows "\<exists>s'. (sys_step c)\<^sup>*\<^sup>* s s' \<and> db_peek (sy_db s') (var_path c m) = GetString v2 \<and>
    sy_sent s' = sy_sent s @ [(aGetApiId api, cid, [(m, md, GetString v2)]), (aGetApiId api, cid, [(m, md, GetString v1)])]"
proof -
  have wf: "db_wf (sy_db s)" using assms(7) by (simp add: reachable_client_def)
  have d1: "db1 = SetValue ramStorage (vh_for c m) v1 (sy_db s)" "ts1 = [NotifyModification m v1]"
    using assms(1,5) by (cases rule: SetVar_cases [of c n v1 "sy_db s"]; simp)+
  have d2: "db2 = SetValue ramStorage (vh_for c m) v2 db1" "ts2 = [NotifyModification m v2]"
    using assms(2,5) by (cases rule: SetVar_cases [of c n v2 db1]; simp)+
  have wf1: "db_wf db1" and wf2: "db_wf db2" by (simp_all add: d1 d2 SetValue_wf wf)
  let ?s2 = "s\<lparr>sy_db := db2, sy_tasks := [NotifyModification m v1, NotifyModification m v2]\<rparr>"
  have "sys_step c s (s\<lparr>sy_db := db1, sy_tasks := [NotifyModification m v1]\<rparr>)"
    using sys_step.set_var [OF assms(1)] assms(3) d1(2) by simp
  moreover have "sys_step c (s\<lparr>sy_db := db1, sy_tasks := [NotifyModification m v1]\<rparr>) ?s2"
    using sys_step.set_var [of c n v2 "s\<lparr>sy_db := db1, sy_tasks := [NotifyModification m v1]\<rparr>"] assms(2) d2(2) by simp
  ultimately have run2: "(sys_step c)\<^sup>*\<^sup>* s ?s2" by simp
  have obs: "(cid, md) \<in> set (obs_list db_peek db2 (vh_name (vh_for c m)))"
    using assms(8) by (simp add: d2 d1 SetValue_keeps_observers wf SetValue_wf)
  have client: "reachable_client c db2 cid api" using assms(4,7) by (simp add: d1 d2 SetValue_keeps_client)
  obtain as bs where 3: "sys_step c ?s2 (?s2\<lparr>sy_tasks := [NotifyModification m v2] @ as @ NotifyClientTask cid md m v1 # bs\<rparr>)" (is "sys_step c _ ?s3")
    using spawn [of ?s2 "[]" m v1 "[NotifyModification m v2]" cid md c] wf2 assms(9) obs by auto
  obtain as' bs' where 4: "sys_step c ?s3 (?s3\<lparr>sy_tasks := (as @ NotifyClientTask cid md m v1 # bs) @ as' @ NotifyClientTask cid md m v2 # bs'\<rparr>)" (is "sys_step c _ ?s4")
    using spawn [of ?s3 "[]" m v2 "as @ NotifyClientTask cid md m v1 # bs" cid md c] wf2 assms(9) obs by auto
  obtain s' where 5: "(sys_step c)\<^sup>*\<^sup>* ?s4 s'" "\<And>p. p \<noteq> [] \<Longrightarrow> hd p \<noteq> ''internal'' \<Longrightarrow> db_peek (sy_db s') p = db_peek db2 p"
    "sy_sent s' = sy_sent s @ [(aGetApiId api, cid, [(m, md, GetString v2)]), (aGetApiId api, cid, [(m, md, GetString v1)])]"
    using deliver_two [of ?s4 as cid md m v1 "bs @ as'" v2 bs' c api] client by auto
  have "db_peek (sy_db s') (var_path c m) = db_peek db2 (var_path c m)" using 5(2) hd_var_path [OF assms(4), of m] by auto
  also have "... = GetString v2" using assms(6) by (simp add: d2 SetValue_peek wf1 star_vh_name)
  finally show ?thesis using run2 3 4 5(1,3) by (meson rtranclp.rtrancl_into_rtrancl rtranclp_trans)
qed

text \<open>The client \<open>c1\<close>, registered with the API \<open>VSTP\<close>, observes the variable \<open>a\<close>.\<close>

definition notified_db :: RamCacheDB where
  "notified_db = fst (RegisterObservation ramStorage True (vh_for demo_ctl ''a'') ''c1'' ''m'' registered_db)"

lemma notified_db_props:
  "reachable_client demo_ctl notified_db ''c1'' demo_api" "\<not> IsLocked ramStorage (vh_for demo_ctl ''a'') notified_db"
  "(''c1'', ''m'') \<in> set (obs_list db_peek notified_db (vh_name (vh_for demo_ctl ''a'')))"
proof -
  have key: "key_path ''internal.clients.byId.c1.apiId'' = cl_root ''c1'' @ [''apiId'']"
    using key_path_live(2) [of "''c1''"] by (simp add: cl_key_def)
  then have "db_peek registered_db (obs_root ''vars.a'' @ q) = db_peek one_var_db (obs_root ''vars.a'' @ q)" for q
    by (simp add: registered_db_def ram_rules cl_root_def obs_root_def parts_def)
  then have "obs_count db_peek registered_db ''vars.a'' = 0" using obs_cong(2) [of db_peek registered_db] one_var_unobserved by simp
  then have count: "obs_count db_peek registered_db (vh_name (vh_for demo_ctl ''a'')) = 0" by (simp add: demo_paths)
  have c0: "0 \<le> obs_count db_peek registered_db (vh_name (vh_for demo_ctl ''a''))"
    and c1: "obs_count db_peek registered_db (vh_name (vh_for demo_ctl ''a'')) < 2 ^ 63 - 1" by (simp_all add: count)
  note reg = ram.RegisterObservation_spec [OF registered_db_props(1) c0 c1 prod.collapse [symmetric], where cid = "''c1''" and md = "''m''",
      folded notified_db_def]
  have "db_peek notified_db (cl_root ''c1'' @ [''apiId'']) = ''VSTP''"
    using reg(4) [of "cl_root ''c1'' @ [''apiId'']"] registered_db_props(2) by (simp add: cl_root_def obs_root_def demo_paths parts_def)
  then show "reachable_client demo_ctl notified_db ''c1'' demo_api"
    using reg(1) by (simp add: reachable_client_def demo_api_def)
  have "db_peek notified_db [''vars'', ''a'', ''_lock''] = db_peek registered_db [''vars'', ''a'', ''_lock'']"
    by (rule reg(4)) (simp add: obs_root_def demo_paths parts_def)
  also have "... = []" using key by (simp add: registered_db_def ram_rules cl_root_def one_var_peek)
  finally show "\<not> IsLocked ramStorage (vh_for demo_ctl ''a'') notified_db"
    using reg(1) by (simp add: ram.IsLocked_peek demo_paths parts_def)
  show "(''c1'', ''m'') \<in> set (obs_list db_peek notified_db (vh_name (vh_for demo_ctl ''a'')))" using reg(2) by simp
qed

theorem stale_notification_last_witness:
  "\<exists>s'. (sys_step demo_ctl)\<^sup>*\<^sup>* \<lparr>sy_db = notified_db, sy_tasks = [], sy_sent = []\<rparr> s' \<and>
     db_peek (sy_db s') [''vars'', ''a''] = ''7'' \<and>
     sy_sent s' = [(''VSTP'', ''c1'', [(''a'', ''m'', ''7'')]), (''VSTP'', ''c1'', [(''a'', ''m'', ''5'')])]"
proof -
  let ?s = "\<lparr>sy_db = notified_db, sy_tasks = [], sy_sent = []\<rparr>" and ?v = NewDynamicVar_string
  have m: "''a'' = GetOnly ''a'' valid_name_chars" by (simp add: GetOnly_def valid_name_chars_def)
  have acc: "accepts demo_ctl ''a'' (?v ''5'')" "accepts demo_ctl ''a'' (?v ''7'')"
    by (simp_all add: accepts_def demo_ctl_def parts_def)
  have lock: "\<not> IsLocked ramStorage (vh_for demo_ctl ''a'') (SetValue ramStorage (vh_for demo_ctl ''a'') (?v ''5'') notified_db)"
    using notified_db_props(1,2) by (simp add: IsLocked_SetValue reachable_client_def)
  obtain ts1 where 1: "SetVar demo_ctl ''a'' (?v ''5'') notified_db = (None, SetValue ramStorage (vh_for demo_ctl ''a'') (?v ''5'') notified_db, ts1)"
    using acc notified_db_props(2) m SetString_self [of "?v ''5''"]
    by (cases rule: SetVar_cases [of demo_ctl "''a''" "?v ''5''" notified_db]) auto
  obtain db2 ts2 where 2: "SetVar demo_ctl ''a'' (?v ''7'') (SetValue ramStorage (vh_for demo_ctl ''a'') (?v ''5'') notified_db) = (None, db2, ts2)"
    using acc lock m
    by (cases rule: SetVar_cases [of demo_ctl "''a''" "?v ''7''" "SetValue ramStorage (vh_for demo_ctl ''a'') (?v ''5'') notified_db"]) auto
  show ?thesis
    using stale_notification_last [of demo_ctl "''a''" "?v ''5''" ?s _ _ "?v ''7''" db2 ts2 "''a''" "''c1''" demo_api "''m''"] 1 2 m notified_db_props
    by (simp add: demo_paths demo_api_def)
qed

end
