(* ===== verification/Spec2Isabelle.thy ===== *)
theory Spec2Isabelle
  imports Persistence WorkerPool NamedLock Controller VSTP TcpServer HttpApi Startup Logger Server System VarLocks Ordering
begin

text \<open>
  A verification development of the Variables and Streams Server (VSS), version 2.0.0: a server that keeps named
  variables in a tree, persists them, and lets clients set, read, delete, lock and observe them over a text
  protocol on TCP (VSTP) and over HTTP.

  \<^bold>\<open>The parts of the program and their theories.\<close>

  \<^item> \<open>VSS_Prelude\<close>, \<open>GoStrings\<close>: lemmas on lists and maps, 64-bit wrap-around, and what the sources use of the
    packages \<open>strings\<close> and \<open>strconv\<close>. A Go string is the list of its bytes.
  \<^item> \<open>Misc\<close>: \<open>sources/misc/dynamicvar.go\<close>, \<open>tuples.go\<close> and \<open>GetOnly\<close> of \<open>misc.go\<close>.
  \<^item> \<open>Storage\<close>: the interface \<open>IStorage\<close> (\<open>services/storage/istorage.go\<close>) as a record of operations; its contract is
    the locale \<open>storage\<close> over an observation of the texts and nodes at the paths of the keys.
  \<^item> \<open>RamCacheDB\<close>: the tree of \<open>services/storage/ramcachedb.go\<close> with all operations of the interface; \<open>ram\<close> interprets
    \<open>storage\<close> on it. \<open>Persistence\<close>: dump, load, the background dumper and the constructors of the same file.
    \<open>WorkerPool\<close>: the goroutines of \<open>ForEachChildsParallel\<close> as a step relation.
  \<^item> \<open>NamedLock\<close>: \<open>misc/namedlock.go\<close>, concurrent calls of \<open>NamedLockRun\<close> as a step relation.
  \<^item> \<open>VarHelper\<close>, \<open>ClientHelper\<close>: \<open>controller/controller_varhelper.go\<close> and \<open>controller_clienthelper.go\<close>, written over an
    arbitrary storage; their lemmas are proved in the locale \<open>storage\<close>.
  \<^item> \<open>Controller\<close>: \<open>controller/controller.go\<close> on the tree storage. A goroutine that an operation starts is a value of
    type \<open>task\<close> in its result; \<open>sys_step\<close> runs operations and pending tasks in any order. The locale \<open>client_api\<close> is
    what the controller relies on in an API (\<open>services/apis/IApi.go\<close>): a client that was notified was known before and
    is still known afterwards. An API answers \<open>CheckAlive\<close> for the state before and for the state after an attempt to
    notify, as a failed write to a web socket removes the client. \<open>Ordering\<close>: the deliveries of two changes on \<open>sys_step\<close>.
  \<^item> \<open>VSTP\<close>: \<open>services/apis/vstp/vstp.go\<close>; \<open>TcpServer\<close>: \<open>misc/tcpserver\<close>, a VSTP connection among all
    others, and \<open>vstp_run\<close>, in which the callbacks of new connections read and write the shared counter \<open>cliIdCount\<close> in
    steps of their own, as the code does without a lock.
  \<^item> \<open>HttpJson\<close>, \<open>HttpApi\<close>: \<open>services/apis/httpapi/httpapi.go\<close>, the JSON documents and the handlers. \<open>vstp\<close> and \<open>http\<close>
    interpret \<open>client_api\<close>.
  \<^item> \<open>Confs\<close>: \<open>misc/confs\<close> with its sources; \<open>Startup\<close>: help, configurations, logger, banner, the check of the arguments
    and the interception of the standard streams of \<open>main.go\<close>; \<open>Server\<close>: the function \<open>main\<close>, which puts the parts
    together, and its end, which waits for signals.
  \<^item> \<open>Logger\<close>: \<open>misc/logger\<close> and its writers, with the channel between \<open>Log\<close> and the goroutine that writes. In
    \<open>logger_run\<close> the sending of a message and the reset of the flag that keeps a line open are separate steps.
  \<^item> \<open>VarLocks\<close>: \<open>Lock\<close>, \<open>Unlock\<close> and \<open>SetVar\<close> once more, with a step for each access to the storage, so that they can
    interleave; the named lock around the first two is that of \<open>NamedLock\<close>. Locks belong to key texts, while \<open>a\<close> and \<open>a.\<close>
    are one place of the tree; the events of a run tell both apart.
  \<^item> \<open>System\<close>: what \<open>main\<close> has started, as one step relation: connections, received data, the goroutine of each line, HTTP
    requests, web sockets, the goroutines of the controller and the turns of the dumper, in any order. A step there is
    a whole handler. The run begins with the connections the TCP server accepted before the VSTP API had set its
    callbacks; once one of them sends data, the server is blocked with \<open>clientsLock\<close> held, and only what does not need
    this lock still happens. The locale \<open>ram_invariant\<close> of \<open>Controller\<close>, extended in \<open>System\<close>, carries any invariant of the
    storage through all of them; it is interpreted for well-formedness (\<open>wf\<close>) and for the mark of pending changes
    (\<open>tracked\<close>).
  \<^item> \<open>Terminal\<close>: the terminal helpers of \<open>misc/misc.go\<close> and the random names of \<open>misc/namer.go\<close>.
  \<^item> this theory: the properties of the parts working together.

  \<^bold>\<open>How the code is read.\<close> A Go map is an association list; where the order of iteration matters it is an
  argument. A function that panics or never returns has the value \<open>None\<close>. Errors are values of sum or option
  types, with the texts of the code where they reach a client. Connections are numbers, and what is written to
  them is a list of lines. Whether a named lock is taken before its timeout, the clock, the operating
  system, the network and the libraries \<open>encoding/json\<close> and \<open>path/filepath\<close> are parameters.

  \<^bold>\<open>What is shown.\<close> The tree refines a map from paths to values; dumping and loading restore it; the observer
  lists, the list of clients and the locks behave as their abstract counterparts, or the theorem says how they do
  not; \<open>SetVar\<close>, \<open>GetVars\<close>, \<open>DelVar\<close> and the notifications have their effect on every branch; the storage stays well
  formed in every interleaving; a value set over either protocol is read back; the byte stream of a connection
  is cut into its lines however it arrives, for as long as no early connection has blocked the server; connections are offered
  distinct ids as long as the callbacks of new connections do not overlap, and may share one if they do; the
  configuration gives limits of at least 1 whatever its sources say, and \<open>main\<close> runs exactly under the conditions
  stated, among them that the ticker of the dumper gets a positive period; every log writer
  gets every message in order; a variable survives a restart of the whole server. In every state the running server can
  reach, its data structures are well typed, it has stayed in its own subtrees of the database, a restart shows the same
  values unless changes are pending; an early connection that sends data ends the service of VSTP for good. The lock of a
  key excludes other lockers of this key in every interleaving of single accesses, and writers only as far as their
  test came after the grant and they spell the key as the lock does. Theorems
  about defects of the code describe the defect: they are named in the manifest as findings.

  \<^bold>\<open>Bounds and termination.\<close> The loops of \<open>Terminal\<close> are partial functions, and the lemmas say for which inputs they
  return; all other recursive functions are total. The retry loop of \<open>Lock\<close> runs on a schedule of what
  other goroutines do between its attempts, and \<open>Lock_returns\<close> shows that it ends when the timeout is seen to
  have passed. The depth of \<open>readFromDb\<close> is bounded by the height of the tree. The runs of the worker pool are
  bounded by a measure. Counters of lists are 64-bit numbers; where a lemma needs them not to overflow it says
  so.

  \<^bold>\<open>Not modelled.\<close> TLS and the sockets themselves, \<open>net/http\<close>, running the commands that archive a log file or receive log
  messages, \<open>SIGPIPE\<close>, which is ignored, and the word lists of \<open>misc/namer.go\<close>, which are arguments. Data races on the maps of
  the APIs and on the tree are not modelled: the code guards these with mutexes, and a step of \<open>System\<close> runs a handler
  as a whole; the finer interleavings are those of \<open>NamedLock\<close>, \<open>VarLocks\<close>, \<open>WorkerPool\<close>, \<open>Logger\<close> and \<open>vstp_run\<close>.
\<close>

section \<open>Across the components\<close>

text \<open>C6. A variable survives a restart of the whole server: after a turn of the background dumper that could write
  its file, a server whose \<open>main\<close> runs on that file answers \<open>get\<close> on the VSTP protocol with the value the variable
  had, for databases whose keys and values fit the format of the dump.\<close>

theorem value_survives_restart:
  assumes "db_wf r" and "clean_db r" and "pendingChanges r"
    and "backgroundDumper_step ev True WriteOk r file = (r', Some dumped, goes_on)"
    and "main e = Some sv" and "en_first_read e = FileText dumped" and "en_second_read e = FileText dumped"
    and "name \<noteq> []" and "set name \<subseteq> set valid_name_chars - {CHR ''*''}"
    and "db_peek r (var_path (sv_controller sv) name) \<noteq> []"
  shows "processReceivedMessage me cli (''get:'' @ name) (sv_vstpApi sv) (sv_database sv) =
    Some (sv_vstpApi sv, sv_database sv, [], reply cli (''get:'' @ name)
      [protocolWrite cli ''varvalue'' (name @ ''='' @ db_peek r (var_path (sv_controller sv) name))])"
proof -
  let ?c = "sv_controller sv" and ?db = "sv_database sv"
  have db: "?db = initStorage (sv_configs sv) (FileText dumped) (FileText dumped)" and ctrl: "ctrl (sv_vstpApi sv) = Some ?c"
    using assms(6,7) by (auto intro: main_server [OF assms(5)])
  have "var_path ?c name \<noteq> []" by (simp add: var_path_def)
  then have peek: "db_peek ?db (var_path ?c name) = db_peek r (var_path ?c name)"
    using dumper_text [OF assms(3,4)] restart_peek [OF assms(1,2)] by (simp add: db initStorage_def)
  have "db_wf ?db" by (simp add: db initStorage_def)
  then have "GetVars ?c name (NewDynamicVar_string []) ?db = Inr [(name, NewDynamicVar_string (db_peek r (var_path ?c name)))]"
    using GetVars_single [of ?db name ?c] assms(8-10) peek by auto
  then show ?thesis using assms(9) by (intro get_reply [OF ctrl]) auto
qed

theorem value_survives_restart_witness:
  "\<exists>dumped sv. snd (backgroundDumper_step TickerFired True WriteOk demo_db None) = (Some dumped, True) \<and>
     main (demo_environment [] (FileText dumped)) = Some sv \<and>
     processReceivedMessage demo_msg 7 ''get:a'' (sv_vstpApi sv) (sv_database sv) =
       Some (sv_vstpApi sv, sv_database sv, [], reply 7 ''get:a'' [protocolWrite 7 ''varvalue'' ''a=x''])"
proof -
  let ?txt = "dumpToStringLocked (root demo_db) []"
  have pend: "pendingChanges demo_db" by code_simp
  then have step: "backgroundDumper_step TickerFired True WriteOk demo_db None = (demo_db\<lparr>pendingChanges := False\<rparr>, Some ?txt, True)"
    by (simp add: backgroundDumper_step_def dump_def)
  obtain sv where st: "main (demo_environment [] (FileText ?txt)) = Some sv"
    and raw: "\<not> allowRawDbAccess (sv_controller sv)" by (rule demo_start)
  have path: "var_path (sv_controller sv) ''a'' = [''vars'', ''a'']"
    using raw by (simp add: var_path_def vh_name_for strings_HasPrefix_def key_path.simps split_key_def)
  have peek: "db_peek demo_db [''vars'', ''a''] = ''x''" by code_simp
  have "processReceivedMessage demo_msg 7 (''get:'' @ ''a'') (sv_vstpApi sv) (sv_database sv) =
       Some (sv_vstpApi sv, sv_database sv, [], reply 7 (''get:'' @ ''a'')
         [protocolWrite 7 ''varvalue'' (''a'' @ ''='' @ db_peek demo_db (var_path (sv_controller sv) ''a''))])"
    by (rule value_survives_restart [OF db_wf_demo_db demo_db_clean pend step st])
      (simp_all add: demo_environment_def path peek valid_name_chars_def)
  with st step show ?thesis by (simp add: path peek)
qed

text \<open>C14. What becomes of a client the server tried to notify, on either API, when the locks are obtained and there is no raw
  access. If the API still knows the client after the attempt (over HTTP a failed write has made it unknown), the
  database stays as it is but for the client's time of life. If not, and the client has been silent for less than the
  configured time, the database is unchanged. If not, and the time is over, the client's entry is gone, from every
  variable it observed exactly its observations are gone and the others stay in their order, and no variable changes
  its value. The attempt counts as successful only for a client that is still known. (The variables the client observes
  are to have observer lists with a count that is not negative, and names without the component \<open>_observers\<close>.)\<close>

theorem client_is_kept_while_known:
  assumes "ch_api ch = Some api"
    and "api = vstp_api sendOk v \<and> known = CheckAlive v (ch_clientId ch) \<or>
      api = http_api lib writeOk h \<and> known = http_CheckAlive (fst (snd (http_NotifyClient lib writeOk h (ch_clientId ch) pl))) (ch_clientId ch)"
    and "notify_checked c e ch pl db = (live, db', out)"
    and "db_wf db" and "acq e = (\<lambda>_. True)" and "\<not> allowRawDbAccess c"
    and "\<forall>w \<in> set (GetObservingVars ramStorage ch db). ''_observers'' \<notin> set (parts (vh_name (vh_for c w))) \<and>
      0 \<le> obs_count db_peek db (vh_name (vh_for c w))"
    and "silent = wrap64 (now e - num_of (db_peek db (cl_root (ch_clientId ch) @ [''lastLiveTime''])))"
  shows "(live \<longrightarrow> known) \<and>
    (if known then \<forall>p. db_peek db' p = (if p = cl_root (ch_clientId ch) @ [''lastLiveTime''] then strconv_Itoa (now e) else db_peek db p)
     else if silent < maxTimeWaitingClientSecond c then db' = db
     else \<not> HasValue db' (cl_key (ch_clientId ch)) \<and>
       (\<forall>w \<in> set (GetObservingVars ramStorage ch db). obs_list db_peek db' (vh_name (vh_for c w)) =
          filter (\<lambda>x. fst x \<noteq> ch_clientId ch) (obs_list db_peek db (vh_name (vh_for c w)))) \<and>
       (\<forall>p. p \<noteq> [] \<longrightarrow> hd p \<noteq> ''internal'' \<longrightarrow> ''_observers'' \<notin> set p \<longrightarrow> db_peek db' p = db_peek db p))"
proof -
  have "aAliveAfter api (ch_clientId ch) pl = known"
    using assms(2) by (auto simp: vstp_api_def http_api_def)
  then have db': "db' = (if known then UpdateLiveTime ramStorage (now e) ch db
       else if maxTimeWaitingClientSecond c \<le> TimeSinceLastLiveTime ramStorage (now e) ch db then deleteClient c e ch db else db)"
    and live: "live \<longrightarrow> known"
    using vstp.notify_checked_lifetime [of ch sendOk v c e pl db] http.notify_checked_lifetime [of ch lib writeOk h c e pl db]
      vstp.notify_checked_dead [of ch sendOk v pl c e db] http.notify_checked_dead [of ch lib writeOk h pl c e db] assms(1-3)
    by auto
  have "TimeSinceLastLiveTime ramStorage (now e) ch db = silent"
    using assms(4) by (simp add: assms(8) TimeSinceLastLiveTime_def GetLastLiveTime_def ram.getCount_peek key_path_live)
  moreover have "db_peek (UpdateLiveTime ramStorage (now e) ch db) p =
      (if p = cl_root (ch_clientId ch) @ [''lastLiveTime''] then strconv_Itoa (now e) else db_peek db p)" for p
    using ram.UpdateLiveTime_spec(2) [OF assms(4)] by simp
  ultimately show ?thesis
    using live deleteClient_forgets [OF assms(4-7) refl] unfolding db' by simp
qed

text \<open>A client whose web socket cannot be written to and that has been silent for too long is forgotten at once.\<close>

theorem client_is_kept_while_known_witness:
  "\<not> HasValue (fst (snd (notify_checked demo_ctl (demo_env\<lparr>now := 100000\<rparr>)
     \<lparr>ch_clientId = ''c1'', ch_api = Some (http_api demo_lib (\<lambda>_. False) (demo_http\<lparr>h_clients := [(''c1'', 3)], h_connToId := [(3, ''c1'')]\<rparr>))\<rparr>
     [(''a'', [], ''1'')] registered_db))) (cl_key ''c1'')"
proof -
  let ?h = "demo_http\<lparr>h_clients := [(''c1'', 3)], h_connToId := [(3, ''c1'')]\<rparr>" and ?pl = "[(''a'', [], ''1'')]"
  let ?ch = "\<lparr>ch_clientId = ''c1'', ch_api = Some (http_api demo_lib (\<lambda>_. False) ?h)\<rparr>" and ?e = "demo_env\<lparr>now := 100000\<rparr>"
  obtain live db' out where n: "notify_checked demo_ctl ?e ?ch ?pl registered_db = (live, db', out)" by (metis prod.exhaust)
  have known: "\<not> http_CheckAlive (fst (snd (http_NotifyClient demo_lib (\<lambda>_. False) ?h ''c1'' ?pl))) ''c1''"
    by (simp add: http_CheckAlive_def http_NotifyClient_def forget_conn_def demo_lib_def)
  have vars: "GetObservingVars ramStorage ?ch registered_db = []"
  proof -
    have "GetObservingVars ramStorage \<lparr>ch_clientId = ''c1'', ch_api = None\<rparr> registered_db = []" by code_simp
    then show ?thesis by (simp add: GetObservingVars_def)
  qed
  have time: "db_peek registered_db (cl_root ''c1'' @ [''lastLiveTime'']) = []" by code_simp
  have zero: "num_of [] = 0" by code_simp
  have "\<not> HasValue db' (cl_key (ch_clientId ?ch))"
    using client_is_kept_while_known [of ?ch _ undefined undefined False demo_lib "\<lambda>_. False" ?h ?pl demo_ctl ?e registered_db,
        OF _ _ n registered_db_props(1) _ _ _ refl] known vars time zero
    by (simp add: demo_ctl_def demo_env_def wrap64_def)
  then show ?thesis using n by simp
qed

end
